(* ===== verification/NdkPrelude.thy ===== *)
theory NdkPrelude
  imports Main "HOL-Library.Word"
begin

text \<open>
  Shared material of the development: the C types and faults the components use, the
  C library's string and memory searches on character lists, and lemmas on words and
  lists that several components need.

  A C string is its list of characters without the terminating NUL; a buffer with a
  length is the list of its bytes.  A pointer into a buffer is either an index or the
  suffix of the list that starts there.  The collection \<open>cstr_simps\<close> holds the
  equations that evaluate the searches on closed strings.
\<close>

unbundle bit_operations_syntax

named_theorems cstr_simps

type_synonym u8 = "8 word"
type_synonym u16 = "16 word"
type_synonym u32 = "32 word"
type_synonym u64 = "64 word"

text \<open>
  Behaviour the C standard leaves undefined, or that stops the process, is a value:
  a read outside a buffer, a use of a null pointer, a read of memory that was never
  written, and a call of \<open>abort\<close>.
\<close>

datatype c_fault = OutOfBounds | NullDeref | Uninitialised | Aborted

type_synonym 'a c_result = "c_fault + 'a"


section \<open>C integers\<close>

text \<open>A 32-bit \<open>int\<close>: the value is kept in range by two's complement wrap-around.\<close>

definition INT_MAX :: int where
  "INT_MAX = 2147483647"

definition c_int :: "int \<Rightarrow> int" where
  "c_int x = (x + 2147483648) mod 4294967296 - 2147483648"

lemma c_int_id:
  assumes "- 2147483648 \<le> x" "x \<le> INT_MAX"
  shows "c_int x = x"
proof -
  have "(x + 2147483648) mod 4294967296 = x + 2147483648"
    using assms unfolding INT_MAX_def by (intro mod_pos_pos_trivial) linarith+
  then show ?thesis unfolding c_int_def by linarith
qed

lemma c_int_bounds: "- 2147483648 \<le> c_int x" "c_int x \<le> INT_MAX"
  using pos_mod_sign [of 4294967296 "x + 2147483648"] pos_mod_bound [of 4294967296 "x + 2147483648"]
  unfolding c_int_def INT_MAX_def by linarith+

lemma c_int_le:
  assumes "0 \<le> x"
  shows "c_int x \<le> x"
proof -
  have "(x + 2147483648) mod 4294967296 \<le> x + 2147483648"
    using assms by (intro zmod_le_nonneg_dividend) simp
  then show ?thesis by (simp add: c_int_def)
qed

lemma c_int_mod: "c_int x mod 4294967296 = x mod 4294967296"
proof -
  have "c_int x mod 4294967296 = ((x + 2147483648) mod 4294967296 - 2147483648) mod 4294967296"
    by (simp add: c_int_def)
  also have "\<dots> = (x + 2147483648 - 2147483648) mod 4294967296"
    by (rule mod_diff_left_eq)
  finally show ?thesis by simp
qed

lemma c_int_cong: "x mod 4294967296 = y mod 4294967296 \<Longrightarrow> c_int x = c_int y"
  unfolding c_int_def by (simp only: mod_add_cong [of x 4294967296 y])


section \<open>Characters and C string searches\<close>

abbreviation code :: "char \<Rightarrow> int" where
  "code c \<equiv> of_char c"

definition newline :: char where
  "newline = CHR 0x0A"

definition tab :: char where
  "tab = CHR 0x09"

definition carriage_return :: char where
  "carriage_return = CHR 0x0D"

lemmas ctrl_chars [cstr_simps] = newline_def tab_def carriage_return_def

text \<open>The C string at the start of a buffer: the bytes before the first NUL.\<close>

definition c_string :: "char list \<Rightarrow> char list" where
  "c_string bs = takeWhile (\<lambda>c. c \<noteq> CHR 0x00) bs"

text \<open>
  \<open>memchr\<close> and \<open>strchr\<close>: the index of the first occurrence of a character.
\<close>

primrec memchr :: "char \<Rightarrow> char list \<Rightarrow> nat option" where
  "memchr c [] = None"
| "memchr c (x # xs) = (if x = c then Some 0 else map_option Suc (memchr c xs))"

text \<open>\<open>strrchr\<close>: the index of the last occurrence of a character.\<close>

primrec strrchr :: "char \<Rightarrow> char list \<Rightarrow> nat option" where
  "strrchr c [] = None"
| "strrchr c (x # xs) =
     (case strrchr c xs of
        Some i \<Rightarrow> Some (Suc i)
      | None \<Rightarrow> if x = c then Some 0 else None)"

text \<open>Whether a byte sequence starts with another one (\<open>memcmp\<close> on a prefix).\<close>

fun starts_with :: "'a list \<Rightarrow> 'a list \<Rightarrow> bool" where
  "starts_with xs [] = True"
| "starts_with [] (y # ys) = False"
| "starts_with (x # xs) (y # ys) = (x = y \<and> starts_with xs ys)"

text \<open>
  \<open>memmem\<close> and \<open>strstr\<close>: the index of the first occurrence of a needle; an empty
  needle is found at once.
\<close>

primrec memmem :: "char list \<Rightarrow> char list \<Rightarrow> nat option" where
  "memmem [] needle = (if needle = [] then Some 0 else None)"
| "memmem (x # xs) needle =
     (if starts_with (x # xs) needle then Some 0 else map_option Suc (memmem xs needle))"

text \<open>\<open>strspn\<close> and \<open>strcspn\<close>: the length of the prefix inside or outside a set.\<close>

definition strspn :: "char list \<Rightarrow> char list \<Rightarrow> nat" where
  "strspn xs accept = length (takeWhile (\<lambda>c. c \<in> set accept) xs)"

definition strcspn :: "char list \<Rightarrow> char list \<Rightarrow> nat" where
  "strcspn xs reject = length (takeWhile (\<lambda>c. c \<notin> set reject) xs)"


text \<open>How many bytes \<open>fgets\<close> reads with room for a number of them: up to and with the newline.\<close>

fun fgets_length :: "nat \<Rightarrow> char list \<Rightarrow> nat" where
  "fgets_length 0 cs = 0"
| "fgets_length (Suc n) [] = 0"
| "fgets_length (Suc n) (c # cs) = (if c = newline then 1 else Suc (fgets_length n cs))"

lemma fgets_length_pos [simp]: "0 < n \<Longrightarrow> cs \<noteq> [] \<Longrightarrow> 0 < fgets_length n cs"
  by (cases "(n, cs)" rule: fgets_length.cases) auto


text \<open>The decimal digits of a number, as \<open>printf\<close> writes them.\<close>

fun nat_digits :: "nat \<Rightarrow> string" where
  "nat_digits n =
     (if n < 10 then [char_of (48 + n)] else nat_digits (n div 10) @ [char_of (48 + n mod 10)])"

definition int_digits :: "int \<Rightarrow> string" where
  "int_digits i = (if i < 0 then ''-'' @ nat_digits (nat (- i)) else nat_digits (nat i))"

declare nat_digits.simps [simp del]


subsection \<open>What the searches find\<close>

lemma starts_with_iff: "starts_with xs ys \<longleftrightarrow> (\<exists>zs. xs = ys @ zs)"
  by (induction xs ys rule: starts_with.induct) auto

lemma starts_with_take: "starts_with xs ys \<longleftrightarrow> take (length ys) xs = ys"
  by (induction xs ys rule: starts_with.induct) auto

lemma starts_with_append [simp]: "starts_with (ys @ zs) ys"
  by (auto simp: starts_with_iff)

lemma memchr_None [simp]: "memchr c xs = None \<longleftrightarrow> c \<notin> set xs"
  by (induction xs) auto

lemma memchr_Some:
  "memchr c xs = Some i \<longleftrightarrow> i < length xs \<and> xs ! i = c \<and> (\<forall>j<i. xs ! j \<noteq> c)"
proof (induction xs arbitrary: i)
  case Nil
  then show ?case by simp
next
  case (Cons x xs)
  show ?case
  proof (cases i)
    case 0
    then show ?thesis by auto
  next
    case (Suc k)
    then show ?thesis
      using Cons.IH [of k] by (auto simp: less_Suc_eq_0_disj)
  qed
qed

lemma memchr_append_first: "c \<notin> set xs \<Longrightarrow> memchr c (xs @ c # ys) = Some (length xs)"
  by (induction xs) auto

lemma memmem_Some_starts: "memmem xs ys = Some i \<Longrightarrow> starts_with (drop i xs) ys"
  by (induction xs arbitrary: i) (auto split: if_splits)

lemma memmem_Some_first: "memmem xs ys = Some i \<Longrightarrow> j < i \<Longrightarrow> \<not> starts_with (drop j xs) ys"
proof (induction xs arbitrary: i j)
  case Nil
  then show ?case by (simp split: if_splits)
next
  case (Cons x xs)
  then show ?case by (cases j) (auto split: if_splits)
qed

lemma memmem_Some_bound: "memmem xs ys = Some i \<Longrightarrow> i + length ys \<le> length xs"
proof (induction xs arbitrary: i)
  case Nil
  then show ?case by (simp split: if_splits)
next
  case (Cons x xs)
  show ?case
  proof (cases "starts_with (x # xs) ys")
    case True
    then obtain zs where "x # xs = ys @ zs" by (auto simp: starts_with_iff)
    then have "length ys \<le> length (x # xs)" by simp
    with True Cons.prems show ?thesis by simp
  next
    case False
    with Cons show ?thesis by auto
  qed
qed

lemma memmem_None: "memmem xs ys = None \<Longrightarrow> \<not> starts_with (drop j xs) ys"
proof (induction xs arbitrary: j)
  case Nil
  then show ?case by (cases ys) (auto split: if_splits)
next
  case (Cons x xs)
  then show ?case by (cases j) (auto split: if_splits)
qed

lemma memmem_Some_iff:
  "memmem xs ys = Some i \<longleftrightarrow>
     starts_with (drop i xs) ys \<and> (\<forall>j<i. \<not> starts_with (drop j xs) ys) \<and> i \<le> length xs"
proof
  assume "memmem xs ys = Some i"
  then show "starts_with (drop i xs) ys \<and> (\<forall>j<i. \<not> starts_with (drop j xs) ys) \<and> i \<le> length xs"
    using memmem_Some_starts memmem_Some_first memmem_Some_bound by fastforce
next
  assume R: "starts_with (drop i xs) ys \<and> (\<forall>j<i. \<not> starts_with (drop j xs) ys) \<and> i \<le> length xs"
  then obtain k where k: "memmem xs ys = Some k" using memmem_None by fastforce
  then have "k = i"
    using R memmem_Some_starts memmem_Some_first by (metis linorder_neqE_nat)
  with k show "memmem xs ys = Some i" by simp
qed


section \<open>Bits of words\<close>

text \<open>\<open>flag n\<close> is the C constant \<open>1 << n\<close> at the width of its context.\<close>

definition flag :: "nat \<Rightarrow> 'a::len word" where
  "flag n = push_bit n 1"

definition has_flag :: "'a::len word \<Rightarrow> 'a word \<Rightarrow> bool" where
  "has_flag w f \<longleftrightarrow> w AND f \<noteq> 0"

lemma has_flag_bit [simp]: "has_flag w (flag n) \<longleftrightarrow> bit w n"
  by (simp add: has_flag_def flag_def bit_iff_and_push_bit_not_eq_0)

lemma bit_flag [simp]: "bit (flag n :: 'a::len word) m \<longleftrightarrow> m = n \<and> n < LENGTH('a)"
  by (auto simp: flag_def bit_simps)

text \<open>\<open>__builtin_popcount\<close>.\<close>

definition popcount :: "'a::len word \<Rightarrow> nat" where
  "popcount w = length (filter (bit w) [0..<LENGTH('a)])"

lemma popcount_card: "popcount (w :: 'a::len word) = card {i. bit w i}"
proof -
  have "{i. bit w i} = set (filter (bit w) [0..<LENGTH('a)])"
    by (auto dest: bit_imp_le_length)
  moreover have "distinct (filter (bit w) [0..<LENGTH('a)])" by simp
  ultimately show ?thesis by (metis distinct_card popcount_def)
qed

lemma popcount_le: "popcount (w :: 'a::len word) \<le> LENGTH('a)"
  unfolding popcount_def by (metis diff_zero length_filter_le length_upt)

end
