(* ===== verification/CpuList.thy ===== *)
theory CpuList
  imports NdkPrelude
begin

text \<open>
  Numbers, CPU lists and file reads of the cpufeatures library
  (\<open>sources/android/cpufeatures/cpu-features.c\<close>): \<open>parse_number\<close> and its two
  wrappers, the 32-core mask \<open>CpuList\<close> with its operations, the parser of the sysfs
  list format, the read loops \<open>get_file_size\<close> and \<open>read_file\<close>, and the CPU count.
\<close>


section \<open>Parsing numbers\<close>

text \<open>
  The value of one digit, as the two attempts in the loop of \<open>parse_number\<close> compute it.
  The C code tests \<open>(unsigned)d >= n\<close>, which also catches a negative \<open>d\<close>.
\<close>

definition digit_value :: "char \<Rightarrow> int option" where
  "digit_value c =
     (let d = code c - 48 in
      if 0 \<le> d \<and> d < 10 then Some d
      else
        let d1 = code c - 97;
            d2 = (if 0 \<le> d1 \<and> d1 < 6 then d1 else code c - 65)
        in if 0 \<le> d2 \<and> d2 < 6 then Some (d2 + 10) else None)"

text \<open>
  The loop: \<open>xs\<close> are the characters from \<open>p\<close> to \<open>limit\<close>.  The result is the value
  and the characters that are left.
\<close>

fun parse_digits :: "int \<Rightarrow> int \<Rightarrow> char list \<Rightarrow> int \<times> char list" where
  "parse_digits base val [] = (val, [])"
| "parse_digits base val (c # xs) =
     (case digit_value c of
        None \<Rightarrow> (val, c # xs)
      | Some d \<Rightarrow> if base \<le> d then (val, c # xs)
                 else parse_digits base (c_int (val * base + d)) xs)"

definition parse_number :: "int \<Rightarrow> char list \<Rightarrow> (int \<times> char list) option" where
  "parse_number base xs =
     (let (val, rest) = parse_digits base 0 xs in
      if length rest = length xs then None else Some (val, rest))"

definition parse_decimal :: "char list \<Rightarrow> (int \<times> char list) option" where
  "parse_decimal xs = parse_number 10 xs"

definition parse_hexadecimal :: "char list \<Rightarrow> (int \<times> char list) option" where
  "parse_hexadecimal xs = parse_number 16 xs"


section \<open>CPU lists\<close>

record CpuList =
  mask :: u32

definition cpulist_init :: CpuList where
  "cpulist_init = \<lparr>mask = 0\<rparr>"

definition cpulist_and :: "CpuList \<Rightarrow> CpuList \<Rightarrow> CpuList" where
  "cpulist_and list1 list2 = list1\<lparr>mask := mask list1 AND mask list2\<rparr>"

definition cpulist_set :: "CpuList \<Rightarrow> int \<Rightarrow> CpuList" where
  "cpulist_set list index =
     (if 0 \<le> index \<and> index < 32
      then list\<lparr>mask := mask list OR flag (nat index)\<rparr> else list)"

definition cpulist_count :: "CpuList \<Rightarrow> int" where
  "cpulist_count list = int (popcount (mask list))"

text \<open>
  The loop \<open>for (val = start_value; val <= end_value; val++)\<close>.  It runs for ever when
  \<open>end_value\<close> is the largest \<open>int\<close>, so its result is an option.
\<close>

partial_function (option) cpulist_set_range :: "CpuList \<Rightarrow> int \<Rightarrow> int \<Rightarrow> CpuList option" where
  "cpulist_set_range list val end_value =
     (if val \<le> end_value
      then cpulist_set_range (cpulist_set list val) (c_int (val + 1)) end_value
      else Some list)"

text \<open>
  One item of the list: the text up to the comma, or up to the end of the line.  The
  outer \<open>None\<close> is a loop that does not end, the inner one \<open>goto BAD_FORMAT\<close>.
\<close>

definition cpulist_parse_item :: "CpuList \<Rightarrow> char list \<Rightarrow> CpuList option option" where
  "cpulist_parse_item list item =
     (case parse_decimal item of
        None \<Rightarrow> Some None
      | Some (start_value, p) \<Rightarrow>
          (case (case p of
                   c # p' \<Rightarrow> if c = CHR ''-'' then map_option fst (parse_decimal p')
                             else Some start_value
                 | [] \<Rightarrow> Some start_value) of
             None \<Rightarrow> Some None
           | Some end_value \<Rightarrow>
               map_option Some (cpulist_set_range list start_value end_value)))"

text \<open>The main loop.  \<open>line\<close> are the characters from \<open>p\<close> to \<open>end\<close>.\<close>

function cpulist_parse :: "CpuList \<Rightarrow> char list \<Rightarrow> CpuList option" where
  "cpulist_parse list line =
     (if line = [] \<or> hd line = newline then Some list
      else
        let q = (case memchr (CHR '','') line of None \<Rightarrow> length line | Some i \<Rightarrow> i) in
        case cpulist_parse_item list (take q line) of
          None \<Rightarrow> None
        | Some None \<Rightarrow> Some list
        | Some (Some list') \<Rightarrow> cpulist_parse list' (drop (Suc q) line))"
  by pat_completeness auto
termination
  by (relation "measure (\<lambda>(list, line). length line)") auto

declare cpulist_parse.simps [simp del]


section \<open>Reading files\<close>

text \<open>
  An open file descriptor is the sequence of answers the kernel gives to \<open>read\<close>:
  an interruption (\<open>EINTR\<close>), an error, or a piece of data, of which one call takes
  as many bytes as it asked for.  After the last answer \<open>read\<close> returns 0.
\<close>

datatype read_event = Interrupted | ReadError | Bytes "char list"

datatype read_result = EINTR | EOther | Got "char list"

type_synonym file_system = "string \<Rightarrow> read_event list option"

fun sys_read :: "nat \<Rightarrow> read_event list \<Rightarrow> read_result \<times> read_event list" where
  "sys_read n [] = (Got [], [])"
| "sys_read n (Interrupted # es) = (EINTR, es)"
| "sys_read n (ReadError # es) = (EOther, es)"
| "sys_read n (Bytes bs # es) =
     (Got (take n bs), if length bs \<le> n then es else Bytes (drop n bs) # es)"

primrec event_weight :: "read_event \<Rightarrow> nat" where
  "event_weight Interrupted = 1"
| "event_weight ReadError = 1"
| "event_weight (Bytes bs) = Suc (length bs)"

definition fd_weight :: "read_event list \<Rightarrow> nat" where
  "fd_weight es = sum_list (map event_weight es)"

lemma sys_read_decreases:
  "sys_read n es = (r, es') \<Longrightarrow> 0 < n \<Longrightarrow> r \<noteq> Got [] \<Longrightarrow> fd_weight es' < fd_weight es"
  by (induction n es rule: sys_read.induct) (auto simp: fd_weight_def split: if_splits)

text \<open>The loop of \<open>get_file_size\<close>, with its 256-byte buffer, and the function.\<close>

function file_size_loop :: "int \<Rightarrow> read_event list \<Rightarrow> int" where
  "file_size_loop result es =
     (case sys_read 256 es of
        (EINTR, es') \<Rightarrow> file_size_loop result es'
      | (EOther, es') \<Rightarrow> result
      | (Got bs, es') \<Rightarrow>
          if bs = [] then result
          else file_size_loop (c_int (result + int (length bs))) es')"
  by pat_completeness auto
termination
  by (relation "measure (\<lambda>(result, es). fd_weight es)")
    (auto dest!: sym [of "(_, _)"] sys_read_decreases)

declare file_size_loop.simps [simp del]

definition get_file_size :: "file_system \<Rightarrow> string \<Rightarrow> int" where
  "get_file_size fs pathname =
     (case fs pathname of None \<Rightarrow> -1 | Some es \<Rightarrow> file_size_loop 0 es)"

text \<open>
  The loop of \<open>read_file\<close>.  \<open>buffer\<close> holds the bytes read so far, so \<open>count\<close> is
  its length; the result is the returned count with the content of the buffer.
\<close>

function read_file_loop :: "nat \<Rightarrow> char list \<Rightarrow> read_event list \<Rightarrow> int \<times> char list" where
  "read_file_loop buffsize buffer es =
     (if int (length buffer) < c_int (int buffsize) then
        (case sys_read (buffsize - length buffer) es of
           (EINTR, es') \<Rightarrow> read_file_loop buffsize buffer es'
         | (EOther, es') \<Rightarrow> (if buffer = [] then -1 else int (length buffer), buffer)
         | (Got bs, es') \<Rightarrow>
             if bs = [] then (int (length buffer), buffer)
             else read_file_loop buffsize (buffer @ bs) es')
      else (int (length buffer), buffer))"
  by pat_completeness auto

lemma read_file_room:
  "int (length buffer) < c_int (int buffsize) \<Longrightarrow> 0 < buffsize - length buffer"
  using c_int_le [of "int buffsize"] by linarith

termination read_file_loop
  by (relation "measure (\<lambda>(buffsize, buffer, es). fd_weight es)")
    (auto dest!: sym [of "(_, _)"] read_file_room intro: sys_read_decreases)

declare read_file_loop.simps [simp del]

definition read_file :: "file_system \<Rightarrow> string \<Rightarrow> nat \<Rightarrow> int \<times> char list" where
  "read_file fs pathname buffsize =
     (case fs pathname of None \<Rightarrow> (-1, []) | Some es \<Rightarrow> read_file_loop buffsize [] es)"

definition cpulist_read_from :: "file_system \<Rightarrow> string \<Rightarrow> CpuList option" where
  "cpulist_read_from fs filename =
     (case read_file fs filename 64 of
        (filelen, file) \<Rightarrow>
          if filelen < 0 then Some cpulist_init
          else cpulist_parse cpulist_init (take (nat filelen) file))"

definition get_cpu_count :: "file_system \<Rightarrow> int option" where
  "get_cpu_count fs =
     (case cpulist_read_from fs ''/sys/devices/system/cpu/present'' of
        None \<Rightarrow> None
      | Some cpus_present \<Rightarrow>
          (case cpulist_read_from fs ''/sys/devices/system/cpu/possible'' of
             None \<Rightarrow> None
           | Some cpus_possible \<Rightarrow>
               Some (cpulist_count (cpulist_and cpus_present cpus_possible))))"


section \<open>Properties of the number parser\<close>

text \<open>
  The reference: the digits of a base at the head of the text, and their value as an
  unbounded integer.
\<close>

definition is_digit :: "int \<Rightarrow> char \<Rightarrow> bool" where
  "is_digit base c \<longleftrightarrow> (case digit_value c of None \<Rightarrow> False | Some d \<Rightarrow> d < base)"

definition number_value :: "int \<Rightarrow> int \<Rightarrow> char list \<Rightarrow> int" where
  "number_value base v ds = foldl (\<lambda>v c. v * base + the (digit_value c)) v ds"

lemma c_int_step: "c_int (c_int v * base + d) = c_int (v * base + d)"
  by (intro c_int_cong mod_add_cong mod_mult_cong c_int_mod refl)

lemma c_int_fold:
  "c_int (number_value base (c_int v) ds) = c_int (number_value base v ds)"
proof (induction ds rule: rev_induct)
  case Nil
  have "c_int (c_int v) = c_int v" by (rule c_int_cong) (rule c_int_mod)
  then show ?case by (simp add: number_value_def)
next
  case (snoc d ds)
  let ?f = "number_value base"
  have "c_int (?f (c_int v) (ds @ [d])) = c_int (c_int (?f (c_int v) ds) * base + the (digit_value d))"
    by (simp add: number_value_def c_int_step)
  also have "\<dots> = c_int (?f v (ds @ [d]))"
    by (simp add: snoc.IH c_int_step) (simp add: number_value_def)
  finally show ?case .
qed

lemma parse_digits_eq:
  "parse_digits base (c_int val) xs =
     (c_int (number_value base val (takeWhile (is_digit base) xs)), dropWhile (is_digit base) xs)"
proof (induction xs arbitrary: val)
  case Nil
  then show ?case by (simp add: number_value_def)
next
  case (Cons c xs)
  show ?case
  proof (cases "is_digit base c")
    case True
    then obtain d where d: "digit_value c = Some d" "d < base"
      by (auto simp: is_digit_def split: option.splits)
    then show ?thesis
      using Cons.IH [of "val * base + d"] True
      by (simp add: number_value_def c_int_step)
  next
    case False
    then show ?thesis
      by (auto simp: is_digit_def number_value_def split: option.splits)
  qed
qed

text \<open>
  \<open>parse_number\<close> takes exactly the longest prefix of digits of the base, fails when
  there is none, and returns the 32-bit wrap-around of the prefix's value and the text
  after it, which therefore never lies beyond the limit.
\<close>

theorem parse_number_spec:
  "parse_number base xs =
     (if takeWhile (is_digit base) xs = [] then None
      else Some (c_int (number_value base 0 (takeWhile (is_digit base) xs)),
                 dropWhile (is_digit base) xs))"
proof -
  have len: "length (dropWhile (is_digit base) xs) = length xs \<longleftrightarrow> takeWhile (is_digit base) xs = []"
    by (metis add_cancel_left_left length_0_conv length_append takeWhile_dropWhile_id)
  have "c_int 0 = 0" by (simp add: c_int_def)
  then show ?thesis
    using parse_digits_eq [of base 0 xs] len by (simp add: parse_number_def)
qed


section \<open>Properties of CPU lists\<close>

lemma bit_cpulist_set:
  "bit (mask (cpulist_set list index)) i \<longleftrightarrow> bit (mask list) i \<or> (int i = index \<and> i < 32)"
  by (auto simp: cpulist_set_def bit_or_iff)

lemma cpulist_set_range_le:
  assumes "- 2147483648 \<le> val" "end_value < INT_MAX"
  shows "\<exists>list'. cpulist_set_range list val end_value = Some list' \<and>
           (\<forall>i. bit (mask list') i \<longleftrightarrow>
              bit (mask list) i \<or> (i < 32 \<and> val \<le> int i \<and> int i \<le> end_value))"
  using assms
proof (induction "nat (end_value + 1 - val)" arbitrary: list val)
  case 0
  then have lt: "\<not> val \<le> end_value" by linarith
  then have "cpulist_set_range list val end_value = Some list"
    by (subst cpulist_set_range.simps) simp
  with lt show ?case by auto
next
  case (Suc n)
  then have le: "val \<le> end_value" by linarith
  with Suc.prems have next_val: "c_int (val + 1) = val + 1"
    by (intro c_int_id) (auto simp: INT_MAX_def)
  have "n = nat (end_value + 1 - (val + 1))" using Suc.hyps(2) by linarith
  moreover have "- 2147483648 \<le> val + 1" using Suc.prems by linarith
  ultimately obtain list' where list':
    "cpulist_set_range (cpulist_set list val) (val + 1) end_value = Some list'"
    "\<forall>i. bit (mask list') i \<longleftrightarrow>
       bit (mask (cpulist_set list val)) i \<or> (i < 32 \<and> val + 1 \<le> int i \<and> int i \<le> end_value)"
    using Suc.hyps(1) [of "val + 1" "cpulist_set list val"] Suc.prems(2) by blast
  then have "cpulist_set_range list val end_value = Some list'"
    using le next_val by (subst cpulist_set_range.simps) simp
  moreover have "bit (mask list') i \<longleftrightarrow>
      bit (mask list) i \<or> (i < 32 \<and> val \<le> int i \<and> int i \<le> end_value)" for i
    using list'(2) [rule_format, of i] le unfolding bit_cpulist_set by linarith
  ultimately show ?case by blast
qed



subsection \<open>The kernel's list format\<close>

text \<open>
  What the kernel prints: decimal numbers, single CPUs or inclusive ranges, separated by
  commas, with a newline at the end.
\<close>

definition digit_char :: "nat \<Rightarrow> char" where
  "digit_char d = char_of (48 + d)"

fun decimal :: "nat \<Rightarrow> char list" where
  "decimal n = (if n < 10 then [digit_char n] else decimal (n div 10) @ [digit_char (n mod 10)])"

declare decimal.simps [simp del]

datatype cpu_item = Single nat | Range nat nat

primrec render_item :: "cpu_item \<Rightarrow> char list" where
  "render_item (Single n) = decimal n"
| "render_item (Range a b) = decimal a @ CHR ''-'' # decimal b"

fun render_cpulist :: "cpu_item list \<Rightarrow> char list" where
  "render_cpulist [] = [newline]"
| "render_cpulist [it] = render_item it @ [newline]"
| "render_cpulist (it # its) = render_item it @ CHR '','' # render_cpulist its"

primrec item_cpus :: "cpu_item \<Rightarrow> nat set" where
  "item_cpus (Single n) = {n}"
| "item_cpus (Range a b) = {a..b}"

primrec item_small :: "cpu_item \<Rightarrow> bool" where
  "item_small (Single n) \<longleftrightarrow> int n < INT_MAX"
| "item_small (Range a b) \<longleftrightarrow> int a < INT_MAX \<and> int b < INT_MAX"

definition cpus_of :: "cpu_item list \<Rightarrow> nat set" where
  "cpus_of its = (\<Union>it\<in>set its. item_cpus it)"

definition cpuset :: "CpuList \<Rightarrow> nat set" where
  "cpuset list = {i. bit (mask list) i}"

lemma code_digit_char:
  assumes "d < 10"
  shows "code (digit_char d) = int d + 48"
proof -
  have "of_char (digit_char d) = (48 + d) mod 256"
    unfolding digit_char_def by (rule of_char_of)
  with assms have "(of_char (digit_char d) :: nat) = 48 + d" by simp
  then show ?thesis by (metis of_nat_of_char of_nat_add of_nat_numeral add.commute)
qed

lemma digit_value_digit_char: "d < 10 \<Longrightarrow> digit_value (digit_char d) = Some (int d)"
  by (simp add: digit_value_def code_digit_char)

lemma decimal_chars: "c \<in> set (decimal n) \<Longrightarrow> \<exists>d<10. c = digit_char d"
proof (induction n rule: decimal.induct)
  case (1 n)
  have "\<exists>d<10. digit_char (n mod 10) = digit_char d" by (intro exI [of _ "n mod 10"]) simp
  with 1 show ?case
    by (cases "n < 10") (auto simp: decimal.simps [of n])
qed

lemma decimal_not_empty: "decimal n \<noteq> []"
  by (subst decimal.simps) simp

lemma digit_char_is_digit: "d < 10 \<Longrightarrow> is_digit 10 (digit_char d)"
  by (simp add: is_digit_def digit_value_digit_char)

lemma separators_not_digit:
  "\<not> is_digit 10 (CHR ''-'')" "\<not> is_digit 10 (CHR '','')" "\<not> is_digit 10 newline"
  by (simp_all add: is_digit_def digit_value_def newline_def)

lemma decimal_is_digit: "c \<in> set (decimal n) \<Longrightarrow> is_digit 10 c"
  using decimal_chars digit_char_is_digit by blast

lemma comma_not_decimal: "CHR '','' \<notin> set (decimal n)"
  using decimal_is_digit separators_not_digit by blast

lemma parse_digits_digit_char:
  "d < 10 \<Longrightarrow> parse_digits 10 v (digit_char d # ys) = parse_digits 10 (c_int (v * 10 + int d)) ys"
  by (simp add: digit_value_digit_char)

lemma parse_digits_decimal:
  "int n \<le> INT_MAX \<Longrightarrow> parse_digits 10 0 (decimal n @ ys) = parse_digits 10 (int n) ys"
proof (induction n arbitrary: ys rule: decimal.induct)
  case (1 n)
  have c: "c_int (int n) = int n"
    using "1.prems" by (intro c_int_id) (auto simp: INT_MAX_def)
  show ?case
  proof (cases "n < 10")
    case True
    then show ?thesis
      using c by (simp add: decimal.simps [of n] digit_value_digit_char)
  next
    case False
    have "int (n div 10) \<le> INT_MAX" using "1.prems" by linarith
    have lt: "n mod 10 < 10" by simp
    with \<open>int (n div 10) \<le> INT_MAX\<close>
    have "parse_digits 10 0 (decimal (n div 10) @ digit_char (n mod 10) # ys)
        = parse_digits 10 (int (n div 10)) (digit_char (n mod 10) # ys)"
      using "1.IH" [OF False] by blast
    also have "\<dots> = parse_digits 10 (c_int (int (n div 10) * 10 + int (n mod 10))) ys"
      using lt by (rule parse_digits_digit_char)
    also have "int (n div 10) * 10 + int (n mod 10) = int n"
      using div_mult_mod_eq [of n 10] by linarith
    finally show ?thesis using False c by (simp add: decimal.simps [of n])
  qed
qed

lemma parse_decimal_decimal:
  assumes "int n \<le> INT_MAX" and "rest = [] \<or> \<not> is_digit 10 (hd rest)"
  shows "parse_decimal (decimal n @ rest) = Some (int n, rest)"
proof -
  have "parse_digits 10 (int n) rest = (int n, rest)"
    using assms(2) by (cases rest) (auto simp: is_digit_def split: option.splits)
  then show ?thesis
    using assms(1) decimal_not_empty [of n]
    by (simp add: parse_decimal_def parse_number_def parse_digits_decimal)
qed

text \<open>An item of the list, with what follows it up to the end of the item's text.\<close>

lemma cpulist_parse_item_render:
  assumes "item_small it" and "tail = [] \<or> tail = [newline]"
  shows "\<exists>list'. cpulist_parse_item list (render_item it @ tail) = Some (Some list') \<and>
           cpuset list' = cpuset list \<union> {i. i < 32 \<and> i \<in> item_cpus it}"
proof (cases it)
  case (Single n)
  obtain list' where "cpulist_set_range list (int n) (int n) = Some list'"
    "\<forall>i. bit (mask list') i \<longleftrightarrow> bit (mask list) i \<or> (i < 32 \<and> int n \<le> int i \<and> int i \<le> int n)"
    using cpulist_set_range_le [of "int n" "int n" list] assms(1) Single by auto
  moreover have "parse_decimal (decimal n @ tail) = Some (int n, tail)"
    using assms Single separators_not_digit by (intro parse_decimal_decimal) auto
  ultimately show ?thesis
    using Single assms(2) by (auto simp: cpulist_parse_item_def cpuset_def newline_def)
next
  case (Range a b)
  obtain list' where "cpulist_set_range list (int a) (int b) = Some list'"
    "\<forall>i. bit (mask list') i \<longleftrightarrow> bit (mask list) i \<or> (i < 32 \<and> int a \<le> int i \<and> int i \<le> int b)"
    using cpulist_set_range_le [of "int a" "int b" list] assms(1) Range by auto
  moreover have "parse_decimal (decimal b @ tail) = Some (int b, tail)"
    using assms Range separators_not_digit by (intro parse_decimal_decimal) auto
  moreover have "parse_decimal (decimal a @ CHR ''-'' # decimal b @ tail)
      = Some (int a, CHR ''-'' # decimal b @ tail)"
    using assms Range separators_not_digit by (intro parse_decimal_decimal) auto
  ultimately show ?thesis
    using Range by (auto simp: cpulist_parse_item_def cpuset_def)
qed

lemma render_item_no_comma: "CHR '','' \<notin> set (render_item it)"
  by (cases it) (auto simp: comma_not_decimal)

lemma render_item_head:
  "\<exists>c cs. render_item it = c # cs \<and> c \<noteq> newline"
proof -
  have "\<exists>c cs. decimal n = c # cs \<and> c \<noteq> newline" for n
    using decimal_not_empty [of n] decimal_is_digit [of newline n] separators_not_digit(3)
    by (cases "decimal n") auto
  then show ?thesis by (metis append_Cons cpu_item.exhaust render_item.simps)
qed

lemma cpulist_parse_step:
  assumes "line \<noteq> []" "hd line \<noteq> newline"
    and "q = (case memchr (CHR '','') line of None \<Rightarrow> length line | Some i \<Rightarrow> i)"
    and "cpulist_parse_item list (take q line) = Some (Some list')"
  shows "cpulist_parse list line = cpulist_parse list' (drop (Suc q) line)"
  using assms by (subst cpulist_parse.simps) simp

lemma cpulist_parse_Nil: "cpulist_parse list [] = Some list"
  by (subst cpulist_parse.simps) simp

lemma cpulist_parse_newline: "cpulist_parse list [newline] = Some list"
  by (subst cpulist_parse.simps) simp

lemma cpulist_parse_render:
  assumes "\<forall>it\<in>set its. item_small it"
  shows "\<exists>list'. cpulist_parse list (render_cpulist its) = Some list' \<and>
           cpuset list' = cpuset list \<union> {i \<in> cpus_of its. i < 32}"
  using assms
proof (induction its arbitrary: list rule: render_cpulist.induct)
  case 1
  then show ?case by (simp add: cpulist_parse_newline cpus_of_def)
next
  case (2 it)
  let ?line = "render_item it @ [newline]"
  obtain list' where list': "cpulist_parse_item list ?line = Some (Some list')"
    "cpuset list' = cpuset list \<union> {i. i < 32 \<and> i \<in> item_cpus it}"
    using cpulist_parse_item_render [of it "[newline]" list] 2 by auto
  have "memchr (CHR '','') ?line = None"
    using render_item_no_comma by (simp add: newline_def)
  then have q: "length ?line = (case memchr (CHR '','') ?line of None \<Rightarrow> length ?line | Some i \<Rightarrow> i)"
    by (simp only: option.case)
  have "cpulist_parse list ?line = cpulist_parse list' (drop (Suc (length ?line)) ?line)"
    using render_item_head [of it] list'(1) by (intro cpulist_parse_step [OF _ _ q]) auto
  with list'(2) show ?case by (auto simp: cpulist_parse_Nil cpus_of_def)
next
  case (3 it it2 its)
  let ?rest = "render_cpulist (it2 # its)"
  let ?line = "render_item it @ CHR '','' # ?rest"
  obtain list' where list': "cpulist_parse_item list (render_item it) = Some (Some list')"
    "cpuset list' = cpuset list \<union> {i. i < 32 \<and> i \<in> item_cpus it}"
    using cpulist_parse_item_render [of it "[]" list] 3 by auto
  have "memchr (CHR '','') ?line = Some (length (render_item it))"
    by (rule memchr_append_first [OF render_item_no_comma])
  then have q: "length (render_item it) =
      (case memchr (CHR '','') ?line of None \<Rightarrow> length ?line | Some i \<Rightarrow> i)"
    by (simp only: option.case)
  have "cpulist_parse list ?line = cpulist_parse list' (drop (Suc (length (render_item it))) ?line)"
    using render_item_head [of it] list'(1) by (intro cpulist_parse_step [OF _ _ q]) auto
  moreover obtain list'' where "cpulist_parse list' ?rest = Some list''"
    "cpuset list'' = cpuset list' \<union> {i \<in> cpus_of (it2 # its). i < 32}"
    using "3.IH" [of list'] "3.prems" by auto
  ultimately show ?case
    using list'(2) by (auto simp: cpus_of_def)
qed

text \<open>
  C2.  Round trip: a list printed in the kernel's format, with numbers below the largest
  \<open>int\<close>, is parsed to exactly its CPUs below 32, added to what the mask held; the parser
  always returns on such a line.
\<close>

theorem cpulist_parse_roundtrip:
  assumes "\<forall>it\<in>set its. item_small it"
  shows "\<exists>list. cpulist_parse cpulist_init (render_cpulist its) = Some list \<and>
           cpuset list = {i \<in> cpus_of its. i < 32}"
  using cpulist_parse_render [OF assms, of cpulist_init]
  by (simp add: cpuset_def cpulist_init_def)

theorem cpulist_parse_roundtrip_witness:
  "item_small (Range 0 3) \<and> item_small (Single 6) \<and>
   (\<exists>list. cpulist_parse cpulist_init (render_cpulist [Range 0 3, Single 6]) = Some list \<and>
      cpuset list = {0, 1, 2, 3, 6})"
proof -
  have small: "\<forall>it\<in>set [Range 0 3, Single 6]. item_small it" by (simp add: INT_MAX_def)
  moreover have "{i \<in> cpus_of [Range 0 3, Single 6]. i < 32} = {0, 1, 2, 3, 6}"
    by (auto simp: cpus_of_def)
  ultimately show ?thesis using cpulist_parse_roundtrip [OF small] by simp
qed



section \<open>Properties of the read loops\<close>

text \<open>
  A descriptor that only delays the reader: it may interrupt a call and may split the
  content at will, but it reports no error and no early end.
\<close>

primrec event_bytes :: "read_event \<Rightarrow> char list" where
  "event_bytes Interrupted = []"
| "event_bytes ReadError = []"
| "event_bytes (Bytes bs) = bs"

definition fd_content :: "read_event list \<Rightarrow> char list" where
  "fd_content es = concat (map event_bytes es)"

definition fd_readable :: "read_event list \<Rightarrow> bool" where
  "fd_readable es \<longleftrightarrow> ReadError \<notin> set es \<and> Bytes [] \<notin> set es"

lemma sys_read_readable:
  assumes "sys_read n es = (r, es')" "fd_readable es" "0 < n"
  shows "fd_readable es' \<and>
    (r = EINTR \<and> fd_content es = fd_content es' \<or>
     (\<exists>bs. r = Got bs \<and> length bs \<le> n \<and> fd_content es = bs @ fd_content es' \<and>
        (bs = [] \<longrightarrow> es = [])))"
  using assms
  by (induction n es rule: sys_read.induct)
    (auto simp: fd_readable_def fd_content_def split: if_splits)

lemma read_file_loop_content:
  assumes "fd_readable es" "int buffsize \<le> INT_MAX" "length buffer \<le> buffsize"
  shows "read_file_loop buffsize buffer es =
     (int (length (take buffsize (buffer @ fd_content es))), take buffsize (buffer @ fd_content es))"
  using assms
proof (induction buffsize buffer es rule: read_file_loop.induct)
  case (1 buffsize buffer es)
  have cb: "c_int (int buffsize) = int buffsize"
    using "1.prems" by (intro c_int_id) auto
  show ?case
  proof (cases "length buffer < buffsize")
    case False
    then show ?thesis using "1.prems"(3) cb by (subst read_file_loop.simps) simp
  next
    case True
    then have room: "0 < buffsize - length buffer" by simp
    obtain r es' where rd: "sys_read (buffsize - length buffer) es = (r, es')" by fastforce
    note inv = sys_read_readable [OF rd "1.prems"(1) room]
    from inv consider "r = EINTR" "fd_content es = fd_content es'"
      | "r = Got []" "es = []"
      | bs where "r = Got bs" "bs \<noteq> []" "length bs \<le> buffsize - length buffer"
          "fd_content es = bs @ fd_content es'" by auto
    then show ?thesis
    proof cases
      case 1
      with "1.IH"(1) [OF _ rd [symmetric]] True cb rd inv "1.prems"
      show ?thesis by (subst read_file_loop.simps) simp
    next
      case 2
      with True cb rd show ?thesis
        by (subst read_file_loop.simps) (simp add: fd_content_def)
    next
      case (3 bs)
      with "1.IH"(2) [OF _ rd [symmetric], of bs] True cb rd inv "1.prems"
      show ?thesis by (subst read_file_loop.simps) simp
    qed
  qed
qed

lemma read_file_content:
  assumes "fs path = Some es" "fd_readable es" "int buffsize \<le> INT_MAX"
  shows "read_file fs path buffsize =
     (int (length (take buffsize (fd_content es))), take buffsize (fd_content es))"
  using assms read_file_loop_content [of es buffsize "[]"] by (simp add: read_file_def)

lemma file_size_loop_content:
  "fd_readable es \<Longrightarrow> c_int (file_size_loop r es) = c_int (r + int (length (fd_content es)))"
proof (induction r es rule: file_size_loop.induct)
  case (1 result es)
  obtain r es' where rd: "sys_read 256 es = (r, es')" by fastforce
  have inv: "fd_readable es' \<and>
    (r = EINTR \<and> fd_content es = fd_content es' \<or>
     (\<exists>bs. r = Got bs \<and> length bs \<le> 256 \<and> fd_content es = bs @ fd_content es' \<and>
        (bs = [] \<longrightarrow> es = [])))"
    by (rule sys_read_readable [OF rd "1.prems"]) simp
  then consider "r = EINTR" "fd_content es = fd_content es'"
    | "r = Got []" "es = []"
    | bs where "r = Got bs" "bs \<noteq> []" "fd_content es = bs @ fd_content es'" by auto
  then show ?case
  proof cases
    case 1
    with "1.IH"(1) [OF rd [symmetric]] rd inv show ?thesis
      by (subst file_size_loop.simps) simp
  next
    case 2
    with rd show ?thesis by (subst file_size_loop.simps) (simp add: fd_content_def)
  next
    case (3 bs)
    have "c_int (c_int (result + int (length bs)) + int (length (fd_content es')))
        = c_int (result + int (length (fd_content es)))"
      using 3 c_int_step [of "result + int (length bs)" 1] by (simp add: add.assoc)
    with 3 "1.IH"(2) [OF rd [symmetric], of bs] rd inv show ?thesis
      by (subst file_size_loop.simps) (simp add: add.assoc)
  qed
qed

lemma file_size_loop_range:
  "- 2147483648 \<le> r \<Longrightarrow> r \<le> INT_MAX \<Longrightarrow>
     - 2147483648 \<le> file_size_loop r es \<and> file_size_loop r es \<le> INT_MAX"
proof (induction r es rule: file_size_loop.induct)
  case (1 result es)
  then show ?case
    using c_int_bounds
    by (subst (1 2) file_size_loop.simps) (auto split: prod.split read_result.split)
qed

lemma get_file_size_content:
  assumes "fs path = Some es" "fd_readable es" "int (length (fd_content es)) \<le> INT_MAX"
  shows "get_file_size fs path = int (length (fd_content es))"
proof -
  have "c_int (file_size_loop 0 es) = int (length (fd_content es))"
    using file_size_loop_content [OF assms(2), of 0] assms(3) by (simp add: c_int_id)
  moreover have "c_int (file_size_loop 0 es) = file_size_loop 0 es"
    using file_size_loop_range [of 0 es] by (intro c_int_id) (auto simp: INT_MAX_def)
  ultimately show ?thesis using assms(1) by (simp add: get_file_size_def)
qed

text \<open>
  C17.  However the kernel interrupts and splits the reads, \<open>get_file_size\<close> returns the
  length of the file and \<open>read_file\<close> with a buffer of that size returns its content.
\<close>

theorem read_whole_file:
  assumes "fs path = Some es" "fd_readable es" "int (length (fd_content es)) \<le> INT_MAX"
  shows "get_file_size fs path = int (length (fd_content es)) \<and>
    read_file fs path (nat (get_file_size fs path)) =
      (int (length (fd_content es)), fd_content es)"
  using get_file_size_content [of fs path es] read_file_content [of fs path es] assms by simp

theorem read_whole_file_witness:
  "get_file_size [''/proc/cpuinfo'' \<mapsto> [Bytes ''ab'', Interrupted, Bytes ''c'']] ''/proc/cpuinfo'' = 3 \<and>
   read_file [''/proc/cpuinfo'' \<mapsto> [Bytes ''ab'', Interrupted, Bytes ''c'']] ''/proc/cpuinfo'' 3
     = (3, ''abc'')"
proof -
  let ?es = "[Bytes ''ab'', Interrupted, Bytes ''c'']"
  let ?fs = "[''/proc/cpuinfo'' \<mapsto> ?es]"
  have "fd_readable ?es" "fd_content ?es = ''abc''"
    by (simp_all add: fd_readable_def fd_content_def)
  then show ?thesis
    using read_whole_file [of ?fs "''/proc/cpuinfo''" ?es] by (auto simp: INT_MAX_def)
qed

lemma cpulist_read_from_render:
  assumes "fs path = Some es" "fd_readable es" "fd_content es = render_cpulist its"
    and "length (render_cpulist its) \<le> 64" "\<forall>it\<in>set its. item_small it"
  shows "\<exists>list. cpulist_read_from fs path = Some list \<and> cpuset list = {i \<in> cpus_of its. i < 32}"
proof -
  have "read_file fs path 64 = (int (length (render_cpulist its)), render_cpulist its)"
    using read_file_content [of fs path es 64] assms by (simp add: INT_MAX_def)
  then show ?thesis
    using cpulist_parse_render [OF assms(5), of cpulist_init]
    by (simp add: cpulist_read_from_def cpuset_def cpulist_init_def)
qed

lemma cpulist_count_and:
  "cpulist_count (cpulist_and a b) = int (card (cpuset a \<inter> cpuset b))"
proof -
  have "{i. bit (mask a AND mask b) i} = cpuset a \<inter> cpuset b"
    by (auto simp: cpuset_def bit_and_iff)
  then show ?thesis by (simp add: cpulist_count_def cpulist_and_def popcount_card)
qed

text \<open>
  C16.  \<open>get_cpu_count\<close> counts the CPUs below 32 that are both present and possible, when
  the two sysfs files hold lists in the kernel's format of at most 64 bytes.
\<close>

theorem get_cpu_count_intersection:
  assumes "fs ''/sys/devices/system/cpu/present'' = Some es1" "fd_readable es1"
    and "fs ''/sys/devices/system/cpu/possible'' = Some es2" "fd_readable es2"
    and "fd_content es1 = render_cpulist present" "length (render_cpulist present) \<le> 64"
    and "fd_content es2 = render_cpulist possible" "length (render_cpulist possible) \<le> 64"
    and "\<forall>it\<in>set present. item_small it" "\<forall>it\<in>set possible. item_small it"
  shows "get_cpu_count fs = Some (int (card {i \<in> cpus_of present \<inter> cpus_of possible. i < 32}))"
proof -
  obtain l1 where l1: "cpulist_read_from fs ''/sys/devices/system/cpu/present'' = Some l1"
    "cpuset l1 = {i \<in> cpus_of present. i < 32}"
    using cpulist_read_from_render [of fs _ es1 present] assms by blast
  obtain l2 where l2: "cpulist_read_from fs ''/sys/devices/system/cpu/possible'' = Some l2"
    "cpuset l2 = {i \<in> cpus_of possible. i < 32}"
    using cpulist_read_from_render [of fs _ es2 possible] assms by blast
  have "cpuset l1 \<inter> cpuset l2 = {i \<in> cpus_of present \<inter> cpus_of possible. i < 32}"
    using l1(2) l2(2) by auto
  with l1(1) l2(1) show ?thesis by (simp add: get_cpu_count_def cpulist_count_and)
qed

theorem get_cpu_count_intersection_witness:
  "get_cpu_count
     [''/sys/devices/system/cpu/present'' \<mapsto> [Bytes ''0-3'', Interrupted, Bytes [newline]],
      ''/sys/devices/system/cpu/possible'' \<mapsto> [Bytes ''2-9'', Bytes [newline]]] = Some 2"
proof -
  let ?e1 = "[Bytes ''0-3'', Interrupted, Bytes [newline]]"
  let ?e2 = "[Bytes ''2-9'', Bytes [newline]]"
  let ?fs = "[''/sys/devices/system/cpu/present'' \<mapsto> ?e1, ''/sys/devices/system/cpu/possible'' \<mapsto> ?e2]"
  have r: "render_cpulist [Range 0 3] = ''0-3'' @ [newline]"
    "render_cpulist [Range 2 9] = ''2-9'' @ [newline]"
    by code_simp+
  have len: "length (render_cpulist [Range 0 3]) \<le> 64" "length (render_cpulist [Range 2 9]) \<le> 64"
    unfolding r by simp_all
  have "{i \<in> cpus_of [Range 0 3] \<inter> cpus_of [Range 2 9]. i < 32} = {2, 3}"
    by (auto simp: cpus_of_def)
  then show ?thesis
    using get_cpu_count_intersection [of ?fs ?e1 ?e2 "[Range 0 3]" "[Range 2 9]"] len
    by (simp add: fd_readable_def fd_content_def INT_MAX_def r del: render_cpulist.simps)
qed

end
