(* ===== verification/CpuInfo.thy ===== *)
theory CpuInfo
  imports CpuList
begin

text \<open>
  The text of \<open>/proc/cpuinfo\<close> and the sources of the ELF hardware capabilities in
  \<open>sources/android/cpufeatures/cpu-features.c\<close>: the field and list-item searches, and
  the three ways to obtain \<open>AT_HWCAP\<close> on ARM (\<open>getauxval\<close>, \<open>/proc/self/auxv\<close>, and
  the \<open>Features\<close> line).  The C library's \<open>strtol\<close> is modelled for base 10 with the
  32-bit \<open>long\<close> of ARM.
\<close>


section \<open>Fields of the file\<close>

text \<open>
  The search loop: the next occurrence of the field from index \<open>p\<close> on that starts a
  line.  An empty field is found at index 0 in the first round, so the branch for it
  after a failed line test is never taken; it stands for the termination proof.
\<close>

function find_field :: "char list \<Rightarrow> char list \<Rightarrow> nat \<Rightarrow> nat option" where
  "find_field field buffer p =
     (case memmem (drop p buffer) field of
        None \<Rightarrow> None
      | Some k \<Rightarrow>
          if p + k = 0 \<or> buffer ! (p + k - 1) = newline then Some (p + k)
          else if field = [] then None
          else find_field field buffer (p + k + length field))"
  by pat_completeness auto
termination
  by (relation "measure (\<lambda>(field, buffer, p). length buffer - p)")
    (auto dest!: memmem_Some_bound simp flip: length_greater_0_conv)

declare find_field.simps [simp del]

text \<open>
  \<open>malloc_ok n\<close> says whether the allocation of \<open>n\<close> bytes succeeds.  Reading \<open>p[1]\<close>
  when the colon is the last byte of the buffer reads outside it.  The copied line is a
  C string, so its readers see it up to a NUL byte.
\<close>

definition extract_cpuinfo_field ::
    "(nat \<Rightarrow> bool) \<Rightarrow> char list \<Rightarrow> char list \<Rightarrow> char list option c_result" where
  "extract_cpuinfo_field malloc_ok buffer field =
     (case find_field field buffer 0 of
        None \<Rightarrow> Inr None
      | Some p \<Rightarrow>
          (let p1 = p + length field in
           case memchr (CHR '':'') (drop p1 buffer) of
             None \<Rightarrow> Inr None
           | Some k \<Rightarrow>
               (let p2 = p1 + k in
                if length buffer \<le> p2 + 1 then Inl OutOfBounds
                else if buffer ! (p2 + 1) \<noteq> CHR '' '' then Inr None
                else
                  let rest = drop (p2 + 2) buffer;
                      q = (case memchr newline rest of None \<Rightarrow> length rest | Some i \<Rightarrow> i)
                  in if malloc_ok (q + 1) then Inr (Some (c_string (take q rest)))
                     else Inr None)))"

definition is_blank :: "char \<Rightarrow> bool" where
  "is_blank c \<longleftrightarrow> c = CHR '' '' \<or> c = tab"

lemma length_dropWhile_less: "xs \<noteq> [] \<Longrightarrow> P (hd xs) \<Longrightarrow> length (dropWhile P xs) < length xs"
  by (cases xs) (auto simp: le_imp_less_Suc length_dropWhile_le)

lemma list_item_decreases:
  "p \<noteq> [] \<Longrightarrow> length (dropWhile (\<lambda>c. \<not> is_blank c) (dropWhile is_blank p)) < length p"
  using length_dropWhile_less [of p is_blank] length_dropWhile_less [of p "\<lambda>c. \<not> is_blank c"]
    length_dropWhile_le [of "\<lambda>c. \<not> is_blank c" "dropWhile is_blank p"]
  by (cases p) (auto split: if_splits)

function list_item_loop :: "char list \<Rightarrow> char list \<Rightarrow> bool" where
  "list_item_loop item p =
     (if p = [] then False
      else
        let p1 = dropWhile is_blank p;
            word = takeWhile (\<lambda>c. \<not> is_blank c) p1;
            q = dropWhile (\<lambda>c. \<not> is_blank c) p1
        in if length item = length word \<and> word = item then True
           else list_item_loop item q)"
  by pat_completeness auto
termination
  by (relation "measure (\<lambda>(item, p). length p)") (auto simp: list_item_decreases)

declare list_item_loop.simps [simp del]

definition has_list_item :: "char list option \<Rightarrow> char list \<Rightarrow> bool" where
  "has_list_item list item =
     (case list of None \<Rightarrow> False | Some p \<Rightarrow> list_item_loop item p)"


section \<open>Hardware capability flags\<close>

definition HWCAP_FP :: u32 where "HWCAP_FP = flag 0"
definition HWCAP_ASIMD :: u32 where "HWCAP_ASIMD = flag 1"
definition HWCAP_AES :: u32 where "HWCAP_AES = flag 3"
definition HWCAP_PMULL :: u32 where "HWCAP_PMULL = flag 4"
definition HWCAP_SHA1 :: u32 where "HWCAP_SHA1 = flag 5"
definition HWCAP_SHA2 :: u32 where "HWCAP_SHA2 = flag 6"
definition HWCAP_CRC32 :: u32 where "HWCAP_CRC32 = flag 7"

definition HWCAP_VFP :: u32 where "HWCAP_VFP = flag 6"
definition HWCAP_IWMMXT :: u32 where "HWCAP_IWMMXT = flag 9"
definition HWCAP_NEON :: u32 where "HWCAP_NEON = flag 12"
definition HWCAP_VFPv3 :: u32 where "HWCAP_VFPv3 = flag 13"
definition HWCAP_VFPv3D16 :: u32 where "HWCAP_VFPv3D16 = flag 14"
definition HWCAP_VFPv4 :: u32 where "HWCAP_VFPv4 = flag 16"
definition HWCAP_IDIVA :: u32 where "HWCAP_IDIVA = flag 17"
definition HWCAP_IDIVT :: u32 where "HWCAP_IDIVT = flag 18"

definition HWCAP2_AES :: u32 where "HWCAP2_AES = flag 0"
definition HWCAP2_PMULL :: u32 where "HWCAP2_PMULL = flag 1"
definition HWCAP2_SHA1 :: u32 where "HWCAP2_SHA1 = flag 2"
definition HWCAP2_SHA2 :: u32 where "HWCAP2_SHA2 = flag 3"
definition HWCAP2_CRC32 :: u32 where "HWCAP2_CRC32 = flag 4"

definition HWCAP_MIPS_R6 :: u32 where "HWCAP_MIPS_R6 = flag 0"
definition HWCAP_MIPS_MSA :: u32 where "HWCAP_MIPS_MSA = flag 1"

definition HWCAP_SET_FOR_ARMV8 :: u32 where
  "HWCAP_SET_FOR_ARMV8 =
     HWCAP_VFP OR HWCAP_NEON OR HWCAP_VFPv3 OR HWCAP_VFPv4 OR HWCAP_IDIVA OR HWCAP_IDIVT"

lemmas hwcap_defs =
  HWCAP_FP_def HWCAP_ASIMD_def HWCAP_AES_def HWCAP_PMULL_def HWCAP_SHA1_def HWCAP_SHA2_def
  HWCAP_CRC32_def HWCAP_VFP_def HWCAP_IWMMXT_def HWCAP_NEON_def HWCAP_VFPv3_def
  HWCAP_VFPv3D16_def HWCAP_VFPv4_def HWCAP_IDIVA_def HWCAP_IDIVT_def HWCAP2_AES_def
  HWCAP2_PMULL_def HWCAP2_SHA1_def HWCAP2_SHA2_def HWCAP2_CRC32_def HWCAP_MIPS_R6_def
  HWCAP_MIPS_MSA_def HWCAP_SET_FOR_ARMV8_def

definition AT_HWCAP :: u32 where "AT_HWCAP = 16"
definition AT_HWCAP2 :: u32 where "AT_HWCAP2 = 26"

text \<open>
  The dynamic linker's answers: \<open>dlopen\<close> of the C library fails, the library has no
  \<open>getauxval\<close>, or it has one; its \<open>unsigned long\<close> result is cut to 32 bits.
\<close>

datatype libc_handle = NoLibc | NoGetauxval | Getauxval "u32 \<Rightarrow> u64"

fun get_elf_hwcap_from_getauxval :: "libc_handle \<Rightarrow> u32 \<Rightarrow> u32" where
  "get_elf_hwcap_from_getauxval NoLibc hwcap_type = 0"
| "get_elf_hwcap_from_getauxval NoGetauxval hwcap_type = 0"
| "get_elf_hwcap_from_getauxval (Getauxval func) hwcap_type = ucast (func hwcap_type)"


section \<open>The auxiliary vector\<close>

text \<open>
  \<open>entry\<close> is the 8-byte structure on the stack: a byte is \<open>None\<close> until a \<open>read\<close> has
  written it.  A short read leaves the other bytes as they were.
\<close>

definition byte_word :: "char \<Rightarrow> u32" where
  "byte_word c = of_nat (of_char c)"

definition u32_bytes :: "char list \<Rightarrow> u32" where
  "u32_bytes bs = byte_word (bs ! 0) OR push_bit 8 (byte_word (bs ! 1))
     OR push_bit 16 (byte_word (bs ! 2)) OR push_bit 24 (byte_word (bs ! 3))"

definition entry_field :: "char option list \<Rightarrow> nat \<Rightarrow> u32 option" where
  "entry_field entry off =
     (let bs = take 4 (drop off entry) in
      if None \<in> set bs then None else Some (u32_bytes (map the bs)))"

function auxv_loop :: "char option list \<Rightarrow> read_event list \<Rightarrow> u32 c_result" where
  "auxv_loop entry es =
     (case sys_read 8 es of
        (EINTR, es') \<Rightarrow> auxv_loop entry es'
      | (EOther, es') \<Rightarrow> Inr 0
      | (Got bs, es') \<Rightarrow>
          if bs = [] then Inr 0
          else
            let entry' = map Some bs @ drop (length bs) entry in
            (case entry_field entry' 0 of
               None \<Rightarrow> Inl Uninitialised
             | Some tag \<Rightarrow>
                 if tag = 0 then
                   (case entry_field entry' 4 of
                      None \<Rightarrow> Inl Uninitialised
                    | Some val \<Rightarrow> if val = 0 then Inr 0 else auxv_loop entry' es')
                 else if tag = AT_HWCAP then
                   (case entry_field entry' 4 of
                      None \<Rightarrow> Inl Uninitialised
                    | Some val \<Rightarrow> Inr val)
                 else auxv_loop entry' es'))"
  by pat_completeness auto
termination
  by (relation "measure (\<lambda>(entry, es). fd_weight es)")
    (auto dest!: sym [of "(_, _)"] sys_read_decreases)

declare auxv_loop.simps [simp del]

definition get_elf_hwcap_from_proc_self_auxv :: "file_system \<Rightarrow> u32 c_result" where
  "get_elf_hwcap_from_proc_self_auxv fs =
     (case fs ''/proc/self/auxv'' of
        None \<Rightarrow> Inr 0
      | Some es \<Rightarrow> auxv_loop (replicate 8 None) es)"


section \<open>Capabilities from the text\<close>

text \<open>
  \<open>strtol\<close> in base 10: white space, a sign, digits; the value saturates at the limits of
  a 32-bit \<open>long\<close>.  The second component is the number of characters consumed, 0 when
  there is no digit.
\<close>

definition is_space :: "char \<Rightarrow> bool" where
  "is_space c \<longleftrightarrow> c = CHR '' '' \<or> 9 \<le> code c \<and> code c \<le> 13"

definition clamp_long :: "int \<Rightarrow> int" where
  "clamp_long v = max (- 2147483648) (min INT_MAX v)"

definition strtol10 :: "char list \<Rightarrow> int \<times> nat" where
  "strtol10 s =
     (let s1 = dropWhile is_space s;
          neg = (case s1 of c # _ \<Rightarrow> c = CHR ''-'' | [] \<Rightarrow> False);
          s2 = (case s1 of c # r \<Rightarrow> if c = CHR ''-'' \<or> c = CHR ''+'' then r else s1 | [] \<Rightarrow> []);
          ds = takeWhile (is_digit 10) s2;
          v = number_value 10 0 ds
      in if ds = [] then (0, 0)
         else (clamp_long (if neg then - v else v),
               length s - length s2 + length ds))"

definition or_if :: "bool \<Rightarrow> 'a::len word \<Rightarrow> 'a word \<Rightarrow> 'a word" where
  "or_if b f w = (if b then w OR f else w)"

definition features_hwcaps :: "char list \<Rightarrow> u32" where
  "features_hwcaps cpuFeatures =
     (let has = (\<lambda>item. has_list_item (Some cpuFeatures) item) in
      or_if (has ''iwmmxt'') HWCAP_IWMMXT
      (or_if (has ''idiv'') (HWCAP_IDIVA OR HWCAP_IDIVT)
      (or_if (has ''idivt'') HWCAP_IDIVT
      (or_if (has ''idiva'') HWCAP_IDIVA
      (or_if (has ''neon'') HWCAP_NEON
      (or_if (has ''vfpv4'') HWCAP_VFPv4
      (or_if (has ''vfpv3d16'') HWCAP_VFPv3D16
      (or_if (has ''vfpv3'') HWCAP_VFPv3
      (or_if (has ''vfp'') HWCAP_VFP 0)))))))))"

definition get_elf_hwcap_from_proc_cpuinfo ::
    "(nat \<Rightarrow> bool) \<Rightarrow> char list \<Rightarrow> u32 c_result" where
  "get_elf_hwcap_from_proc_cpuinfo malloc_ok cpuinfo =
     (case extract_cpuinfo_field malloc_ok cpuinfo ''CPU architecture'' of
        Inl e \<Rightarrow> Inl e
      | Inr cpuArch \<Rightarrow>
          if (case cpuArch of None \<Rightarrow> False | Some a \<Rightarrow> 8 \<le> fst (strtol10 a))
          then Inr HWCAP_SET_FOR_ARMV8
          else
            (case extract_cpuinfo_field malloc_ok cpuinfo ''Features'' of
               Inl e \<Rightarrow> Inl e
             | Inr None \<Rightarrow> Inr 0
             | Inr (Some cpuFeatures) \<Rightarrow> Inr (features_hwcaps cpuFeatures)))"


section \<open>Properties of the list-item search\<close>

text \<open>
  A word of a blank-separated list: a maximal blank-free stretch of the text.
\<close>

definition word_in :: "char list \<Rightarrow> char list \<Rightarrow> bool" where
  "word_in item s \<longleftrightarrow>
     (\<forall>c\<in>set item. \<not> is_blank c) \<and>
     (\<exists>a b. s = a @ item @ b \<and> (a = [] \<or> is_blank (last a)) \<and> (b = [] \<or> is_blank (hd b)))"

lemma word_in_Nil: "word_in item [] \<longleftrightarrow> item = []"
  by (auto simp: word_in_def)

lemma word_in_blank:
  assumes "item \<noteq> []" "is_blank c"
  shows "word_in item (c # s) \<longleftrightarrow> word_in item s"
proof
  assume "word_in item (c # s)"
  then obtain a b where ab: "\<forall>d\<in>set item. \<not> is_blank d" "c # s = a @ item @ b"
    "a = [] \<or> is_blank (last a)" "b = [] \<or> is_blank (hd b)" by (auto simp: word_in_def)
  then obtain a' where "a = c # a'" using assms by (cases a; cases item) auto
  with ab have "s = a' @ item @ b" "a' = [] \<or> is_blank (last a')" by (auto split: if_splits)
  with ab show "word_in item s" unfolding word_in_def by blast
next
  assume "word_in item s"
  then obtain a b where ab: "\<forall>d\<in>set item. \<not> is_blank d" "s = a @ item @ b"
    "a = [] \<or> is_blank (last a)" "b = [] \<or> is_blank (hd b)" by (auto simp: word_in_def)
  then have "c # s = (c # a) @ item @ b" "is_blank (last (c # a))" using assms by auto
  with ab show "word_in item (c # s)" unfolding word_in_def by blast
qed

lemma word_in_dropWhile: "item \<noteq> [] \<Longrightarrow> word_in item (dropWhile is_blank s) \<longleftrightarrow> word_in item s"
  by (induction s) (auto simp: word_in_blank)

text \<open>After a word \<open>w\<close> that fills the text up to a blank, the others come from the rest.\<close>

lemma word_in_step:
  assumes "item \<noteq> []" "w \<noteq> []" "\<forall>c\<in>set w. \<not> is_blank c" "r = [] \<or> is_blank (hd r)"
  shows "word_in item (w @ r) \<longleftrightarrow> item = w \<or> word_in item r"
proof
  assume "word_in item (w @ r)"
  then obtain a b where ab: "\<forall>d\<in>set item. \<not> is_blank d" "w @ r = a @ item @ b"
    "a = [] \<or> is_blank (last a)" "b = [] \<or> is_blank (hd b)" by (auto simp: word_in_def)
  show "item = w \<or> word_in item r"
  proof (cases "a = []")
    case True
    with ab(2) obtain us where "w = item @ us \<and> us @ r = b \<or> w @ us = item \<and> r = us @ b"
      by (auto simp: append_eq_append_conv2)
    then show ?thesis
    proof
      assume u: "w = item @ us \<and> us @ r = b"
      with ab(4) assms(3) have "us = []" by (cases us) auto
      with u show ?thesis by simp
    next
      assume u: "w @ us = item \<and> r = us @ b"
      with ab(1) assms(4) have "us = []" by (cases us) auto
      with u show ?thesis by simp
    qed
  next
    case False
    with ab(3) have bl: "is_blank (last a)" by simp
    from ab(2) obtain us where "w = a @ us \<and> us @ r = item @ b \<or> w @ us = a \<and> r = us @ item @ b"
      by (auto simp: append_eq_append_conv2)
    moreover have "\<not> (w = a @ us \<and> us @ r = item @ b)"
      using bl False assms(3) last_in_set [of a] by auto
    ultimately have u: "w @ us = a" "r = us @ item @ b" by auto
    then have "us = [] \<or> is_blank (last us)" using bl by (metis last_appendR)
    with u ab have "word_in item r" unfolding word_in_def by blast
    then show ?thesis ..
  qed
next
  assume R: "item = w \<or> word_in item r"
  then show "word_in item (w @ r)"
  proof
    assume "item = w"
    then have "w @ r = [] @ item @ r" by simp
    with assms \<open>item = w\<close> show ?thesis unfolding word_in_def by blast
  next
    assume "word_in item r"
    then obtain a b where ab: "\<forall>d\<in>set item. \<not> is_blank d" "r = a @ item @ b"
      "a = [] \<or> is_blank (last a)" "b = [] \<or> is_blank (hd b)" by (auto simp: word_in_def)
    have "a \<noteq> []" using ab(1,2) assms(1,4) by (cases item) auto
    then have "w @ r = (w @ a) @ item @ b" "is_blank (last (w @ a))" using ab by auto
    with ab show ?thesis unfolding word_in_def by blast
  qed
qed

lemma list_item_loop_word:
  "item \<noteq> [] \<Longrightarrow> list_item_loop item p \<longleftrightarrow> word_in item p"
proof (induction item p rule: list_item_loop.induct)
  case (1 item p)
  let ?p1 = "dropWhile is_blank p"
  let ?w = "takeWhile (\<lambda>c. \<not> is_blank c) ?p1"
  let ?r = "dropWhile (\<lambda>c. \<not> is_blank c) ?p1"
  have split: "?p1 = ?w @ ?r" by simp
  have r: "?r = [] \<or> is_blank (hd ?r)" using hd_dropWhile [of "\<lambda>c. \<not> is_blank c" ?p1] by auto
  show ?case
  proof (cases "p = []")
    case True
    then show ?thesis using "1.prems" by (subst list_item_loop.simps) (simp add: word_in_Nil)
  next
    case False
    have loop: "list_item_loop item p \<longleftrightarrow> item = ?w \<or> list_item_loop item ?r"
      using False by (subst list_item_loop.simps) (auto simp: Let_def)
    have IH: "item \<noteq> ?w \<Longrightarrow> list_item_loop item ?r \<longleftrightarrow> word_in item ?r"
      using "1.IH" [OF False refl refl refl] "1.prems" by auto
    have "word_in item ?p1 \<longleftrightarrow> item = ?w \<or> word_in item ?r"
    proof (cases "?w = []")
      case True
      then show ?thesis using split "1.prems" by (metis self_append_conv2)
    next
      case False
      then show ?thesis
        using word_in_step [OF "1.prems" False _ r] split set_takeWhileD
        by (metis (mono_tags, lifting))
    qed
    with loop IH show ?thesis using word_in_dropWhile [OF "1.prems"] by blast
  qed
qed

text \<open>
  C22.  \<open>has_list_item\<close> answers whether the item is a whole word of the blank-separated
  list, never a part of one (so \<open>vfpv3d16\<close> does not count as \<open>vfpv3\<close>).
\<close>

theorem has_list_item_word:
  assumes "item \<noteq> []"
  shows "has_list_item (Some s) item \<longleftrightarrow> word_in item s"
  using list_item_loop_word [OF assms] by (simp add: has_list_item_def)

theorem has_list_item_word_witness:
  "has_list_item (Some ''swp vfpv3d16'') ''vfpv3d16'' \<and> word_in ''vfpv3d16'' ''swp vfpv3d16''
   \<and> \<not> has_list_item (Some ''swp vfpv3d16'') ''vfpv3''"
proof -
  have "has_list_item (Some ''swp vfpv3d16'') ''vfpv3d16''"
    "\<not> has_list_item (Some ''swp vfpv3d16'') ''vfpv3''"
    by (simp_all add: has_list_item_def list_item_loop.simps is_blank_def tab_def)
  then show ?thesis
    using has_list_item_word [of "''vfpv3d16''" "''swp vfpv3d16''"] by simp
qed


section \<open>Properties of the field search\<close>

definition field_at :: "char list \<Rightarrow> char list \<Rightarrow> nat \<Rightarrow> bool" where
  "field_at buffer field i \<longleftrightarrow>
     starts_with (drop i buffer) field \<and> (i = 0 \<or> buffer ! (i - 1) = newline)"

text \<open>
  An occurrence that starts a line cannot overlap an earlier one, because the newline
  before it would be part of the field; so skipping a whole field loses nothing.
\<close>

lemma field_at_no_overlap:
  assumes "newline \<notin> set field" "starts_with (drop q buffer) field"
    and "q < j" "j < q + length field"
  shows "\<not> field_at buffer field j"
proof
  assume "field_at buffer field j"
  with assms(3) have nl: "buffer ! (j - 1) = newline" by (simp add: field_at_def)
  obtain zs where zs: "drop q buffer = field @ zs" using assms(2) by (auto simp: starts_with_iff)
  obtain i where i: "j = Suc (q + i)" "i < length field"
    using assms(3,4) less_imp_Suc_add by fastforce
  have "q \<le> length buffer"
  proof (rule ccontr)
    assume "\<not> q \<le> length buffer"
    with zs i show False by simp
  qed
  then have "drop q buffer ! i = buffer ! (q + i)" by simp
  with zs i nl have "field ! i = newline" by (simp add: nth_append)
  with i assms(1) show False using nth_mem by metis
qed

lemma find_field_spec:
  assumes "field \<noteq> []" "newline \<notin> set field"
  shows "case find_field field buffer p of
           None \<Rightarrow> \<forall>j\<ge>p. \<not> field_at buffer field j
         | Some i \<Rightarrow> p \<le> i \<and> field_at buffer field i \<and> (\<forall>j. p \<le> j \<and> j < i \<longrightarrow> \<not> field_at buffer field j)"
  using assms
proof (induction field buffer p rule: find_field.induct)
  case (1 field buffer p)
  show ?case
  proof (cases "memmem (drop p buffer) field")
    case None
    have "\<not> field_at buffer field j" if "p \<le> j" for j
      using memmem_None [OF None, of "j - p"] that by (auto simp: field_at_def)
    with None show ?thesis by (subst find_field.simps) simp
  next
    case (Some k)
    let ?q = "p + k"
    have here: "starts_with (drop ?q buffer) field"
      using memmem_Some_starts [OF Some] by (simp add: add.commute)
    have before: "\<not> field_at buffer field j" if "p \<le> j" "j < ?q" for j
      using memmem_Some_first [OF Some, of "j - p"] that by (auto simp: field_at_def)
    show ?thesis
    proof (cases "?q = 0 \<or> buffer ! (?q - 1) = newline")
      case True
      with Some here before show ?thesis
        by (subst find_field.simps) (auto simp: field_at_def)
    next
      case False
      have not_here: "\<not> field_at buffer field ?q" using False by (simp add: field_at_def)
      have skipped: "\<not> field_at buffer field j" if "p \<le> j" "j < ?q + length field" for j
        using that before not_here field_at_no_overlap [OF "1.prems"(2) here]
        by (metis linorder_neqE_nat)
      have step: "find_field field buffer p = find_field field buffer (?q + length field)"
        using False Some "1.prems"(1) by (subst find_field.simps) auto
      have IH: "case find_field field buffer (?q + length field) of
           None \<Rightarrow> \<forall>j\<ge>?q + length field. \<not> field_at buffer field j
         | Some i \<Rightarrow> ?q + length field \<le> i \<and> field_at buffer field i \<and>
             (\<forall>j. ?q + length field \<le> j \<and> j < i \<longrightarrow> \<not> field_at buffer field j)"
        using "1.IH" [OF Some False "1.prems"(1)] "1.prems" by blast
      show ?thesis
        using IH skipped unfolding step
        by (auto split: option.splits) (metis linorder_not_less)+
    qed
  qed
qed

lemma find_field_at:
  assumes "field \<noteq> []" "newline \<notin> set field"
    and "field_at buffer field i" "\<forall>j<i. \<not> field_at buffer field j"
  shows "find_field field buffer 0 = Some i"
  using find_field_spec [OF assms(1,2), of 0 buffer] assms(3,4)
  by (auto split: option.splits) (metis linorder_neqE_nat)

lemma find_field_None:
  assumes "field \<noteq> []" "newline \<notin> set field" "\<And>j. \<not> field_at buffer field j"
  shows "find_field field buffer 0 = None"
  using find_field_spec [OF assms(1,2), of 0 buffer] assms(3) by (auto split: option.splits)

text \<open>
  The file as the kernel writes it: blank lines, and lines with a key, a colon, a space
  and a value (the padding before the colon belongs to the key).
\<close>

type_synonym cpuinfo_line = "(char list \<times> char list) option"

primrec render_line :: "cpuinfo_line \<Rightarrow> char list" where
  "render_line None = [newline]"
| "render_line (Some kv) = fst kv @ CHR '':'' # CHR '' '' # snd kv @ [newline]"

definition render_cpuinfo :: "cpuinfo_line list \<Rightarrow> char list" where
  "render_cpuinfo ls = concat (map render_line ls)"

primrec line_ok :: "cpuinfo_line \<Rightarrow> bool" where
  "line_ok None \<longleftrightarrow> True"
| "line_ok (Some kv) \<longleftrightarrow> CHR '':'' \<notin> set (fst kv) \<and> newline \<notin> set (fst kv) \<and>
     newline \<notin> set (snd kv) \<and> CHR 0x00 \<notin> set (snd kv)"

definition field_ok :: "char list \<Rightarrow> bool" where
  "field_ok field \<longleftrightarrow> field \<noteq> [] \<and> CHR '':'' \<notin> set field \<and> newline \<notin> set field"

primrec line_has :: "char list \<Rightarrow> cpuinfo_line \<Rightarrow> bool" where
  "line_has field None \<longleftrightarrow> False"
| "line_has field (Some kv) \<longleftrightarrow> starts_with (fst kv) field"

fun lookup_line :: "char list \<Rightarrow> cpuinfo_line list \<Rightarrow> char list option" where
  "lookup_line field [] = None"
| "lookup_line field (l # ls) =
     (if line_has field l then map_option snd l else lookup_line field ls)"

lemma render_cpuinfo_simps [simp]:
  "render_cpuinfo [] = []"
  "render_cpuinfo (l # ls) = render_line l @ render_cpuinfo ls"
  "render_cpuinfo (ls @ ls') = render_cpuinfo ls @ render_cpuinfo ls'"
  by (simp_all add: render_cpuinfo_def)

lemma starts_with_before:
  "c \<notin> set ys \<Longrightarrow> starts_with (xs @ c # rest) ys \<longleftrightarrow> starts_with xs ys"
  by (induction xs ys rule: starts_with.induct) auto

lemma line_has_iff:
  assumes "field_ok field" "line_ok l"
  shows "starts_with (render_line l @ rest) field \<longleftrightarrow> line_has field l"
proof (cases l)
  case None
  with assms show ?thesis by (cases field) (auto simp: field_ok_def)
next
  case (Some kv)
  with assms show ?thesis by (simp add: field_ok_def starts_with_before)
qed

lemma render_line_body:
  "line_ok l \<Longrightarrow> \<exists>b. render_line l = b @ [newline] \<and> newline \<notin> set b"
  by (cases l) (auto simp: newline_def)

lemma field_at_line:
  assumes "field_ok field" "\<forall>l\<in>set ls. line_ok l"
    and "field_at (render_cpuinfo ls @ rest) field j" "j < length (render_cpuinfo ls)"
  shows "\<exists>l\<in>set ls. line_has field l"
  using assms(2-)
proof (induction ls arbitrary: j)
  case Nil
  then show ?case by simp
next
  case (Cons l ls)
  obtain b where b: "render_line l = b @ [newline]" "newline \<notin> set b"
    using render_line_body Cons.prems(1) by (metis list.set_intros(1))
  have at: "starts_with (drop j (render_line l @ render_cpuinfo ls @ rest)) field"
    "j = 0 \<or> (render_line l @ render_cpuinfo ls @ rest) ! (j - 1) = newline"
    using Cons.prems(2) by (simp_all add: field_at_def)
  consider "j = 0" | "0 < j" "j < length (render_line l)" | "length (render_line l) \<le> j" by linarith
  then show ?case
  proof cases
    case 1
    then show ?thesis using at(1) line_has_iff [OF assms(1)] Cons.prems(1) by simp
  next
    case 2
    then have "j - 1 < length b" using b(1) by simp
    moreover from this 2 at(2) b(1) have "b ! (j - 1) = newline" by (simp add: nth_append)
    ultimately show ?thesis using b(2) nth_mem by metis
  next
    case 3
    define i where "i = j - length (render_line l)"
    have j: "j = length (render_line l) + i" using 3 by (simp add: i_def)
    have "field_at (render_cpuinfo ls @ rest) field i"
      using at b(1) unfolding j field_at_def by (cases i) (auto simp: nth_append)
    moreover have "i < length (render_cpuinfo ls)" using Cons.prems(3) j by simp
    ultimately show ?thesis using Cons.IH [of i] Cons.prems(1) by auto
  qed
qed

lemma lookup_line_split:
  "lookup_line field ls = Some v \<Longrightarrow>
     \<exists>pre k post. ls = pre @ Some (k, v) # post \<and> starts_with k field \<and> (\<forall>l\<in>set pre. \<not> line_has field l)"
proof (induction ls)
  case Nil
  then show ?case by simp
next
  case (Cons l ls)
  show ?case
  proof (cases "line_has field l")
    case True
    with Cons.prems obtain k where "l = Some (k, v)" by (cases l) auto
    with True have "l # ls = [] @ Some (k, v) # ls" "starts_with k field" by simp_all
    then show ?thesis by fastforce
  next
    case False
    with Cons obtain pre k post where
      "ls = pre @ Some (k, v) # post" "starts_with k field" "\<forall>l\<in>set pre. \<not> line_has field l"
      by auto
    with False have "l # ls = (l # pre) @ Some (k, v) # post" "\<forall>l\<in>set (l # pre). \<not> line_has field l"
      by simp_all
    with \<open>starts_with k field\<close> show ?thesis by blast
  qed
qed

lemma lookup_line_None: "lookup_line field ls = None \<Longrightarrow> l \<in> set ls \<Longrightarrow> \<not> line_has field l"
proof (induction ls)
  case Nil
  then show ?case by simp
next
  case (Cons x ls)
  then show ?case by (cases x) (auto split: if_splits)
qed

lemma field_at_last:
  assumes "\<forall>l\<in>set pre. line_ok l" "starts_with tail field"
  shows "field_at (render_cpuinfo pre @ tail) field (length (render_cpuinfo pre))"
proof (cases pre rule: rev_cases)
  case Nil
  then show ?thesis using assms(2) by (simp add: field_at_def)
next
  case (snoc ps l)
  then obtain b where "render_line l = b @ [newline]" using render_line_body assms(1) by auto
  with snoc assms(2) show ?thesis by (simp add: field_at_def nth_append)
qed

lemma extract_found:
  assumes "find_field field (pre @ key @ CHR '':'' # CHR '' '' # v @ newline # post) 0
             = Some (length pre)"
    and "starts_with key field" "CHR '':'' \<notin> set key" "newline \<notin> set v" "CHR 0x00 \<notin> set v"
    and "\<forall>n. malloc_ok n"
  shows "extract_cpuinfo_field malloc_ok (pre @ key @ CHR '':'' # CHR '' '' # v @ newline # post) field
           = Inr (Some v)"
proof -
  obtain k' where k': "key = field @ k'" using assms(2) by (auto simp: starts_with_iff)
  have colon: "memchr (CHR '':'') (k' @ CHR '':'' # CHR '' '' # v @ newline # post) = Some (length k')"
    using assms(3) k' by (intro memchr_append_first) simp
  have nl: "memchr newline (v @ newline # post) = Some (length v)"
    by (rule memchr_append_first [OF assms(4)])
  have str: "c_string v = v" using assms(5) by (auto simp: c_string_def)
  show ?thesis
    using assms(1,6) colon nl str k'
    by (simp add: extract_cpuinfo_field_def nth_append)
qed

text \<open>
  C21.  On a file in the kernel's format, \<open>extract_cpuinfo_field\<close> returns the value of the
  first line whose key begins with the field, and nothing when there is no such line; it
  never reads outside the buffer there.
\<close>

theorem extract_cpuinfo_field_lookup:
  assumes "\<forall>l\<in>set ls. line_ok l" "field_ok field" "\<forall>n. malloc_ok n"
  shows "extract_cpuinfo_field malloc_ok (render_cpuinfo ls) field = Inr (lookup_line field ls)"
proof (cases "lookup_line field ls")
  case None
  have "\<not> field_at (render_cpuinfo ls) field j" for j
  proof
    assume at: "field_at (render_cpuinfo ls) field j"
    then have "j < length (render_cpuinfo ls)"
      using assms(2) by (auto simp: field_at_def field_ok_def starts_with_iff)
        (metis append_is_Nil_conv drop_eq_Nil2 linorder_not_less)
    with at field_at_line [OF assms(2,1), of "[]" j] lookup_line_None [OF None] show False
      by auto
  qed
  then show ?thesis
    using assms(2) None find_field_None
    by (auto simp: extract_cpuinfo_field_def field_ok_def)
next
  case (Some v)
  then obtain pre k post where split: "ls = pre @ Some (k, v) # post" "starts_with k field"
    "\<forall>l\<in>set pre. \<not> line_has field l" using lookup_line_split by blast
  let ?rest = "k @ CHR '':'' # CHR '' '' # v @ newline # render_cpuinfo post"
  have buf: "render_cpuinfo ls = render_cpuinfo pre @ ?rest" using split(1) by simp
  have ok: "\<forall>l\<in>set pre. line_ok l" "CHR '':'' \<notin> set k" "newline \<notin> set v" "CHR 0x00 \<notin> set v"
    using assms(1) split(1) by auto
  have "starts_with ?rest field" using split(2) by (auto simp: starts_with_iff)
  then have "field_at (render_cpuinfo ls) field (length (render_cpuinfo pre))"
    unfolding buf by (rule field_at_last [OF ok(1)])
  moreover have "\<not> field_at (render_cpuinfo ls) field j" if "j < length (render_cpuinfo pre)" for j
    using field_at_line [OF assms(2) ok(1), of ?rest j] that split(3) buf by auto
  ultimately have "find_field field (render_cpuinfo ls) 0 = Some (length (render_cpuinfo pre))"
    using assms(2) by (intro find_field_at) (auto simp: field_ok_def)
  then show ?thesis
    using extract_found [OF _ split(2) ok(2-4) assms(3)] Some unfolding buf by simp
qed

theorem extract_cpuinfo_field_lookup_witness:
  "extract_cpuinfo_field (\<lambda>n. True)
     (render_cpuinfo [Some (''CPU part'' @ [tab], ''0xc05''), None, Some (''Hardware'', ''Goldfish'')])
     ''Hardware'' = Inr (Some ''Goldfish'')"
proof -
  let ?ls = "[Some (''CPU part'' @ [tab], ''0xc05''), None, Some (''Hardware'', ''Goldfish'')]"
  have "\<forall>l\<in>set ?ls. line_ok l" "field_ok ''Hardware''"
    by (simp_all add: field_ok_def newline_def tab_def)
  then show ?thesis
    using extract_cpuinfo_field_lookup [of ?ls "''Hardware''" "\<lambda>n. True"] by simp
qed

text \<open>
  C33.  A file in the kernel's format that is cut off right after the colon of the first line
  whose key begins with the searched field makes the function read the byte after the buffer: the
  end of the buffer is not tested before \<open>p[1]\<close>.
\<close>

theorem extract_cpuinfo_field_overread:
  assumes "\<forall>l\<in>set ls. line_ok l" "\<forall>l\<in>set ls. \<not> line_has field l" "field_ok field"
    and "starts_with key field" "CHR '':'' \<notin> set key"
  shows "extract_cpuinfo_field malloc_ok (render_cpuinfo ls @ key @ '':'') field = Inl OutOfBounds"
proof -
  obtain k' where k': "key = field @ k'" using assms(4) by (auto simp: starts_with_iff)
  then have start: "starts_with (key @ '':'') field" by (auto simp: starts_with_iff)
  have "\<not> field_at (render_cpuinfo ls @ key @ '':'') field j" if "j < length (render_cpuinfo ls)" for j
    using field_at_line [OF assms(3,1), of "key @ '':''" j] that assms(2) by auto
  then have "find_field field (render_cpuinfo ls @ key @ '':'') 0 = Some (length (render_cpuinfo ls))"
    using assms(3) field_at_last [OF assms(1) start] by (intro find_field_at) (auto simp: field_ok_def)
  moreover have "memchr (CHR '':'') (k' @ '':'') = Some (length k')"
    using assms(5) k' by (intro memchr_append_first) simp
  ultimately show ?thesis by (simp add: extract_cpuinfo_field_def k')
qed

theorem extract_cpuinfo_field_overread_witness:
  "extract_cpuinfo_field (\<lambda>n. True) (render_cpuinfo [Some (''Hardware'', ''x'')] @ ''Features'' @ [tab] @ '':'') ''Features'' =
     Inl OutOfBounds"
  using extract_cpuinfo_field_overread [of "[Some (''Hardware'', ''x'')]" "''Features''" "''Features'' @ [tab]" "\<lambda>n. True"]
  by (simp add: field_ok_def newline_def tab_def)

end
