(* ===== verification/CpuFeatures.thy ===== *)
theory CpuFeatures
  imports CpuInfo
begin

text \<open>
  Detection of the CPU and the public interface of the cpufeatures library
  (\<open>android_cpuInit\<close> and the functions after it in
  \<open>sources/android/cpufeatures/cpu-features.c\<close>, with the constants of
  \<open>cpu-features.h\<close>).  The preprocessor's choice of architecture is the parameter
  \<open>arch\<close>; what the process is given by the kernel and the C library is the record
  \<open>cpu_env\<close>.  The static variables are the record \<open>cpu_globals\<close>.
\<close>


section \<open>Constants of the header\<close>

datatype AndroidCpuFamily =
    ANDROID_CPU_FAMILY_UNKNOWN | ANDROID_CPU_FAMILY_ARM | ANDROID_CPU_FAMILY_X86
  | ANDROID_CPU_FAMILY_MIPS | ANDROID_CPU_FAMILY_ARM64 | ANDROID_CPU_FAMILY_X86_64
  | ANDROID_CPU_FAMILY_MIPS64

primrec family_value :: "AndroidCpuFamily \<Rightarrow> u64" where
  "family_value ANDROID_CPU_FAMILY_UNKNOWN = 0"
| "family_value ANDROID_CPU_FAMILY_ARM = 1"
| "family_value ANDROID_CPU_FAMILY_X86 = 2"
| "family_value ANDROID_CPU_FAMILY_MIPS = 3"
| "family_value ANDROID_CPU_FAMILY_ARM64 = 4"
| "family_value ANDROID_CPU_FAMILY_X86_64 = 5"
| "family_value ANDROID_CPU_FAMILY_MIPS64 = 6"

definition ARM_ARMv7 :: u64 where "ARM_ARMv7 = flag 0"
definition ARM_VFPv3 :: u64 where "ARM_VFPv3 = flag 1"
definition ARM_NEON :: u64 where "ARM_NEON = flag 2"
definition ARM_LDREX_STREX :: u64 where "ARM_LDREX_STREX = flag 3"
definition ARM_VFPv2 :: u64 where "ARM_VFPv2 = flag 4"
definition ARM_VFP_D32 :: u64 where "ARM_VFP_D32 = flag 5"
definition ARM_VFP_FP16 :: u64 where "ARM_VFP_FP16 = flag 6"
definition ARM_VFP_FMA :: u64 where "ARM_VFP_FMA = flag 7"
definition ARM_NEON_FMA :: u64 where "ARM_NEON_FMA = flag 8"
definition ARM_IDIV_ARM :: u64 where "ARM_IDIV_ARM = flag 9"
definition ARM_IDIV_THUMB2 :: u64 where "ARM_IDIV_THUMB2 = flag 10"
definition ARM_iWMMXt :: u64 where "ARM_iWMMXt = flag 11"
definition ARM_AES :: u64 where "ARM_AES = flag 12"
definition ARM_PMULL :: u64 where "ARM_PMULL = flag 13"
definition ARM_SHA1 :: u64 where "ARM_SHA1 = flag 14"
definition ARM_SHA2 :: u64 where "ARM_SHA2 = flag 15"
definition ARM_CRC32 :: u64 where "ARM_CRC32 = flag 16"

definition ARM64_FP :: u64 where "ARM64_FP = flag 0"
definition ARM64_ASIMD :: u64 where "ARM64_ASIMD = flag 1"
definition ARM64_AES :: u64 where "ARM64_AES = flag 2"
definition ARM64_PMULL :: u64 where "ARM64_PMULL = flag 3"
definition ARM64_SHA1 :: u64 where "ARM64_SHA1 = flag 4"
definition ARM64_SHA2 :: u64 where "ARM64_SHA2 = flag 5"
definition ARM64_CRC32 :: u64 where "ARM64_CRC32 = flag 6"

definition X86_SSSE3 :: u64 where "X86_SSSE3 = flag 0"
definition X86_POPCNT :: u64 where "X86_POPCNT = flag 1"
definition X86_MOVBE :: u64 where "X86_MOVBE = flag 2"
definition X86_SSE4_1 :: u64 where "X86_SSE4_1 = flag 3"
definition X86_SSE4_2 :: u64 where "X86_SSE4_2 = flag 4"
definition X86_AES_NI :: u64 where "X86_AES_NI = flag 5"
definition X86_AVX :: u64 where "X86_AVX = flag 6"
definition X86_RDRAND :: u64 where "X86_RDRAND = flag 7"
definition X86_AVX2 :: u64 where "X86_AVX2 = flag 8"
definition X86_SHA_NI :: u64 where "X86_SHA_NI = flag 9"

definition MIPS_R6 :: u64 where "MIPS_R6 = flag 0"
definition MIPS_MSA :: u64 where "MIPS_MSA = flag 1"

lemmas arm_defs =
  ARM_ARMv7_def ARM_VFPv3_def ARM_NEON_def ARM_LDREX_STREX_def ARM_VFPv2_def ARM_VFP_D32_def
  ARM_VFP_FP16_def ARM_VFP_FMA_def ARM_NEON_FMA_def ARM_IDIV_ARM_def ARM_IDIV_THUMB2_def
  ARM_iWMMXt_def ARM_AES_def ARM_PMULL_def ARM_SHA1_def ARM_SHA2_def ARM_CRC32_def

lemmas arm64_defs =
  ARM64_FP_def ARM64_ASIMD_def ARM64_AES_def ARM64_PMULL_def ARM64_SHA1_def ARM64_SHA2_def
  ARM64_CRC32_def

lemmas x86_defs =
  X86_SSSE3_def X86_POPCNT_def X86_MOVBE_def X86_SSE4_1_def X86_SSE4_2_def X86_AES_NI_def
  X86_AVX_def X86_RDRAND_def X86_AVX2_def X86_SHA_NI_def

lemmas mips_defs = MIPS_R6_def MIPS_MSA_def


section \<open>State and environment\<close>

datatype cpu_arch = Arch_arm | Arch_i386 | Arch_mips64 | Arch_mips | Arch_aarch64
  | Arch_x86_64 | Arch_other

record cpu_globals =
  g_once :: bool
  g_inited :: bool
  g_cpuFamily :: AndroidCpuFamily
  g_cpuFeatures :: u64
  g_cpuCount :: int
  g_cpuIdArm :: u32

definition initial_globals :: cpu_globals where
  "initial_globals =
     \<lparr>g_once = False, g_inited = False, g_cpuFamily = ANDROID_CPU_FAMILY_UNKNOWN,
      g_cpuFeatures = 0, g_cpuCount = 0, g_cpuIdArm = 0\<rparr>"

text \<open>
  \<open>/proc/cpuinfo\<close> is opened twice, to measure it and to read it, and need not behave the
  same both times: \<open>fs_size\<close> answers the first open, \<open>fs\<close> every later one.  \<open>cpuid\<close>
  gives the registers eax, ebx, ecx, edx of the x86 instruction.
\<close>

record cpu_env =
  fs_size :: file_system
  fs :: file_system
  malloc_ok :: "nat \<Rightarrow> bool"
  libc :: libc_handle
  cpuid :: "int \<Rightarrow> u32 \<times> u32 \<times> u32 \<times> u32"

fun android_cpuInitFamily :: "cpu_arch \<Rightarrow> cpu_globals \<Rightarrow> cpu_globals" where
  "android_cpuInitFamily Arch_arm g = g\<lparr>g_cpuFamily := ANDROID_CPU_FAMILY_ARM\<rparr>"
| "android_cpuInitFamily Arch_i386 g = g\<lparr>g_cpuFamily := ANDROID_CPU_FAMILY_X86\<rparr>"
| "android_cpuInitFamily Arch_mips64 g = g\<lparr>g_cpuFamily := ANDROID_CPU_FAMILY_MIPS64\<rparr>"
| "android_cpuInitFamily Arch_mips g = g\<lparr>g_cpuFamily := ANDROID_CPU_FAMILY_MIPS\<rparr>"
| "android_cpuInitFamily Arch_aarch64 g = g\<lparr>g_cpuFamily := ANDROID_CPU_FAMILY_ARM64\<rparr>"
| "android_cpuInitFamily Arch_x86_64 g = g\<lparr>g_cpuFamily := ANDROID_CPU_FAMILY_X86_64\<rparr>"
| "android_cpuInitFamily Arch_other g = g\<lparr>g_cpuFamily := ANDROID_CPU_FAMILY_UNKNOWN\<rparr>"

definition add_features :: "bool \<Rightarrow> u64 \<Rightarrow> cpu_globals \<Rightarrow> cpu_globals" where
  "add_features b f g = (if b then g\<lparr>g_cpuFeatures := g_cpuFeatures g OR f\<rparr> else g)"


section \<open>Detection on 32-bit ARM\<close>

text \<open>The block on the field \<open>CPU architecture\<close>.\<close>

definition init_arm_arch ::
    "cpu_env \<Rightarrow> char list \<Rightarrow> cpu_globals \<Rightarrow> cpu_globals c_result" where
  "init_arm_arch env cpuinfo g =
     (case extract_cpuinfo_field (malloc_ok env) cpuinfo ''CPU architecture'' of
        Inl e \<Rightarrow> Inl e
      | Inr None \<Rightarrow> Inr g
      | Inr (Some cpuArch) \<Rightarrow>
          (let (archNumber, consumed) = strtol10 cpuArch;
               hasARMv7 = (0 < consumed \<and> 7 \<le> archNumber);
               finish = (\<lambda>hasARMv7. add_features (6 \<le> archNumber) ARM_LDREX_STREX
                           (add_features hasARMv7 ARM_ARMv7 g))
           in if hasARMv7 then
                (case extract_cpuinfo_field (malloc_ok env) cpuinfo ''Processor'' of
                   Inl e \<Rightarrow> Inl e
                 | Inr cpuProc \<Rightarrow> Inr (finish (\<not> has_list_item cpuProc ''(v6l)'')))
              else Inr (finish False)))"

text \<open>The three sources of \<open>hwcaps\<close>, each tried when the one before gave 0.\<close>

definition arm_hwcaps :: "cpu_env \<Rightarrow> char list \<Rightarrow> u32 c_result" where
  "arm_hwcaps env cpuinfo =
     (let hwcaps = get_elf_hwcap_from_getauxval (libc env) AT_HWCAP in
      if hwcaps \<noteq> 0 then Inr hwcaps
      else
        (case get_elf_hwcap_from_proc_self_auxv (fs env) of
           Inl e \<Rightarrow> Inl e
         | Inr hwcaps \<Rightarrow>
             if hwcaps \<noteq> 0 then Inr hwcaps
             else get_elf_hwcap_from_proc_cpuinfo (malloc_ok env) cpuinfo))"

definition init_arm_hwcaps :: "u32 \<Rightarrow> cpu_globals \<Rightarrow> cpu_globals" where
  "init_arm_hwcaps hwcaps g =
     (if hwcaps = 0 then g
      else
        let has_vfp = has_flag hwcaps HWCAP_VFP;
            has_vfpv3 = has_flag hwcaps HWCAP_VFPv3;
            has_vfpv3d16 = has_flag hwcaps HWCAP_VFPv3D16;
            has_vfpv4 = has_flag hwcaps HWCAP_VFPv4;
            has_neon = has_flag hwcaps HWCAP_NEON;
            has_idiva = has_flag hwcaps HWCAP_IDIVA;
            has_idivt = has_flag hwcaps HWCAP_IDIVT;
            has_iwmmxt = has_flag hwcaps HWCAP_IWMMXT;
            g1 = add_features has_vfpv4 (ARM_VFPv3 OR ARM_VFP_FP16 OR ARM_VFP_FMA) g;
            g2 = add_features (has_vfpv3 \<or> has_vfpv3d16) ARM_VFPv3 g1;
            g3 = (if has_vfp then
                    if has_flag (g_cpuFeatures g2) ARM_ARMv7 then add_features True ARM_VFPv3 g2
                    else add_features True ARM_VFPv2 g2
                  else g2);
            g4 = (if has_neon then
                    add_features has_vfpv4 ARM_NEON_FMA
                      (add_features True (ARM_VFPv3 OR ARM_NEON OR ARM_VFP_D32) g3)
                  else g3);
            g5 = add_features (has_flag (g_cpuFeatures g4) ARM_VFPv3) (ARM_VFPv2 OR ARM_ARMv7) g4;
            g6 = add_features has_idiva ARM_IDIV_ARM g5;
            g7 = add_features has_idivt ARM_IDIV_THUMB2 g6
        in add_features has_iwmmxt ARM_iWMMXt g7)"

definition init_arm_hwcaps2 :: "u32 \<Rightarrow> cpu_globals \<Rightarrow> cpu_globals" where
  "init_arm_hwcaps2 hwcaps2 g =
     (if hwcaps2 = 0 then g
      else
        add_features (has_flag hwcaps2 HWCAP2_CRC32) ARM_CRC32
        (add_features (has_flag hwcaps2 HWCAP2_SHA2) ARM_SHA2
        (add_features (has_flag hwcaps2 HWCAP2_SHA1) ARM_SHA1
        (add_features (has_flag hwcaps2 HWCAP2_PMULL) ARM_PMULL
        (add_features (has_flag hwcaps2 HWCAP2_AES) ARM_AES g)))))"

record CpuIdEntry =
  entry_name :: "char list"
  entry_format :: char
  bit_lshift :: nat
  bit_length :: nat

definition cpu_id_entries :: "CpuIdEntry list" where
  "cpu_id_entries =
     [\<lparr>entry_name = ''CPU implementer'', entry_format = CHR ''x'', bit_lshift = 24, bit_length = 8\<rparr>,
      \<lparr>entry_name = ''CPU variant'', entry_format = CHR ''x'', bit_lshift = 20, bit_length = 4\<rparr>,
      \<lparr>entry_name = ''CPU part'', entry_format = CHR ''x'', bit_lshift = 4, bit_length = 12\<rparr>,
      \<lparr>entry_name = ''CPU revision'', entry_format = CHR ''d'', bit_lshift = 0, bit_length = 4\<rparr>]"

text \<open>The number in the value of one entry; \<open>None\<close> when it does not parse.\<close>

definition cpu_id_number :: "char \<Rightarrow> char list \<Rightarrow> int option" where
  "cpu_id_number format val =
     map_option fst
       (if (case val of c0 # c1 # _ \<Rightarrow> c0 = CHR ''0'' \<and> (c1 = CHR ''x'' \<or> c1 = CHR ''X'') | _ \<Rightarrow> False)
        then parse_hexadecimal (drop 2 val)
        else if format = CHR ''x'' then parse_hexadecimal val
        else parse_decimal val)"

fun init_arm_cpuid ::
    "cpu_env \<Rightarrow> char list \<Rightarrow> CpuIdEntry list \<Rightarrow> cpu_globals \<Rightarrow> cpu_globals c_result" where
  "init_arm_cpuid env cpuinfo [] g = Inr g"
| "init_arm_cpuid env cpuinfo (entry # entries) g =
     (case extract_cpuinfo_field (malloc_ok env) cpuinfo (entry_name entry) of
        Inl e \<Rightarrow> Inl e
      | Inr None \<Rightarrow> init_arm_cpuid env cpuinfo entries g
      | Inr (Some val) \<Rightarrow>
          (case cpu_id_number (entry_format entry) val of
             None \<Rightarrow> init_arm_cpuid env cpuinfo entries g
           | Some n \<Rightarrow>
               init_arm_cpuid env cpuinfo entries
                 (g\<lparr>g_cpuIdArm := g_cpuIdArm g OR
                      push_bit (bit_lshift entry) (of_int n AND (flag (bit_length entry) - 1))\<rparr>)))"

definition cpu_fixes :: "(u32 \<times> u64) list" where
  "cpu_fixes = [(0x510006f2, ARM_IDIV_ARM OR ARM_IDIV_THUMB2),
                (0x510006f3, ARM_IDIV_ARM OR ARM_IDIV_THUMB2)]"

definition init_arm_fixes :: "cpu_globals \<Rightarrow> cpu_globals" where
  "init_arm_fixes g =
     fold (\<lambda>(cpuid, or_flags) g. add_features (g_cpuIdArm g = cpuid) or_flags g) cpu_fixes g"

text \<open>The special case of the emulator, with the condition as it is written.\<close>

definition init_arm_emulator ::
    "cpu_env \<Rightarrow> char list \<Rightarrow> cpu_globals \<Rightarrow> cpu_globals c_result" where
  "init_arm_emulator env cpuinfo g =
     (case extract_cpuinfo_field (malloc_ok env) cpuinfo ''Hardware'' of
        Inl e \<Rightarrow> Inl e
      | Inr None \<Rightarrow> Inr g
      | Inr (Some hardware) \<Rightarrow>
          Inr (add_features
                 (hardware = ''Goldfish'' \<and> g_cpuIdArm g = 0x4100c080 \<and>
                  family_value (g_cpuFamily g) AND ARM_ARMv7 \<noteq> 0)
                 ARM_IDIV_ARM g))"

definition init_arm :: "cpu_env \<Rightarrow> char list \<Rightarrow> cpu_globals \<Rightarrow> cpu_globals c_result" where
  "init_arm env cpuinfo g =
     (case init_arm_arch env cpuinfo g of
        Inl e \<Rightarrow> Inl e
      | Inr g1 \<Rightarrow>
          (case arm_hwcaps env cpuinfo of
             Inl e \<Rightarrow> Inl e
           | Inr hwcaps \<Rightarrow>
               (let g2 = init_arm_hwcaps hwcaps g1;
                    g3 = init_arm_hwcaps2 (get_elf_hwcap_from_getauxval (libc env) AT_HWCAP2) g2
                in case init_arm_cpuid env cpuinfo cpu_id_entries g3 of
                     Inl e \<Rightarrow> Inl e
                   | Inr g4 \<Rightarrow> init_arm_emulator env cpuinfo (init_arm_fixes g4))))"


section \<open>Detection on the other architectures\<close>

definition init_aarch64 :: "cpu_env \<Rightarrow> cpu_globals \<Rightarrow> cpu_globals" where
  "init_aarch64 env g =
     (let hwcaps = get_elf_hwcap_from_getauxval (libc env) AT_HWCAP in
      if hwcaps = 0 then g
      else
        add_features (has_flag hwcaps HWCAP_CRC32) ARM64_CRC32
        (add_features (has_flag hwcaps HWCAP_SHA2) ARM64_SHA2
        (add_features (has_flag hwcaps HWCAP_SHA1) ARM64_SHA1
        (add_features (has_flag hwcaps HWCAP_PMULL) ARM64_PMULL
        (add_features (has_flag hwcaps HWCAP_AES) ARM64_AES
        (add_features (has_flag hwcaps HWCAP_ASIMD) ARM64_ASIMD
        (add_features (has_flag hwcaps HWCAP_FP) ARM64_FP g)))))))"

definition init_x86 :: "cpu_env \<Rightarrow> cpu_globals \<Rightarrow> cpu_globals" where
  "init_x86 env g =
     (let (a0, b0, c0, d0) = cpuid env 0;
          vendorIsIntel = (b0 = 0x756e6547 \<and> c0 = 0x6c65746e \<and> d0 = 0x49656e69);
          (a1, b1, c1, d1) = cpuid env 1;
          (a7, b7, c7, d7) = cpuid env 7
      in add_features (has_flag b7 (flag 29)) X86_SHA_NI
         (add_features (has_flag b7 (flag 5)) X86_AVX2
         (add_features (has_flag c1 (flag 30)) X86_RDRAND
         (add_features (has_flag c1 (flag 28)) X86_AVX
         (add_features (has_flag c1 (flag 25)) X86_AES_NI
         (add_features (vendorIsIntel \<and> has_flag c1 (flag 22)) X86_MOVBE
         (add_features (has_flag c1 (flag 20)) X86_SSE4_2
         (add_features (has_flag c1 (flag 19)) X86_SSE4_1
         (add_features (has_flag c1 (flag 23)) X86_POPCNT
         (add_features (has_flag c1 (flag 9)) X86_SSSE3 g))))))))))"

definition init_mips :: "cpu_env \<Rightarrow> cpu_globals \<Rightarrow> cpu_globals" where
  "init_mips env g =
     (let hwcaps = get_elf_hwcap_from_getauxval (libc env) AT_HWCAP in
      if hwcaps = 0 then g
      else add_features (has_flag hwcaps HWCAP_MIPS_MSA) MIPS_MSA
             (add_features (has_flag hwcaps HWCAP_MIPS_R6) MIPS_R6 g))"

fun init_features ::
    "cpu_arch \<Rightarrow> cpu_env \<Rightarrow> char list \<Rightarrow> cpu_globals \<Rightarrow> cpu_globals c_result" where
  "init_features Arch_arm env cpuinfo g = init_arm env cpuinfo g"
| "init_features Arch_aarch64 env cpuinfo g = Inr (init_aarch64 env g)"
| "init_features Arch_i386 env cpuinfo g = Inr (init_x86 env g)"
| "init_features Arch_x86_64 env cpuinfo g = Inr (init_x86 env g)"
| "init_features Arch_mips env cpuinfo g = Inr (init_mips env g)"
| "init_features Arch_mips64 env cpuinfo g = Inr (init_mips env g)"
| "init_features Arch_other env cpuinfo g = Inr g"


section \<open>Initialisation and the public functions\<close>

text \<open>\<open>None\<close>: the initialisation never returns (the loop of \<open>cpulist_parse\<close>).\<close>

definition android_cpuInit ::
    "cpu_arch \<Rightarrow> cpu_env \<Rightarrow> cpu_globals \<Rightarrow> cpu_globals c_result option" where
  "android_cpuInit arch env g =
     (let g1 = (android_cpuInitFamily arch g)
                 \<lparr>g_cpuFeatures := 0, g_cpuCount := 1, g_inited := True\<rparr>;
          size = get_file_size (fs_size env) ''/proc/cpuinfo''
      in if size < 0 then Some (Inr g1)
         else if \<not> malloc_ok env (nat size) then Some (Inr g1)
         else
           let (cpuinfo_len, cpuinfo) = read_file (fs env) ''/proc/cpuinfo'' (nat size)
           in if cpuinfo_len < 0 then Some (Inr g1)
              else
                (case get_cpu_count (fs env) of
                   None \<Rightarrow> None
                 | Some count \<Rightarrow>
                     Some (init_features arch env cpuinfo
                       (g1\<lparr>g_cpuCount := (if count = 0 then 1 else count)\<rparr>))))"

text \<open>\<open>pthread_once\<close>: the routine runs on the first call only.\<close>

definition once_cpuInit ::
    "cpu_arch \<Rightarrow> cpu_env \<Rightarrow> cpu_globals \<Rightarrow> cpu_globals c_result option" where
  "once_cpuInit arch env g =
     (if g_once g then Some (Inr g) else android_cpuInit arch env (g\<lparr>g_once := True\<rparr>))"

definition once_cpuInitDummy :: "cpu_globals \<Rightarrow> cpu_globals" where
  "once_cpuInitDummy g = (if g_once g then g else g\<lparr>g_once := True, g_inited := True\<rparr>)"

definition android_getCpuFamily ::
    "cpu_arch \<Rightarrow> cpu_env \<Rightarrow> cpu_globals \<Rightarrow> (cpu_globals \<times> AndroidCpuFamily) c_result option" where
  "android_getCpuFamily arch env g =
     map_option (map_sum id (\<lambda>g'. (g', g_cpuFamily g'))) (once_cpuInit arch env g)"

definition android_getCpuFeatures ::
    "cpu_arch \<Rightarrow> cpu_env \<Rightarrow> cpu_globals \<Rightarrow> (cpu_globals \<times> u64) c_result option" where
  "android_getCpuFeatures arch env g =
     map_option (map_sum id (\<lambda>g'. (g', g_cpuFeatures g'))) (once_cpuInit arch env g)"

definition android_getCpuCount ::
    "cpu_arch \<Rightarrow> cpu_env \<Rightarrow> cpu_globals \<Rightarrow> (cpu_globals \<times> int) c_result option" where
  "android_getCpuCount arch env g =
     map_option (map_sum id (\<lambda>g'. (g', g_cpuCount g'))) (once_cpuInit arch env g)"

definition android_getCpuIdArm ::
    "cpu_arch \<Rightarrow> cpu_env \<Rightarrow> cpu_globals \<Rightarrow> (cpu_globals \<times> u32) c_result option" where
  "android_getCpuIdArm arch env g =
     map_option (map_sum id (\<lambda>g'. (g', g_cpuIdArm g'))) (once_cpuInit arch env g)"

definition android_setCpu ::
    "cpu_arch \<Rightarrow> int \<Rightarrow> u64 \<Rightarrow> cpu_globals \<Rightarrow> cpu_globals \<times> bool" where
  "android_setCpu arch cpu_count cpu_features g =
     (if g_inited g then (g, False)
      else
        let g1 = android_cpuInitFamily arch g;
            g2 = g1\<lparr>g_cpuCount := (if cpu_count \<le> 0 then 1 else cpu_count),
                    g_cpuFeatures := cpu_features\<rparr>
        in (once_cpuInitDummy g2, True))"

definition android_setCpuArm ::
    "cpu_arch \<Rightarrow> int \<Rightarrow> u64 \<Rightarrow> u32 \<Rightarrow> cpu_globals \<Rightarrow> cpu_globals \<times> bool" where
  "android_setCpuArm arch cpu_count cpu_features cpu_id g =
     (case android_setCpu arch cpu_count cpu_features g of
        (g', False) \<Rightarrow> (g', False)
      | (g', True) \<Rightarrow> (g'\<lparr>g_cpuIdArm := cpu_id\<rparr>, True))"


section \<open>Properties of the detected features\<close>

lemma add_features_frame [simp]:
  "g_once (add_features b f g) = g_once g"
  "g_inited (add_features b f g) = g_inited g"
  "g_cpuFamily (add_features b f g) = g_cpuFamily g"
  "g_cpuCount (add_features b f g) = g_cpuCount g"
  "g_cpuIdArm (add_features b f g) = g_cpuIdArm g"
  by (simp_all add: add_features_def)

lemma bit_add_features [simp]:
  "bit (g_cpuFeatures (add_features b f g)) n \<longleftrightarrow> bit (g_cpuFeatures g) n \<or> (b \<and> bit f n)"
  by (auto simp: add_features_def bit_or_iff)

text \<open>
  The implications between ARM features that the header documents: VFPv3 comes with VFPv2
  and ARMv7; NEON with VFPv3 and the 32 registers; the VFPv4 extensions with VFPv3, and
  the NEON ones with NEON and the VFP ones.
\<close>

definition arm_closed :: "u64 \<Rightarrow> bool" where
  "arm_closed w \<longleftrightarrow>
     (has_flag w ARM_VFPv3 \<longrightarrow> has_flag w ARM_VFPv2 \<and> has_flag w ARM_ARMv7) \<and>
     (has_flag w ARM_NEON \<longrightarrow> has_flag w ARM_VFPv3 \<and> has_flag w ARM_VFP_D32) \<and>
     (has_flag w ARM_VFP_FMA \<longrightarrow> has_flag w ARM_VFPv3 \<and> has_flag w ARM_VFP_FP16) \<and>
     (has_flag w ARM_NEON_FMA \<longrightarrow> has_flag w ARM_NEON \<and> has_flag w ARM_VFP_FMA)"

lemma arm_closed_bits:
  "arm_closed w \<longleftrightarrow> (bit w 1 \<longrightarrow> bit w 4 \<and> bit w 0) \<and> (bit w 2 \<longrightarrow> bit w 1 \<and> bit w 5) \<and>
     (bit w 7 \<longrightarrow> bit w 1 \<and> bit w 6) \<and> (bit w 8 \<longrightarrow> bit w 2 \<and> bit w 7)"
  by (simp add: arm_closed_def arm_defs)

text \<open>Before the capabilities are looked at, only ARMv7 and LDREX/STREX can be set.\<close>

definition arm_basic :: "u64 \<Rightarrow> bool" where
  "arm_basic w \<longleftrightarrow> (\<forall>n. bit w n \<longrightarrow> n = 0 \<or> n = 3)"

lemma init_arm_arch_basic:
  "init_arm_arch env cpuinfo g = Inr g' \<Longrightarrow> g_cpuFeatures g = 0 \<Longrightarrow> arm_basic (g_cpuFeatures g')"
  by (auto simp: init_arm_arch_def arm_basic_def arm_defs Let_def
      split: sum.splits option.splits prod.splits if_splits)

lemma init_arm_hwcaps_closed:
  assumes "arm_basic (g_cpuFeatures g)"
  shows "arm_closed (g_cpuFeatures (init_arm_hwcaps hwcaps g))"
proof -
  have b: "\<not> bit (g_cpuFeatures g) 1" "\<not> bit (g_cpuFeatures g) 2" "\<not> bit (g_cpuFeatures g) 7"
    "\<not> bit (g_cpuFeatures g) 8"
    using assms unfolding arm_basic_def by fastforce+
  show ?thesis
    unfolding arm_closed_bits init_arm_hwcaps_def Let_def
    using b by (auto simp: hwcap_defs arm_defs bit_or_iff)
qed

text \<open>A feature word that agrees with another one on the first nine flags.\<close>

lemma arm_closed_cong:
  assumes "\<And>n. n < 9 \<Longrightarrow> bit w n \<longleftrightarrow> bit v n"
  shows "arm_closed w \<longleftrightarrow> arm_closed v"
  using assms by (simp add: arm_closed_bits)

lemma init_arm_cpuid_frame:
  "init_arm_cpuid env cpuinfo es g = Inr g' \<Longrightarrow>
     g_cpuFeatures g' = g_cpuFeatures g \<and> g_cpuCount g' = g_cpuCount g \<and>
     g_cpuFamily g' = g_cpuFamily g \<and> g_inited g' = g_inited g \<and> g_once g' = g_once g"
proof (induction es arbitrary: g)
  case Nil
  then show ?case by simp
next
  case (Cons e es)
  from Cons.prems show ?case
    by (auto split: sum.splits option.splits dest!: Cons.IH)
qed

lemma init_arm_closed:
  assumes "init_arm env cpuinfo g = Inr g'" "g_cpuFeatures g = 0"
  shows "arm_closed (g_cpuFeatures g')"
proof -
  obtain g1 hwcaps g4 where steps:
    "init_arm_arch env cpuinfo g = Inr g1"
    "init_arm_cpuid env cpuinfo cpu_id_entries
       (init_arm_hwcaps2 (get_elf_hwcap_from_getauxval (libc env) AT_HWCAP2) (init_arm_hwcaps hwcaps g1))
       = Inr g4"
    "init_arm_emulator env cpuinfo (init_arm_fixes g4) = Inr g'"
    using assms(1) by (auto simp: init_arm_def Let_def split: sum.splits)
  have "arm_closed (g_cpuFeatures (init_arm_hwcaps hwcaps g1))"
    using init_arm_hwcaps_closed init_arm_arch_basic [OF steps(1) assms(2)] by blast
  moreover have "bit (g_cpuFeatures (init_arm_hwcaps2 h g2)) n \<longleftrightarrow> bit (g_cpuFeatures g2) n"
    if "n < 9" for n h g2
    using that by (auto simp: init_arm_hwcaps2_def arm_defs)
  moreover have "bit (g_cpuFeatures (init_arm_fixes g2)) n \<longleftrightarrow> bit (g_cpuFeatures g2) n"
    if "n < 9" for n g2
    using that by (auto simp: init_arm_fixes_def cpu_fixes_def arm_defs bit_or_iff)
  moreover have "bit (g_cpuFeatures g') n \<longleftrightarrow> bit (g_cpuFeatures (init_arm_fixes g4)) n" if "n < 9" for n
    using that steps(3)
    by (auto simp: init_arm_emulator_def arm_defs split: sum.splits option.splits)
  ultimately show ?thesis
    using init_arm_cpuid_frame [OF steps(2)] arm_closed_cong [of "g_cpuFeatures g'"]
    by (metis (no_types, lifting))
qed

text \<open>
  C1.  Whatever the kernel reports, the feature word computed on 32-bit ARM respects the
  documented implications between the features.
\<close>

theorem arm_features_closed:
  assumes "android_cpuInit Arch_arm env g = Some (Inr g')"
  shows "arm_closed (g_cpuFeatures g')"
proof -
  have "arm_closed 0" by (simp add: arm_closed_bits)
  then show ?thesis
    using assms init_arm_closed
    by (fastforce simp: android_cpuInit_def Let_def split: if_splits option.splits prod.splits)
qed

text \<open>A device for the examples: NEON from \<open>getauxval\<close>, and a small \<open>/proc/cpuinfo\<close>.\<close>

definition example_text :: "char list" where
  "example_text = ''Hardware: x'' @ [newline]"

definition example_env :: cpu_env where
  "example_env =
     \<lparr>fs_size = [''/proc/cpuinfo'' \<mapsto> [Bytes example_text]],
      fs = [''/proc/cpuinfo'' \<mapsto> [Bytes example_text]],
      malloc_ok = (\<lambda>n. True),
      libc = Getauxval (\<lambda>t. if t = AT_HWCAP then flag 12 else 0),
      cpuid = (\<lambda>f. (0, 0, flag 28, 0))\<rparr>"

lemma example_cpuinfo:
  "get_file_size (fs_size example_env) ''/proc/cpuinfo'' = 12"
  "read_file (fs example_env) ''/proc/cpuinfo'' 12 = (12, example_text)"
  "get_cpu_count (fs example_env) = Some 0"
  by (simp_all add: example_env_def get_file_size_def file_size_loop.simps read_file_def
      read_file_loop.simps c_int_def get_cpu_count_def cpulist_read_from_def cpulist_init_def
      cpulist_and_def cpulist_count_def popcount_def example_text_def)

lemma example_fields:
  "extract_cpuinfo_field m example_text ''CPU architecture'' = Inr None"
  "extract_cpuinfo_field m example_text ''CPU implementer'' = Inr None"
  "extract_cpuinfo_field m example_text ''CPU variant'' = Inr None"
  "extract_cpuinfo_field m example_text ''CPU part'' = Inr None"
  "extract_cpuinfo_field m example_text ''CPU revision'' = Inr None"
  "m 2 \<Longrightarrow> extract_cpuinfo_field m example_text ''Hardware'' = Inr (Some ''x'')"
  by (simp_all add: extract_cpuinfo_field_def find_field.simps newline_def c_string_def
      numeral_2_eq_2 example_text_def)

lemma example_init:
  "\<exists>g'. android_cpuInit Arch_arm example_env initial_globals = Some (Inr g') \<and>
     has_flag (g_cpuFeatures g') ARM_NEON"
proof -
  have hw: "arm_hwcaps example_env cpuinfo = Inr (flag 12)" for cpuinfo
    by (simp add: arm_hwcaps_def example_env_def flag_def)
  have hw2: "get_elf_hwcap_from_getauxval (libc example_env) AT_HWCAP2 = 0"
    by (simp add: example_env_def AT_HWCAP2_def AT_HWCAP_def)
  have m: "malloc_ok example_env n" for n by (simp add: example_env_def)
  have "(flag 12 :: u32) \<noteq> 0" by (simp add: flag_def)
  then show ?thesis
    by (simp add: android_cpuInit_def example_cpuinfo m init_arm_def init_arm_arch_def
        example_fields hw hw2 init_arm_hwcaps2_def cpu_id_entries_def init_arm_fixes_def
        init_arm_emulator_def init_arm_hwcaps_def hwcap_defs arm_defs cpu_fixes_def Let_def
        bit_or_iff)
qed

theorem arm_features_closed_witness:
  "\<exists>g'. android_cpuInit Arch_arm example_env initial_globals = Some (Inr g') \<and>
     has_flag (g_cpuFeatures g') ARM_NEON \<and> arm_closed (g_cpuFeatures g')"
  using example_init arm_features_closed by blast


section \<open>The life of the library's state\<close>

text \<open>
  A client's calls, each made in the environment of its moment; a run stops at the first
  call that faults or does not return.
\<close>

datatype cpu_call = GetFamily | GetFeatures | GetCount | GetIdArm
  | SetCpu int u64 | SetCpuArm int u64 u32

definition state_of :: "(cpu_globals \<times> 'a) c_result option \<Rightarrow> cpu_globals c_result option" where
  "state_of r = map_option (map_sum id fst) r"

fun cpu_step :: "cpu_arch \<Rightarrow> cpu_env \<times> cpu_call \<Rightarrow> cpu_globals \<Rightarrow> cpu_globals c_result option" where
  "cpu_step arch (env, GetFamily) g = state_of (android_getCpuFamily arch env g)"
| "cpu_step arch (env, GetFeatures) g = state_of (android_getCpuFeatures arch env g)"
| "cpu_step arch (env, GetCount) g = state_of (android_getCpuCount arch env g)"
| "cpu_step arch (env, GetIdArm) g = state_of (android_getCpuIdArm arch env g)"
| "cpu_step arch (env, SetCpu n f) g = Some (Inr (fst (android_setCpu arch n f g)))"
| "cpu_step arch (env, SetCpuArm n f i) g = Some (Inr (fst (android_setCpuArm arch n f i g)))"

fun cpu_run :: "cpu_arch \<Rightarrow> (cpu_env \<times> cpu_call) list \<Rightarrow> cpu_globals \<Rightarrow> cpu_globals c_result option" where
  "cpu_run arch [] g = Some (Inr g)"
| "cpu_run arch (c # cs) g =
     (case cpu_step arch c g of
        None \<Rightarrow> None
      | Some (Inl e) \<Rightarrow> Some (Inl e)
      | Some (Inr g') \<Rightarrow> cpu_run arch cs g')"

text \<open>
  The interface a client of a once-initialised service relies on: calls on a ready state
  leave it alone, and a call that returns leaves a ready state.
\<close>

locale once_service =
  fixes call :: "'c \<Rightarrow> 's \<Rightarrow> 's c_result option"
    and run :: "'c list \<Rightarrow> 's \<Rightarrow> 's c_result option"
    and ready :: "'s \<Rightarrow> bool"
    and start :: 's
  assumes call_ready: "ready s \<Longrightarrow> call c s = Some (Inr s)"
    and call_readies: "call c start = Some (Inr s') \<Longrightarrow> ready s'"
    and run_Nil: "run [] s = Some (Inr s)"
    and run_Cons: "run (c # cs) s =
      (case call c s of None \<Rightarrow> None | Some (Inl e) \<Rightarrow> Some (Inl e) | Some (Inr s') \<Rightarrow> run cs s')"
begin

lemma run_ready: "ready s \<Longrightarrow> run cs s = Some (Inr s)"
  by (induction cs) (simp_all add: run_Nil run_Cons call_ready)

lemma run_start: "run (c # cs) start = call c start"
  by (auto simp: run_Cons run_ready dest: call_readies split: option.split sum.split)

end

definition cpu_ready :: "cpu_globals \<Rightarrow> bool" where
  "cpu_ready g \<longleftrightarrow> g_once g \<and> g_inited g"

lemma android_cpuInitFamily_frame [simp]:
  "g_once (android_cpuInitFamily arch g) = g_once g"
  "g_inited (android_cpuInitFamily arch g) = g_inited g"
  "g_cpuIdArm (android_cpuInitFamily arch g) = g_cpuIdArm g"
  by (cases arch; simp)+

lemma android_cpuInitFamily_family:
  "g_cpuFamily (android_cpuInitFamily arch g) = g_cpuFamily (android_cpuInitFamily arch g')"
  by (cases arch) simp_all

lemma init_arm_frame:
  assumes "init_arm env cpuinfo g = Inr g'"
  shows "g_once g' = g_once g \<and> g_inited g' = g_inited g \<and> g_cpuCount g' = g_cpuCount g \<and>
    g_cpuFamily g' = g_cpuFamily g"
proof -
  obtain g1 hwcaps g4 where steps:
    "init_arm_arch env cpuinfo g = Inr g1"
    "init_arm_cpuid env cpuinfo cpu_id_entries
       (init_arm_hwcaps2 (get_elf_hwcap_from_getauxval (libc env) AT_HWCAP2) (init_arm_hwcaps hwcaps g1))
       = Inr g4"
    "init_arm_emulator env cpuinfo (init_arm_fixes g4) = Inr g'"
    using assms by (auto simp: init_arm_def Let_def split: sum.splits)
  define fr where "fr g = (g_once g, g_inited g, g_cpuCount g, g_cpuFamily g)" for g :: cpu_globals
  have add: "fr (add_features b f g) = fr g" for b f g by (simp add: fr_def)
  have "fr g1 = fr g"
    using steps(1)
    by (auto simp: init_arm_arch_def Let_def add split: sum.splits option.splits prod.splits if_splits)
  moreover have "fr (init_arm_hwcaps h g) = fr g" "fr (init_arm_hwcaps2 h g) = fr g" for h g
    by (simp_all add: init_arm_hwcaps_def init_arm_hwcaps2_def add Let_def)
  moreover have "fr (init_arm_fixes g) = fr g" for g
    by (simp add: init_arm_fixes_def cpu_fixes_def add)
  moreover have "fr g' = fr (init_arm_fixes g4)"
    using steps(3) by (auto simp: init_arm_emulator_def add split: sum.splits option.splits)
  moreover have "fr g4 = fr (init_arm_hwcaps2 (get_elf_hwcap_from_getauxval (libc env) AT_HWCAP2)
      (init_arm_hwcaps hwcaps g1))"
    using init_arm_cpuid_frame [OF steps(2)] by (simp add: fr_def)
  ultimately have "fr g' = fr g" by simp
  then show ?thesis by (simp add: fr_def)
qed

lemma init_features_frame:
  assumes "init_features arch env cpuinfo g = Inr g'"
  shows "g_once g' = g_once g \<and> g_inited g' = g_inited g \<and> g_cpuCount g' = g_cpuCount g \<and>
    g_cpuFamily g' = g_cpuFamily g"
  using assms init_arm_frame
  by (cases arch)
    (auto simp: init_aarch64_def init_x86_def init_mips_def Let_def split: prod.splits if_splits)

lemma android_cpuInit_ready:
  assumes "android_cpuInit arch env g = Some (Inr g')"
  shows "g_inited g' \<and> g_once g' = g_once g \<and>
    g_cpuFamily g' = g_cpuFamily (android_cpuInitFamily arch g)"
  using assms init_features_frame [of arch env]
  by (fastforce simp: android_cpuInit_def Let_def split: if_splits option.splits prod.splits)

lemma once_cpuInit_ready:
  "once_cpuInit arch env g = Some (Inr g') \<Longrightarrow> cpu_ready g \<or> \<not> g_once g \<Longrightarrow> cpu_ready g'"
  by (auto simp: once_cpuInit_def cpu_ready_def dest: android_cpuInit_ready split: if_splits)

lemmas cpu_api_defs = android_getCpuFamily_def android_getCpuFeatures_def android_getCpuCount_def
  android_getCpuIdArm_def android_setCpu_def android_setCpuArm_def once_cpuInitDummy_def state_of_def

lemma cpu_step_ready: "cpu_ready g \<Longrightarrow> cpu_step arch c g = Some (Inr g)"
  by (cases "(arch, c, g)" rule: cpu_step.cases)
    (auto simp: cpu_api_defs once_cpuInit_def cpu_ready_def)

lemma state_of_getter [simp]: "state_of (map_option (map_sum id (\<lambda>g. (g, f g))) r) = r"
  by (cases r) (simp_all add: state_of_def sum.map_comp comp_def sum.map_ident)

lemma cpu_step_readies: "cpu_step arch c initial_globals = Some (Inr g') \<Longrightarrow> cpu_ready g'"
  by (cases "(arch, c, initial_globals)" rule: cpu_step.cases)
    (auto simp: android_getCpuFamily_def android_getCpuFeatures_def android_getCpuCount_def
      android_getCpuIdArm_def android_setCpu_def android_setCpuArm_def once_cpuInitDummy_def
      initial_globals_def cpu_ready_def dest: once_cpuInit_ready)

interpretation cpu: once_service "cpu_step arch" "cpu_run arch" cpu_ready initial_globals for arch
  by unfold_locales (simp_all add: cpu_step_ready cpu_step_readies)

lemma cpu_first_call_aux:
  "cpu_run arch (c # cs) initial_globals = cpu_run arch [c] initial_globals"
  using cpu.run_start [of arch c cs] cpu.run_start [of arch c "[]"] by simp

text \<open>
  C18.  The first call decides: any later calls, of any kind and in any environment, leave
  the library's state as the first call left it.
\<close>

theorem cpu_first_call_decides:
  "cpu_run arch (c # cs) initial_globals = cpu_run arch [c] initial_globals"
  by (rule cpu_first_call_aux)

lemma get_cpu_count_bounds: "get_cpu_count files = Some n \<Longrightarrow> 0 \<le> n \<and> n \<le> 32"
  using popcount_le [where 'a = 32]
  by (auto simp: get_cpu_count_def cpulist_count_def split: option.splits)

lemma android_cpuInit_count:
  assumes "android_cpuInit arch env g = Some (Inr g')"
  shows "1 \<le> g_cpuCount g' \<and> g_cpuCount g' \<le> 32"
  using assms init_features_frame [of arch env] get_cpu_count_bounds [of "fs env"]
  by (fastforce simp: android_cpuInit_def Let_def split: if_splits option.splits prod.splits)

text \<open>The calls that detect the CPU rather than force it.\<close>

fun detects :: "cpu_call \<Rightarrow> bool" where
  "detects (SetCpu n f) = False"
| "detects (SetCpuArm n f i) = False"
| "detects c = True"

text \<open>
  C20.  After any sequence of calls that returned, the reported number of CPUs is at least
  one, and at most 32 when it was detected; and the reported family is the one the library
  was built for.
\<close>

theorem cpu_count_and_family:
  assumes "cpu_run arch (c # cs) initial_globals = Some (Inr g)"
  shows "1 \<le> g_cpuCount g \<and> (detects (snd c) \<longrightarrow> g_cpuCount g \<le> 32) \<and>
    g_cpuFamily g = g_cpuFamily (android_cpuInitFamily arch initial_globals)"
proof -
  have "cpu_step arch c initial_globals = Some (Inr g)"
    using assms cpu.run_start [of arch c cs] by simp
  moreover have ?thesis if "android_cpuInit arch env (initial_globals\<lparr>g_once := True\<rparr>) = Some (Inr g)" for env
    using android_cpuInit_count [OF that] android_cpuInit_ready [OF that]
      android_cpuInitFamily_family by metis
  ultimately show ?thesis
    by (cases "(arch, c, initial_globals)" rule: cpu_step.cases)
      (auto simp: android_getCpuFamily_def android_getCpuFeatures_def android_getCpuCount_def
        android_getCpuIdArm_def android_setCpu_def android_setCpuArm_def once_cpuInitDummy_def
        once_cpuInit_def initial_globals_def)
qed

theorem cpu_count_and_family_witness:
  "\<exists>g. cpu_run Arch_x86_64 [(example_env, GetCount), (example_env, SetCpu 4 1)] initial_globals
       = Some (Inr g) \<and> 1 \<le> g_cpuCount g \<and> g_cpuCount g \<le> 32"
proof -
  have "\<exists>g. android_cpuInit Arch_x86_64 example_env g0 = Some (Inr g)" for g0
    by (simp add: android_cpuInit_def example_cpuinfo init_x86_def Let_def split: prod.split)
  then obtain g where "android_cpuInit Arch_x86_64 example_env (initial_globals\<lparr>g_once := True\<rparr>) = Some (Inr g)"
    by blast
  then have g: "cpu_run Arch_x86_64 [(example_env, GetCount)] initial_globals = Some (Inr g)"
    by (simp add: android_getCpuCount_def once_cpuInit_def initial_globals_def state_of_def)
  then show ?thesis
    using cpu_first_call_aux [of Arch_x86_64 "(example_env, GetCount)" "[(example_env, SetCpu 4 1)]"]
      cpu_count_and_family [of Arch_x86_64 "(example_env, GetCount)" "[]" g] by auto
qed

text \<open>
  C19.  Forcing the CPU works exactly once and sticks: \<open>android_setCpuArm\<close> as first call
  succeeds, every later call of any kind keeps its values, the getters return them, and a
  second \<open>android_setCpu\<close> fails without effect.
\<close>

theorem set_cpu_sticks:
  "\<exists>g. cpu_run arch ((env, SetCpuArm n features cpu_id) # cs) initial_globals = Some (Inr g) \<and>
     android_getCpuCount arch env' g = Some (Inr (g, max 1 n)) \<and>
     android_getCpuFeatures arch env' g = Some (Inr (g, features)) \<and>
     android_getCpuIdArm arch env' g = Some (Inr (g, cpu_id)) \<and>
     android_setCpu arch n' features' g = (g, False)"
  unfolding cpu.run_start
  by (cases arch)
    (auto simp: android_setCpuArm_def android_setCpu_def once_cpuInitDummy_def initial_globals_def
      android_getCpuCount_def android_getCpuFeatures_def android_getCpuIdArm_def once_cpuInit_def)

text \<open>
  C34.  The emulator's special case does not look at the features: on a device with the
  emulator's hardware name and CPU id the ARM division instructions are reported whatever the
  architecture and the hardware capabilities say, since the condition tests the family
  \<open>ANDROID_CPU_FAMILY_ARM\<close> against the bit of \<open>ANDROID_CPU_ARM_FEATURE_ARMv7\<close>.
\<close>

theorem emulator_idiv_without_armv7:
  assumes "init_arm env cpuinfo g = Inr g'" "g_cpuFamily g = ANDROID_CPU_FAMILY_ARM"
    and "extract_cpuinfo_field (malloc_ok env) cpuinfo ''Hardware'' = Inr (Some ''Goldfish'')"
    and "g_cpuIdArm g' = 0x4100c080"
  shows "has_flag (g_cpuFeatures g') ARM_IDIV_ARM"
proof -
  obtain g4 where last: "init_arm_emulator env cpuinfo g4 = Inr g'"
    using assms(1) by (auto simp: init_arm_def Let_def split: sum.splits)
  have "g_cpuFamily g4 = g_cpuFamily g'" "g_cpuIdArm g4 = g_cpuIdArm g'"
    using last by (auto simp: init_arm_emulator_def split: sum.splits option.splits)
  then have "g' = add_features True ARM_IDIV_ARM g4"
    using last assms(2-4) init_arm_frame [OF assms(1)]
    by (simp add: init_arm_emulator_def ARM_ARMv7_def flag_def)
  then show ?thesis by (simp add: arm_defs)
qed

text \<open>
  An emulator of an ARMv6 CPU, whose capabilities are the half-word instructions alone: the public
  function reports the division without ARMv7.
\<close>

definition goldfish_text :: "char list" where
  "goldfish_text = ''CPU implementer: 0x41'' @ [newline] @ ''CPU architecture: 6'' @ [newline] @
     ''CPU part: 0xc08'' @ [newline] @ ''Hardware: Goldfish'' @ [newline]"

definition goldfish_env :: cpu_env where
  "goldfish_env = example_env\<lparr>fs_size := [''/proc/cpuinfo'' \<mapsto> [Bytes goldfish_text]],
     fs := [''/proc/cpuinfo'' \<mapsto> [Bytes goldfish_text]],
     libc := Getauxval (\<lambda>t. if t = AT_HWCAP then flag 1 else 0)\<rparr>"

lemma goldfish_cpuinfo:
  "get_file_size (fs_size goldfish_env) ''/proc/cpuinfo'' = 77"
  "read_file (fs goldfish_env) ''/proc/cpuinfo'' 77 = (77, goldfish_text)"
  "get_cpu_count (fs goldfish_env) = Some 0"
  by (simp_all add: goldfish_env_def get_file_size_def file_size_loop.simps read_file_def
      read_file_loop.simps c_int_def get_cpu_count_def cpulist_read_from_def cpulist_init_def
      cpulist_and_def cpulist_count_def popcount_def goldfish_text_def)

lemma goldfish_fields:
  "extract_cpuinfo_field (\<lambda>n. True) goldfish_text ''CPU architecture'' = Inr (Some ''6'')"
  "extract_cpuinfo_field (\<lambda>n. True) goldfish_text ''CPU implementer'' = Inr (Some ''0x41'')"
  "extract_cpuinfo_field (\<lambda>n. True) goldfish_text ''CPU variant'' = Inr None"
  "extract_cpuinfo_field (\<lambda>n. True) goldfish_text ''CPU part'' = Inr (Some ''0xc08'')"
  "extract_cpuinfo_field (\<lambda>n. True) goldfish_text ''CPU revision'' = Inr None"
  "extract_cpuinfo_field (\<lambda>n. True) goldfish_text ''Hardware'' = Inr (Some ''Goldfish'')"
  by code_simp+

lemma goldfish_numbers:
  "strtol10 ''6'' = (6, 1)" "cpu_id_number (CHR ''x'') ''0x41'' = Some 0x41"
  "cpu_id_number (CHR ''x'') ''0xc08'' = Some 0xc08"
  by code_simp+

lemma goldfish_init:
  assumes "g_cpuFeatures g = 0" "g_cpuIdArm g = 0"
  shows "\<exists>g'. init_arm goldfish_env goldfish_text g = Inr g' \<and> g_cpuIdArm g' = 0x4100c080 \<and>
    \<not> has_flag (g_cpuFeatures g') ARM_ARMv7"
proof -
  have m: "malloc_ok goldfish_env = (\<lambda>n. True)" by (simp add: goldfish_env_def example_env_def)
  have hw: "arm_hwcaps goldfish_env goldfish_text = Inr (flag 1)"
    "get_elf_hwcap_from_getauxval (libc goldfish_env) AT_HWCAP2 = 0"
    by (simp_all add: arm_hwcaps_def goldfish_env_def flag_def AT_HWCAP2_def AT_HWCAP_def)
  show ?thesis
    using assms
    by (simp add: init_arm_def init_arm_arch_def m goldfish_fields goldfish_numbers hw
        init_arm_hwcaps2_def cpu_id_entries_def init_arm_fixes_def
        init_arm_emulator_def init_arm_hwcaps_def hwcap_defs arm_defs cpu_fixes_def Let_def
        flag_def has_flag_def add_features_def)
qed

theorem emulator_idiv_without_armv7_witness:
  "\<exists>g features. android_getCpuFeatures Arch_arm goldfish_env initial_globals = Some (Inr (g, features)) \<and>
     has_flag features ARM_IDIV_ARM \<and> \<not> has_flag features ARM_ARMv7 \<and>
     arm_hwcaps goldfish_env goldfish_text = Inr (flag 1) \<and> \<not> has_flag (flag 1) HWCAP_IDIVA"
proof -
  let ?g = "initial_globals\<lparr>g_once := True, g_cpuFamily := ANDROID_CPU_FAMILY_ARM, g_cpuFeatures := 0,
    g_cpuCount := 1, g_inited := True\<rparr>"
  obtain g' where g': "init_arm goldfish_env goldfish_text ?g = Inr g'" "g_cpuIdArm g' = 0x4100c080"
    "\<not> has_flag (g_cpuFeatures g') ARM_ARMv7"
    using goldfish_init [of ?g] by (auto simp: initial_globals_def)
  have m: "malloc_ok goldfish_env = (\<lambda>n. True)" by (simp add: goldfish_env_def example_env_def)
  have "has_flag (g_cpuFeatures g') ARM_IDIV_ARM"
    using emulator_idiv_without_armv7 [OF g'(1)] g'(2) by (simp add: m goldfish_fields)
  moreover have "android_getCpuFeatures Arch_arm goldfish_env initial_globals = Some (Inr (g', g_cpuFeatures g'))"
    using g'(1) by (simp add: android_getCpuFeatures_def once_cpuInit_def initial_globals_def android_cpuInit_def
        goldfish_cpuinfo m Let_def)
  moreover have "arm_hwcaps goldfish_env goldfish_text = Inr (flag 1)" "\<not> has_flag (flag 1) HWCAP_IDIVA"
    by (simp_all add: arm_hwcaps_def goldfish_env_def flag_def hwcap_defs has_flag_def)
  ultimately show ?thesis using g'(3) by blast
qed

end
