(* ===== verification/StdMap.thy ===== *)
theory StdMap
  imports NdkPrelude "HOL-Library.Char_ord" "HOL-Library.List_Lexorder"
begin

text \<open>
  The parts of \<open>std::map\<close> that \<open>ndk-depends.cc\<close> uses, as association lists sorted by key:
  iteration from \<open>begin()\<close> to \<open>end()\<close> is the list itself, in the order \<open>operator<\<close> gives the
  keys (for strings: lexicographic on unsigned bytes).  The locale \<open>std_map_ops\<close> is the
  interface its clients rely on.
\<close>

type_synonym ('k, 'v) std_map = "('k \<times> 'v) list"

fun map_put :: "'k::linorder \<Rightarrow> 'v \<Rightarrow> ('k, 'v) std_map \<Rightarrow> ('k, 'v) std_map" where
  "map_put k v [] = [(k, v)]"
| "map_put k v ((k', v') # m) =
     (if k < k' then (k, v) # (k', v') # m
      else if k = k' then (k, v) # m
      else (k', v') # map_put k v m)"

definition map_erase :: "'k \<Rightarrow> ('k, 'v) std_map \<Rightarrow> ('k, 'v) std_map" where
  "map_erase k m = filter (\<lambda>p. fst p \<noteq> k) m"

definition map_at :: "'v \<Rightarrow> 'k::linorder \<Rightarrow> ('k, 'v) std_map \<Rightarrow> 'v \<times> ('k, 'v) std_map" where
  "map_at v0 k m = (case map_of m k of Some v \<Rightarrow> (v, m) | None \<Rightarrow> (v0, map_put k v0 m))"

definition keys :: "('k, 'v) std_map \<Rightarrow> 'k list" where
  "keys m = map fst m"

definition sorted_map :: "('k::linorder, 'v) std_map \<Rightarrow> bool" where
  "sorted_map m \<longleftrightarrow> sorted_wrt (<) (keys m)"

lemma sorted_map_Nil [simp]: "sorted_map []"
  by (simp add: sorted_map_def keys_def)

lemma sorted_map_Cons:
  "sorted_map ((k, v) # m) \<longleftrightarrow> (\<forall>k'\<in>fst ` set m. k < k') \<and> sorted_map m"
  by (auto simp: sorted_map_def keys_def)

lemma set_map_put: "fst ` set (map_put k v m) = insert k (fst ` set m)"
proof (induction m)
  case (Cons p m)
  then show ?case by (cases p) (simp add: insert_commute)
qed simp

lemma sorted_map_put [simp]: "sorted_map m \<Longrightarrow> sorted_map (map_put k v m)"
proof (induction m)
  case (Cons p m)
  then show ?case by (cases p) (auto simp: sorted_map_Cons set_map_put intro: less_trans)
qed (simp add: sorted_map_Cons)

lemma map_of_less_None: "\<forall>k'\<in>fst ` set m. k < k' \<Longrightarrow> map_of m (k::'k::linorder) = None"
  by (metis less_irrefl map_of_eq_None_iff)

lemma map_of_put [simp]: "sorted_map m \<Longrightarrow> map_of (map_put k v m) = (map_of m)(k \<mapsto> v)"
proof (induction m)
  case (Cons p m)
  then show ?case by (cases p) (auto simp: sorted_map_Cons fun_eq_iff)
qed auto

lemma sorted_map_erase [simp]: "sorted_map m \<Longrightarrow> sorted_map (map_erase k m)"
  by (induction m) (auto simp: sorted_map_Cons map_erase_def)

lemma map_of_erase [simp]: "map_of (map_erase k m) = (map_of m)(k := None)"
  by (induction m) (auto simp: map_erase_def fun_eq_iff)

lemma sorted_map_distinct: "sorted_map m \<Longrightarrow> distinct (map fst m)"
  by (simp add: sorted_map_def keys_def strict_sorted_iff)

lemma map_of_entry: "sorted_map m \<Longrightarrow> (k, v) \<in> set m \<longleftrightarrow> map_of m k = Some v"
  by (metis map_of_SomeD map_of_is_SomeI sorted_map_distinct)

lemma map_at_dom: "sorted_map m \<Longrightarrow> map_of m k = Some v \<Longrightarrow> map_at v0 k m = (v, m)"
  by (simp add: map_at_def)

lemma map_erase_length: "map_of m k = Some v \<Longrightarrow> length (map_erase k m) < length m"
  unfolding map_erase_def by (metis (mono_tags, lifting) fst_conv length_filter_less map_of_SomeD)


section \<open>The interface of the maps\<close>

text \<open>
  A map under lookups, stores and erasures.  The client lemmas are about a loop that
  updates the entry of each key of a sequence, as the counting loops of the sorter do: an
  entry is updated as often as its key occurs.
\<close>

locale std_map_ops =
  fixes find :: "'m \<Rightarrow> 'k \<Rightarrow> 'v option"
    and put :: "'k \<Rightarrow> 'v \<Rightarrow> 'm \<Rightarrow> 'm"
    and erase :: "'k \<Rightarrow> 'm \<Rightarrow> 'm"
    and valid :: "'m \<Rightarrow> bool"
  assumes valid_put: "valid m \<Longrightarrow> valid (put k v m)"
    and valid_erase: "valid m \<Longrightarrow> valid (erase k m)"
    and find_put: "valid m \<Longrightarrow> find (put k v m) = (find m)(k \<mapsto> v)"
    and find_erase: "valid m \<Longrightarrow> find (erase k m) = (find m)(k := None)"
begin

lemma valid_update_all:
  "valid m \<Longrightarrow> valid (fold (\<lambda>k m. put k (f (find m k)) m) ks m)"
  by (induction ks arbitrary: m) (simp_all add: valid_put)

lemma find_update_all:
  "valid m \<Longrightarrow> find (fold (\<lambda>k m. put k (f (find m k)) m) ks m) k =
     ((\<lambda>old. Some (f old)) ^^ count_list ks k) (find m k)"
proof (induction ks arbitrary: m)
  case (Cons k' ks)
  then show ?case
    using funpow_swap1 [of "\<lambda>old. Some (f old)" "count_list ks k" "find m k"]
    by (simp add: valid_put find_put)
qed simp

lemma dom_update_all:
  assumes "valid m"
  shows "dom (find (fold (\<lambda>k m. put k (f (find m k)) m) ks m)) = dom (find m) \<union> set ks"
proof -
  have "((\<lambda>old. Some (f old)) ^^ n) x \<noteq> None \<longleftrightarrow> x \<noteq> None \<or> n \<noteq> 0" for n x
    by (cases n) auto
  then have "x \<in> dom (find (fold (\<lambda>k m. put k (f (find m k)) m) ks m)) \<longleftrightarrow> x \<in> dom (find m) \<union> set ks" for x
    using count_list_0_iff [of ks x] by (simp only: find_update_all [OF assms] domIff Un_iff) blast
  then show ?thesis by blast
qed

lemma erase_update_frame:
  "valid m \<Longrightarrow> k \<notin> set ks \<Longrightarrow> k \<noteq> k' \<Longrightarrow>
     find (fold (\<lambda>k m. put k (f (find m k)) m) ks (erase k' m)) k = find m k"
  by (simp add: find_update_all valid_erase find_erase count_list_0_iff)

end

interpretation smap: std_map_ops map_of map_put map_erase sorted_map
  by unfold_locales simp_all

end
