(* ===== verification/DependsPaths.thy ===== *)
theory DependsPaths
  imports StdMap "HOL-Library.Monad_Syntax"
begin

text \<open>
  The utilities of \<open>sources/host-tools/ndk-depends/ndk-depends.cc\<close>: messages and panics,
  path names, the host's library search path (\<open>LD_LIBRARY_PATH\<close> and \<open>/etc/ld.so.conf\<close>),
  the tests on library names and the search for a library file.  The host is an ELF-based
  Linux; the functions on path names also cover the Windows build.
\<close>

section \<open>Messages\<close>

text \<open>
  The two output streams and the verbosity.  The program may end inside a function: by
  \<open>exit\<close>, with a code and what was printed, or by a fault.
\<close>

record console =
  g_verbose :: int
  out :: string
  err :: string

datatype program_end = Exit int console | Crash c_fault

type_synonym 'a exits = "program_end + 'a"

definition tprintf :: "string \<Rightarrow> console \<Rightarrow> console" where
  "tprintf text con = con\<lparr>out := out con @ text\<rparr>"

definition eprintf :: "string \<Rightarrow> console \<Rightarrow> console" where
  "eprintf text con = con\<lparr>err := err con @ text\<rparr>"

definition MESSAGE_FLAG_PANIC :: u32 where "MESSAGE_FLAG_PANIC = flag 0"
definition MESSAGE_FLAG_ERRNO :: u32 where "MESSAGE_FLAG_ERRNO = flag 1"

definition vmessage :: "u32 \<Rightarrow> string \<Rightarrow> string \<Rightarrow> console \<Rightarrow> console exits" where
  "vmessage flags errno_text msg con =
     (let con1 = (if has_flag flags MESSAGE_FLAG_PANIC then eprintf ''ERROR: '' con else con);
          con2 = eprintf msg con1;
          con3 = (if has_flag flags MESSAGE_FLAG_ERRNO then eprintf ('': '' @ errno_text) con2 else con2);
          con4 = eprintf [newline] con3
      in if has_flag flags MESSAGE_FLAG_PANIC then Inl (Exit 1 con4) else Inr con4)"

definition panic :: "string \<Rightarrow> string \<Rightarrow> console \<Rightarrow> console exits" where
  "panic errno_text msg con = vmessage MESSAGE_FLAG_PANIC errno_text msg con"

definition log_n :: "int \<Rightarrow> string \<Rightarrow> console \<Rightarrow> console" where
  "log_n n text con = (if g_verbose con \<ge> n then tprintf text con else con)"

lemma panic_exits: "\<exists>con'. panic e msg con = Inl (Exit 1 con')"
  by (simp add: panic_def vmessage_def MESSAGE_FLAG_PANIC_def Let_def)

lemma panic_never_Inr [simp]: "panic e msg con \<noteq> Inr x"
  using panic_exits [of e msg con] by auto

lemma verbose_frame [simp]:
  "g_verbose (tprintf t con) = g_verbose con"
  "g_verbose (eprintf t con) = g_verbose con"
  "g_verbose (log_n n t con) = g_verbose con"
  by (simp_all add: tprintf_def eprintf_def log_n_def)


text \<open>Without verbosity, nothing but messages to the error stream is printed on the way.\<close>

definition quiet :: "console \<Rightarrow> console \<Rightarrow> bool" where
  "quiet con con' \<longleftrightarrow> (g_verbose con = 0 \<longrightarrow> g_verbose con' = 0 \<and> out con' = out con)"

lemma quiet_refl [simp]: "quiet con con"
  by (simp add: quiet_def)

lemma quiet_trans: "quiet con1 con2 \<Longrightarrow> quiet con2 con3 \<Longrightarrow> quiet con1 con3"
  by (simp add: quiet_def)

lemma quiet_eprintf [simp]: "quiet con0 (eprintf t con) \<longleftrightarrow> quiet con0 con"
  by (simp add: quiet_def eprintf_def)

lemma quiet_log_n [simp]: "1 \<le> n \<Longrightarrow> quiet con0 con \<Longrightarrow> quiet con0 (log_n n t con)"
  by (simp add: quiet_def log_n_def tprintf_def)

lemma quiet_fold_log: "quiet con0 con \<Longrightarrow> quiet con0 (fold (\<lambda>x. log_n 1 (f x)) xs con)"
  by (induction xs arbitrary: con) simp_all


section \<open>Path names\<close>

text \<open>\<open>win\<close> tells the Windows build; \<open>None\<close> is \<open>std::string::npos\<close>.\<close>

definition path_last_dirsep :: "bool \<Rightarrow> string \<Rightarrow> nat option" where
  "path_last_dirsep win filepath =
     (if win then
        let sep_slash = strrchr (CHR ''/'') filepath;
            sep_backslash = strrchr (CHR 0x5C) filepath
        in case sep_slash of
             None \<Rightarrow> sep_backslash
           | Some i \<Rightarrow> (case sep_backslash of None \<Rightarrow> sep_slash | Some j \<Rightarrow> Some (max i j))
      else strrchr (CHR ''/'') filepath)"

definition path_dirname :: "bool \<Rightarrow> string \<Rightarrow> string" where
  "path_dirname win filepath =
     (case path_last_dirsep win filepath of
        None \<Rightarrow> ''.''
      | Some sep \<Rightarrow> if sep = 0 then ''/'' else take sep filepath)"

definition path_basename :: "bool \<Rightarrow> string \<Rightarrow> string" where
  "path_basename win filepath =
     (case path_last_dirsep win filepath of
        None \<Rightarrow> filepath
      | Some sep \<Rightarrow> drop (sep + 1) filepath)"


section \<open>The host\<close>

text \<open>
  What the program asks of its host: files by path (their bytes, or the error text of
  \<open>fopen\<close>, which may depend on the number of files that are open), the error text of a short \<open>fread\<close>, what \<open>stat\<close> says, the environment, and the
  file names that match a glob pattern (\<open>None\<close> when \<open>glob\<close> does not return 0).
\<close>

datatype file_kind = Regular | Directory | OtherFile

record host =
  fopen :: "nat \<Rightarrow> string \<Rightarrow> string + char list"
  fread_error :: "string \<Rightarrow> string"
  stat :: "string \<Rightarrow> string + file_kind"
  getenv :: "string \<Rightarrow> string option"
  glob :: "string \<Rightarrow> string list option"


section \<open>The search path\<close>

definition IsLdSoConfSeparator :: "char \<Rightarrow> bool" where
  "IsLdSoConfSeparator ch \<longleftrightarrow>
     ch = CHR '' '' \<or> ch = tab \<or> ch = carriage_return \<or> ch = newline \<or> ch = CHR '','' \<or> ch = CHR '':''"

text \<open>
  \<open>fgets\<close> with a buffer of \<open>size\<close> bytes: at most \<open>size - 1\<close> bytes, up to and including a
  newline.
\<close>

function conf_lines :: "char list \<Rightarrow> char list list" where
  "conf_lines [] = []"
| "conf_lines (c # cs) =
     (let n = fgets_length 1023 (c # cs) in take n (c # cs) # conf_lines (drop n (c # cs)))"
  by pat_completeness auto
termination
  by (relation "measure length") (auto simp: Let_def)

text \<open>The text of a line: a C string without its trailing newlines.\<close>

definition conf_text :: "char list \<Rightarrow> char list" where
  "conf_text line = rev (dropWhile (\<lambda>c. c = newline) (rev (c_string line)))"

text \<open>What a line of the file asks for: a directory to add or a pattern to include.\<close>

datatype conf_item = Include string | Dir string

lemma conf_token_shrinks:
  assumes "dropWhile IsLdSoConfSeparator pos \<noteq> []"
    and "hd (dropWhile IsLdSoConfSeparator pos) \<noteq> CHR ''#''"
  shows "length (dropWhile (\<lambda>c. \<not> IsLdSoConfSeparator c \<and> c \<noteq> CHR ''#'')
    (dropWhile IsLdSoConfSeparator pos)) < length pos"
proof (cases "dropWhile IsLdSoConfSeparator pos")
  case (Cons c t)
  have "\<not> IsLdSoConfSeparator c" using Cons hd_dropWhile [OF assms(1)] by simp
  moreover have "length (c # t) \<le> length pos"
    using length_dropWhile_le [of IsLdSoConfSeparator pos] Cons by simp
  moreover have "length (dropWhile (\<lambda>c. \<not> IsLdSoConfSeparator c \<and> c \<noteq> CHR ''#'') t) \<le> length t"
    by (rule length_dropWhile_le)
  ultimately show ?thesis using assms(2) Cons by simp
qed (use assms in simp)

function conf_items :: "bool \<Rightarrow> char list \<Rightarrow> conf_item list" where
  "conf_items prev_is_include pos =
     (let s = dropWhile IsLdSoConfSeparator pos in
      if s = [] \<or> hd s = CHR ''#'' then []
      else
        let item = takeWhile (\<lambda>c. \<not> IsLdSoConfSeparator c \<and> c \<noteq> CHR ''#'') s;
            next_pos = dropWhile (\<lambda>c. \<not> IsLdSoConfSeparator c \<and> c \<noteq> CHR ''#'') s
        in if prev_is_include then
             (if item = [] then [] else Include item # conf_items False next_pos)
           else if item = ''include'' then conf_items True next_pos
           else if item \<noteq> [] then Dir item # conf_items False next_pos
           else conf_items False next_pos)"
  by pat_completeness auto
termination
  by (relation "measure (\<lambda>(_, s). length s)") (simp_all add: conf_token_shrinks)

declare conf_items.simps [simp del]

text \<open>A directory item: it is added when \<open>stat\<close> says that it is one.\<close>

definition conf_dir :: "host \<Rightarrow> string \<Rightarrow> string list \<times> console \<Rightarrow> string list \<times> console" where
  "conf_dir host dirpath = (\<lambda>(lib_search_path, con).
     (case stat host dirpath of
        Inl error \<Rightarrow>
          (lib_search_path,
           log_n 1 (''Could not stat(): '' @ dirpath @ '': '' @ error @ [newline]) con)
      | Inr Directory \<Rightarrow> (lib_search_path @ [dirpath], con)
      | Inr _ \<Rightarrow> (lib_search_path, log_n 1 (''Not a directory: '' @ dirpath @ [newline]) con)))"

text \<open>A loop over a list whose body may not return.\<close>

primrec fold_opt :: "('a \<Rightarrow> 's \<Rightarrow> 's option) \<Rightarrow> 'a list \<Rightarrow> 's \<Rightarrow> 's option" where
  "fold_opt f [] s = Some s"
| "fold_opt f (x # xs) s = Option.bind (f x s) (fold_opt f xs)"

lemma fold_opt_append: "fold_opt f (xs @ ys) s = Option.bind (fold_opt f xs s) (fold_opt f ys)"
proof (induction xs arbitrary: s)
  case (Cons x xs)
  then show ?case by (cases "f x s") simp_all
qed simp

lemma fold_opt_mono [partial_function_mono]:
  assumes "\<And>x s. mono_option (\<lambda>F. B F x s)"
  shows "mono_option (\<lambda>F. fold_opt (B F) xs s)"
proof (induction xs arbitrary: s)
  case (Cons x xs)
  then show ?case by (simp add: bind_mono assms)
qed (simp add: option.const_mono)

text \<open>
  A file stays open while the files that it includes are read, so that the number of open files
  is an argument.  \<open>None\<close> is an include that never ends.
\<close>

partial_function (option) AddHostLdSoConfPaths ::
    "host \<Rightarrow> nat \<Rightarrow> string \<Rightarrow> string list \<times> console \<Rightarrow> (string list \<times> console) option" where
  "AddHostLdSoConfPaths host opened ld_so_conf_path st =
     (case fopen host opened ld_so_conf_path of
        Inl error \<Rightarrow> Some st
      | Inr content \<Rightarrow>
          fold_opt
            (\<lambda>item st.
               case item of
                 Dir dirpath \<Rightarrow> Some (conf_dir host dirpath st)
               | Include pattern \<Rightarrow>
                   (case glob host pattern of
                      None \<Rightarrow> Some st
                    | Some paths \<Rightarrow> fold_opt (\<lambda>filepath st. AddHostLdSoConfPaths host (opened + 1) filepath st) paths st))
            (concat (map (\<lambda>line. conf_items False (conf_text line)) (conf_lines content))) st)"

declare AddHostLdSoConfPaths.simps [code]

text \<open>The items of \<open>LD_LIBRARY_PATH\<close>; an empty item is the current directory.\<close>

function ld_library_path :: "char list \<Rightarrow> string list" where
  "ld_library_path pos =
     (if pos = [] then []
      else
        let (path_len, next_pos) =
          (case memchr (CHR '':'') pos of
             None \<Rightarrow> (length pos, length pos)
           | Some i \<Rightarrow> (i, i + 1))
        in (if path_len = 0 then ''.'' else take path_len pos) # ld_library_path (drop next_pos pos))"
  by pat_completeness auto
termination
  by (relation "measure length") (auto split: option.splits)

declare ld_library_path.simps [simp del]

definition AddHostLibraryPaths ::
    "host \<Rightarrow> string list \<times> console \<Rightarrow> (string list \<times> console) option" where
  "AddHostLibraryPaths host = (\<lambda>(lib_search_path, con).
     (let lib_search_path1 =
        (case getenv host ''LD_LIBRARY_PATH'' of
           None \<Rightarrow> lib_search_path
         | Some env \<Rightarrow> lib_search_path @ ld_library_path env)
      in AddHostLdSoConfPaths host 0 ''/etc/ld.so.conf'' (lib_search_path1, con)))"


section \<open>Library names and the search for a file\<close>

definition kAndroidSystemLibs :: "string list" where
  "kAndroidSystemLibs =
     [''libc.so'', ''libdl.so'', ''liblog.so'', ''libm.so'', ''libstdc++.so'', ''libz.so'',
      ''libandroid.so'', ''libjnigraphics.so'', ''libEGL.so'', ''libGLESv1_CM.so'',
      ''libGLESv2.so'', ''libOpenSLES.so'', ''libOpenMAXAL.so'']"

definition IsAndroidSystemLib :: "string \<Rightarrow> bool" where
  "IsAndroidSystemLib libname \<longleftrightarrow> libname \<in> set kAndroidSystemLibs"

definition IsAndroidNdkCompatibleLib :: "string \<Rightarrow> bool" where
  "IsAndroidNdkCompatibleLib libname \<longleftrightarrow>
     length libname > 6 \<and> take 3 libname = ''lib'' \<and> drop (length libname - 3) libname = ''.so''"

text \<open>The path tried for a library in one directory of the search path.\<close>

definition candidate :: "string \<Rightarrow> string \<Rightarrow> string" where
  "candidate dir libname =
     (if last dir \<noteq> CHR ''/'' \<and> last dir \<noteq> CHR 0x5C then dir @ ''/'' else dir) @ libname"

fun FindLibraryLoop ::
    "host \<Rightarrow> string \<Rightarrow> string list \<Rightarrow> console \<Rightarrow> string option \<times> console" where
  "FindLibraryLoop host libname [] con = (None, con)"
| "FindLibraryLoop host libname (dir # search_paths) con =
     (if dir = [] then FindLibraryLoop host libname search_paths con
      else
        let file_path = candidate dir libname;
            con1 = log_n 2 (''    in '' @ file_path @ '': '') con
        in case stat host file_path of
             Inl error \<Rightarrow> FindLibraryLoop host libname search_paths (log_n 2 (error @ [newline]) con1)
           | Inr Regular \<Rightarrow> (Some file_path, log_n 2 (''OK'' @ [newline]) con1)
           | Inr _ \<Rightarrow>
               FindLibraryLoop host libname search_paths
                 (log_n 2 (''Not a regular file!'' @ [newline]) con1))"

definition FindLibraryPath ::
    "host \<Rightarrow> string \<Rightarrow> string list \<Rightarrow> console \<Rightarrow> string option \<times> console" where
  "FindLibraryPath host libname search_paths con =
     FindLibraryLoop host libname search_paths
       (log_n 2 (''  looking for library: '' @ libname @ [newline]) con)"

section \<open>Properties of the paths\<close>

lemma strrchr_None [simp]: "strrchr c xs = None \<longleftrightarrow> c \<notin> set xs"
  by (induction xs) (auto split: option.splits)

lemma strrchr_Some_split:
  "strrchr c xs = Some i \<Longrightarrow> xs = take i xs @ c # drop (i + 1) xs \<and> c \<notin> set (drop (i + 1) xs)"
proof (induction xs arbitrary: i)
  case (Cons x xs)
  then show ?case by (cases i) (auto split: option.splits if_splits)
qed simp

text \<open>The basename is the part after the last slash, the directory name the part before.\<close>

lemma path_split:
  "CHR ''/'' \<in> set f \<Longrightarrow>
     \<exists>dir. f = dir @ CHR ''/'' # path_basename False f \<and> CHR ''/'' \<notin> set (path_basename False f) \<and>
       path_dirname False f = (if dir = [] then ''/'' else dir)"
  "CHR ''/'' \<notin> set f \<Longrightarrow> path_basename False f = f \<and> path_dirname False f = ''.''"
proof -
  assume "CHR ''/'' \<in> set f"
  then obtain i where i: "strrchr (CHR ''/'') f = Some i"
    using strrchr_None by (metis not_Some_eq)
  have split: "f = take i f @ CHR ''/'' # drop (i + 1) f"
    and no_slash: "CHR ''/'' \<notin> set (drop (i + 1) f)"
    using strrchr_Some_split [OF i] by blast+
  have "f \<noteq> []" using \<open>CHR ''/'' \<in> set f\<close> by auto
  have "path_basename False f = drop (i + 1) f"
    "path_dirname False f = (if take i f = [] then ''/'' else take i f)"
    using i \<open>f \<noteq> []\<close> by (simp_all add: path_basename_def path_dirname_def path_last_dirsep_def)
  then show "\<exists>dir. f = dir @ CHR ''/'' # path_basename False f \<and> CHR ''/'' \<notin> set (path_basename False f) \<and>
       path_dirname False f = (if dir = [] then ''/'' else dir)"
    using split no_slash by (intro exI [of _ "take i f"]) simp
next
  assume "CHR ''/'' \<notin> set f"
  then show "path_basename False f = f \<and> path_dirname False f = ''.''"
    by (simp add: path_basename_def path_dirname_def path_last_dirsep_def strrchr_None [THEN iffD2])
qed

text \<open>The search tries the directories in order and takes the first regular file.\<close>

lemma FindLibraryLoop_find:
  "fst (FindLibraryLoop host libname dirs con) =
     find (\<lambda>p. stat host p = Inr Regular) (map (\<lambda>d. candidate d libname) (filter (\<lambda>d. d \<noteq> []) dirs))"
  by (induction host libname dirs con rule: FindLibraryLoop.induct)
    (auto simp: Let_def split: sum.splits file_kind.splits)

lemma FindLibraryPath_find:
  "fst (FindLibraryPath host libname dirs con) =
     find (\<lambda>p. stat host p = Inr Regular) (map (\<lambda>d. candidate d libname) (filter (\<lambda>d. d \<noteq> []) dirs))"
  by (simp add: FindLibraryPath_def FindLibraryLoop_find)

lemma FindLibraryLoop_quiet: "quiet con0 con \<Longrightarrow> quiet con0 (snd (FindLibraryLoop host libname dirs con))"
  by (induction host libname dirs con rule: FindLibraryLoop.induct)
    (auto simp: Let_def split: sum.splits file_kind.splits)

lemma FindLibraryPath_quiet: "quiet con (snd (FindLibraryPath host libname dirs con))"
  by (simp add: FindLibraryPath_def FindLibraryLoop_quiet)

text \<open>The items of a path list, joined by colons.\<close>

fun join_paths :: "string list \<Rightarrow> string" where
  "join_paths [] = []"
| "join_paths [p] = p"
| "join_paths (p # ps) = p @ CHR '':'' # join_paths ps"

lemma ld_library_path_Cons:
  assumes "CHR '':'' \<notin> set p"
  shows "ld_library_path (p @ CHR '':'' # rest) = (if p = [] then ''.'' else p) # ld_library_path rest"
  using assms by (subst ld_library_path.simps) (simp add: memchr_append_first)

lemma ld_library_path_last:
  "CHR '':'' \<notin> set p \<Longrightarrow> p \<noteq> [] \<Longrightarrow> ld_library_path p = [p]"
  by (subst ld_library_path.simps)
    (simp add: memchr_None [THEN iffD2] ld_library_path.simps [of "[]"])

text \<open>
  C26.  \<open>LD_LIBRARY_PATH\<close> is split at its colons, an empty item standing for the current
  directory; an empty item at the very end is dropped.
\<close>

theorem ld_library_path_roundtrip:
  assumes "\<forall>p\<in>set ps. CHR '':'' \<notin> set p"
  shows "ld_library_path (join_paths ps) =
    map (\<lambda>p. if p = [] then ''.'' else p) (if ps \<noteq> [] \<and> last ps = [] then butlast ps else ps)"
  using assms
proof (induction ps rule: join_paths.induct)
  case 1
  show ?case by (simp add: ld_library_path.simps)
next
  case (2 p)
  then show ?case by (cases "p = []") (simp_all add: ld_library_path_last ld_library_path.simps [of "[]"])
next
  case (3 p q ps)
  then show ?case by (simp add: ld_library_path_Cons)
qed

theorem ld_library_path_roundtrip_witness:
  "ld_library_path ''/usr/lib::lib:'' = [''/usr/lib'', ''.'', ''lib'']"
  using ld_library_path_roundtrip [of "[''/usr/lib'', [], ''lib'', []]"] by simp


section \<open>Includes of \<open>ld.so.conf\<close>\<close>

text \<open>The files that a file includes.\<close>

definition conf_file_items :: "char list \<Rightarrow> conf_item list" where
  "conf_file_items content =
     concat (map (\<lambda>line. conf_items False (conf_text line)) (conf_lines content))"

text \<open>
  A chain of includes, with the number of files that are open when a file is opened.
\<close>

definition conf_includes :: "host \<Rightarrow> nat \<times> string \<Rightarrow> nat \<times> string \<Rightarrow> bool" where
  "conf_includes host conf conf' \<longleftrightarrow>
     (\<exists>content pattern paths. fopen host (fst conf) (snd conf) = Inr content \<and>
        Include pattern \<in> set (conf_file_items content) \<and>
        glob host pattern = Some paths \<and> snd conf' \<in> set paths \<and> fst conf' = fst conf + 1)"

lemma fold_opt_returns:
  "(\<And>x s. x \<in> set xs \<Longrightarrow> P s \<Longrightarrow> \<exists>s'. f x s = Some s' \<and> P s') \<Longrightarrow> P s \<Longrightarrow>
     \<exists>s'. fold_opt f xs s = Some s' \<and> P s'"
proof (induction xs arbitrary: s)
  case (Cons x xs)
  from Cons.prems(1) [of x s] Cons.prems(2) obtain s' where "f x s = Some s'" "P s'" by auto
  moreover have "\<exists>s''. fold_opt f xs s' = Some s'' \<and> P s''"
    using Cons.IH [of s'] Cons.prems(1) \<open>P s'\<close> by auto
  ultimately show ?case by simp
qed simp

lemma conf_dir_adds_directory:
  "\<exists>ds. fst (conf_dir host d st) = fst st @ ds \<and> (\<forall>d'\<in>set ds. stat host d' = Inr Directory)"
  by (auto simp: conf_dir_def split: prod.splits sum.splits file_kind.splits)

text \<open>
  C27.  When no chain of includes from a configuration file is infinite, reading it ends,
  keeps the search path it was given as a prefix and adds only existing directories.  A chain is
  also cut off where \<open>fopen\<close> fails because of the files that are open.
\<close>

theorem ld_so_conf_returns:
  assumes "wfP (\<lambda>q p. conf_includes host p q)"
  shows "\<exists>ds con'. AddHostLdSoConfPaths host opened conf (paths, con) = Some (paths @ ds, con') \<and>
    (\<forall>d\<in>set ds. stat host d = Inr Directory)"
proof -
  define ext where "ext st \<longleftrightarrow>
    (\<exists>ds. fst st = paths @ ds \<and> (\<forall>d\<in>set ds. stat host d = Inr Directory))" for st :: "string list \<times> console"
  have "\<exists>st'. AddHostLdSoConfPaths host (fst nc) (snd nc) st = Some st' \<and> ext st'" if "ext st" for st nc
    using assms that
  proof (induction nc arbitrary: st rule: wfp_induct_rule)
    case (less nc)
    show ?case
    proof (cases "fopen host (fst nc) (snd nc)")
      case (Inl e)
      with less.prems show ?thesis by (subst AddHostLdSoConfPaths.simps) simp
    next
      case (Inr content)
      have dir: "ext (conf_dir host d st)" if "ext st" for d st
        using that conf_dir_adds_directory [of host d st] unfolding ext_def
        by (metis (no_types, lifting) append.assoc Un_iff set_append)
      have incl: "\<exists>st'. fold_opt (\<lambda>f. AddHostLdSoConfPaths host (fst nc + 1) f) files st = Some st' \<and> ext st'"
        if i: "Include pattern \<in> set (conf_file_items content)" "glob host pattern = Some files" "ext st"
        for pattern files st
        using i(3)
      proof (rule fold_opt_returns [rotated])
        fix f st assume "f \<in> set files" "ext st"
        then show "\<exists>st'. AddHostLdSoConfPaths host (fst nc + 1) f st = Some st' \<and> ext st'"
          using less.IH [of "(fst nc + 1, f)" st] i(1,2) Inr by (auto simp: conf_includes_def)
      qed
      show ?thesis
        unfolding AddHostLdSoConfPaths.simps [of host "fst nc" "snd nc"] Inr sum.case conf_file_items_def [symmetric]
        using less.prems by (rule fold_opt_returns [rotated])
          (use dir incl in \<open>auto simp del: split_paired_Ex split: conf_item.split option.split\<close>)
    qed
  qed
  from this [of "(paths, con)" "(opened, conf)"] show ?thesis by (auto simp: ext_def)
qed

text \<open>
  What reading the configuration adds to the search path depends neither on the search path
  nor on the verbosity, which it leaves as it is.
\<close>

definition adds_dirs :: "(string list \<times> console \<Rightarrow> (string list \<times> console) option) \<Rightarrow> string list \<Rightarrow> bool" where
  "adds_dirs f ds \<longleftrightarrow> (\<forall>st. \<exists>con'. f st = Some (fst st @ ds, con') \<and> g_verbose con' = g_verbose (snd st))"

lemma adds_dirsD:
  assumes "adds_dirs f ds"
  obtains con' where "f (paths, con) = Some (paths @ ds, con')" "g_verbose con' = g_verbose con"
  using assms unfolding adds_dirs_def by (metis fst_conv snd_conv)

lemma adds_dirs_bind:
  assumes "adds_dirs f ds" "adds_dirs g es"
  shows "adds_dirs (\<lambda>st. Option.bind (f st) g) (ds @ es)"
  unfolding adds_dirs_def
proof
  fix st :: "string list \<times> console"
  obtain c where c: "f st = Some (fst st @ ds, c)" "g_verbose c = g_verbose (snd st)"
    using adds_dirsD [OF assms(1), of "fst st" "snd st"] by auto
  obtain c' where "g (fst st @ ds, c) = Some ((fst st @ ds) @ es, c')" "g_verbose c' = g_verbose c"
    by (rule adds_dirsD [OF assms(2), of "fst st @ ds" c])
  with c show "\<exists>c'. Option.bind (f st) g = Some (fst st @ ds @ es, c') \<and> g_verbose c' = g_verbose (snd st)"
    by simp
qed

lemma adds_dirs_fold:
  assumes "\<And>x s y. x \<in> set xs \<Longrightarrow> f x s = Some y \<Longrightarrow> \<exists>ds. adds_dirs (g x) ds" "fold_opt f xs s = Some y"
  shows "\<exists>ds. adds_dirs (fold_opt g xs) ds"
  using assms
proof (induction xs arbitrary: s)
  case Nil
  have "adds_dirs (fold_opt g []) []" by (auto simp: adds_dirs_def)
  then show ?case by (rule exI)
next
  case (Cons x xs)
  from Cons.prems(2) obtain s' where s': "f x s = Some s'" "fold_opt f xs s' = Some y"
    by (auto simp: bind_eq_Some_conv)
  obtain ds where ds: "adds_dirs (g x) ds" using Cons.prems(1) [OF _ s'(1)] by auto
  have "\<exists>es. adds_dirs (fold_opt g xs) es"
    by (rule Cons.IH [OF _ s'(2)]) (rule Cons.prems(1), simp_all)
  then obtain es where "adds_dirs (fold_opt g xs) es" ..
  from adds_dirs_bind [OF ds this] show ?case by (auto simp: fun_eq_iff)
qed

lemma conf_dir_adds: "\<exists>ds. adds_dirs (\<lambda>st. Some (conf_dir host d st)) ds"
  by (cases "stat host d = Inr Directory")
    (auto simp: adds_dirs_def conf_dir_def split: prod.splits sum.splits file_kind.splits intro: exI [of _ "[d]"] exI [of _ "[]"])

lemma ld_so_conf_adds:
  "AddHostLdSoConfPaths host opened conf st = Some st' \<Longrightarrow>
     \<exists>ds. adds_dirs (AddHostLdSoConfPaths host opened conf) ds"
proof (rule AddHostLdSoConfPaths.raw_induct
    [where P = "\<lambda>host opened conf st st'. \<exists>ds. adds_dirs (AddHostLdSoConfPaths host opened conf) ds"])
  fix F host opened conf st st'
  assume IH: "\<And>host opened conf st st'. F host opened conf st = Some st' \<Longrightarrow>
      \<exists>ds. adds_dirs (AddHostLdSoConfPaths host opened conf) ds"
    and body: "(case fopen host opened conf of Inl error \<Rightarrow> Some st
      | Inr content \<Rightarrow> fold_opt (\<lambda>item st. case item of Include pattern \<Rightarrow>
            (case glob host pattern of None \<Rightarrow> Some st
             | Some paths \<Rightarrow> fold_opt (F host (opened + 1)) paths st)
          | Dir dirpath \<Rightarrow> Some (conf_dir host dirpath st))
          (concat (map (\<lambda>line. conf_items False (conf_text line)) (conf_lines content))) st) = Some st'"
  have none: "adds_dirs Some []" by (simp add: adds_dirs_def)
  show "\<exists>ds. adds_dirs (AddHostLdSoConfPaths host opened conf) ds"
  proof (cases "fopen host opened conf")
    case (Inl e)
    then have "AddHostLdSoConfPaths host opened conf = Some" by (intro ext) (subst AddHostLdSoConfPaths.simps, simp)
    with none show ?thesis by auto
  next
    case (Inr content)
    let ?read = "\<lambda>F item st. case item of Include pattern \<Rightarrow>
            (case glob host pattern of None \<Rightarrow> Some st
             | Some paths \<Rightarrow> fold_opt (F host (opened + 1)) paths st)
          | Dir dirpath \<Rightarrow> Some (conf_dir host dirpath st)"
    have item: "\<exists>ds. adds_dirs (?read AddHostLdSoConfPaths item) ds" if "?read F item st = Some st'" for item st st'
    proof (cases item)
      case (Dir d)
      then show ?thesis using conf_dir_adds by simp
    next
      case (Include pattern)
      show ?thesis
      proof (cases "glob host pattern")
        case None
        with Include none show ?thesis by auto
      next
        case (Some paths)
        then show ?thesis
          using that Include adds_dirs_fold [of paths "F host (opened + 1)" _ st st'] IH by simp
      qed
    qed
    have "AddHostLdSoConfPaths host opened conf = fold_opt (?read AddHostLdSoConfPaths)
        (concat (map (\<lambda>line. conf_items False (conf_text line)) (conf_lines content)))"
      using Inr by (intro ext) (subst AddHostLdSoConfPaths.simps, simp)
    moreover have "\<exists>ds. adds_dirs (fold_opt (?read AddHostLdSoConfPaths)
        (concat (map (\<lambda>line. conf_items False (conf_text line)) (conf_lines content)))) ds"
      by (rule adds_dirs_fold [where f = "?read F", OF item]) (use body Inr in simp_all)
    ultimately show ?thesis by simp
  qed
qed

lemma host_libs_adds:
  assumes "AddHostLibraryPaths host ([], con0) = Some (dirs, con1)"
  shows "adds_dirs (AddHostLibraryPaths host) dirs"
proof -
  define env where "env = (case getenv host ''LD_LIBRARY_PATH'' of None \<Rightarrow> [] | Some env \<Rightarrow> ld_library_path env)"
  have eq: "AddHostLibraryPaths host st = AddHostLdSoConfPaths host 0 ''/etc/ld.so.conf'' (fst st @ env, snd st)" for st
    by (simp add: AddHostLibraryPaths_def env_def split: option.split prod.split)
  have read: "AddHostLdSoConfPaths host 0 ''/etc/ld.so.conf'' (env, con0) = Some (dirs, con1)"
    using assms by (simp add: eq)
  from ld_so_conf_adds [OF read] obtain ds where ds: "adds_dirs (AddHostLdSoConfPaths host 0 ''/etc/ld.so.conf'') ds" ..
  have dirs: "dirs = env @ ds"
    by (rule adds_dirsD [OF ds, of env con0]) (simp add: read)
  show ?thesis
    unfolding adds_dirs_def eq
  proof
    fix st :: "string list \<times> console"
    show "\<exists>con'. AddHostLdSoConfPaths host 0 ''/etc/ld.so.conf'' (fst st @ env, snd st) =
        Some (fst st @ dirs, con') \<and> g_verbose con' = g_verbose (snd st)"
      by (rule adds_dirsD [OF ds, of "fst st @ env" "snd st"]) (simp add: dirs)
  qed
qed

text \<open>
  A host with the usual configuration, which includes one more file and then lists a directory,
  and with a limit on the number of open files.
\<close>

definition conf_host :: "nat \<Rightarrow> string \<Rightarrow> host" where
  "conf_host limit included =
     \<lparr>fopen = (\<lambda>n p. if limit \<le> n then Inl ''Too many open files''
                   else if p = ''/etc/ld.so.conf'' then Inr (''include x'' @ [newline] @ ''/lib'' @ [newline])
                   else Inl ''No such file''),
      fread_error = (\<lambda>p. []), stat = (\<lambda>p. if p = ''/lib'' then Inr Directory else Inl ''No such file''),
      getenv = (\<lambda>v. None), glob = (\<lambda>p. if p = ''x'' then Some [included] else None)\<rparr>"

lemma conf_host_items: "conf_file_items (''include x'' @ [newline] @ ''/lib'' @ [newline]) = [Include ''x'', Dir ''/lib'']"
  by code_simp

lemma conf_host_wf: "wfP (\<lambda>q p. conf_includes (conf_host limit c) p q)"
  by (rule wfp_if_convertible_to_nat [where f = "\<lambda>p. limit - fst p"])
    (auto simp: conf_includes_def conf_host_def split: if_splits)

theorem ld_so_conf_returns_witness:
  "\<exists>ds con'. AddHostLdSoConfPaths (conf_host 9 ''/etc/ld.so.conf'') 0 ''/etc/ld.so.conf''
      ([''.''], \<lparr>g_verbose = 0, out = [], err = []\<rparr>) = Some (''.'' # ds, con')"
  using ld_so_conf_returns [OF conf_host_wf, of 9 "''/etc/ld.so.conf''" 0 "''/etc/ld.so.conf''" "[''.'']"
      "\<lparr>g_verbose = 0, out = [], err = []\<rparr>"] by auto

lemma fold_opt_dirs:
  "\<forall>d\<in>set ds. stat host d = Inr Directory \<Longrightarrow>
     fold_opt (\<lambda>item st. case item of Include p \<Rightarrow> f p st | Dir d \<Rightarrow> Some (conf_dir host d st)) (map Dir ds) (paths, con) =
       Some (paths @ ds, con)"
  by (induction ds arbitrary: paths) (simp_all add: conf_dir_def)

text \<open>
  C36.  Nothing keeps a configuration file from including itself.  A file that does, and then lists
  directories, is read once more for every file that can still be opened, and all its directories
  are added each time.
\<close>

theorem ld_so_conf_self_include:
  assumes "\<forall>n<limit. fopen host n conf = Inr content" "fopen host limit conf = Inl error"
    and "conf_file_items content = Include pattern # map Dir ds" "glob host pattern = Some [conf]"
    and "\<forall>d\<in>set ds. stat host d = Inr Directory" "opened \<le> limit"
  shows "AddHostLdSoConfPaths host opened conf (paths, con) = Some (paths @ concat (replicate (limit - opened) ds), con)"
  using assms(6)
proof (induction opened arbitrary: paths rule: inc_induct)
  case base
  then show ?case using assms(2) by (subst AddHostLdSoConfPaths.simps) simp
next
  case (step n)
  have "replicate (limit - n) ds = ds # replicate (limit - Suc n) ds"
    using step.hyps(2) by (metis Suc_diff_Suc replicate_Suc)
  then have "concat (replicate (limit - n) ds) = concat (replicate (limit - Suc n) ds) @ ds"
    by (metis replicate_append_same concat_append concat.simps append_Nil2)
  moreover have "fopen host n conf = Inr content" using assms(1) step.hyps(2) by blast
  ultimately show ?case
    by (subst AddHostLdSoConfPaths.simps)
      (simp add: conf_file_items_def [symmetric] assms(3,4) step.IH fold_opt_dirs [OF assms(5)])
qed

theorem ld_so_conf_self_include_witness:
  "AddHostLdSoConfPaths (conf_host 3 ''/etc/ld.so.conf'') 0 ''/etc/ld.so.conf'' ([''.''], \<lparr>g_verbose = 0, out = [], err = []\<rparr>) =
     Some ([''.'', ''/lib'', ''/lib'', ''/lib''], \<lparr>g_verbose = 0, out = [], err = []\<rparr>)"
  using ld_so_conf_self_include [of 3 "conf_host 3 ''/etc/ld.so.conf''" "''/etc/ld.so.conf''"
      "''include x'' @ [newline] @ ''/lib'' @ [newline]" "''Too many open files''" "''x''" "[''/lib'']" 0]
    conf_host_items
  by (simp add: conf_host_def numeral_3_eq_3)

end
