(* ===== verification/ElfFile.thy ===== *)
theory ElfFile
  imports DependsPaths
begin

text \<open>
  The ELF reader of \<open>ndk-depends.cc\<close>: byte orders, the file readers, the layouts of 32-bit
  and 64-bit ELF files, the section and dynamic iterators, and the library names and needed
  libraries they give.  The host is an LP64 one: \<open>size_t\<close> and \<open>off_t\<close> have 64 bits.
\<close>

section \<open>Byte orders\<close>

definition get_u16_le :: "u8 list \<Rightarrow> u16" where
  "get_u16_le bytes = ucast (bytes ! 0) OR push_bit 8 (ucast (bytes ! 1))"

definition get_u32_le :: "u8 list \<Rightarrow> u32" where
  "get_u32_le bytes =
     ucast (bytes ! 0) OR push_bit 8 (ucast (bytes ! 1)) OR push_bit 16 (ucast (bytes ! 2))
       OR push_bit 24 (ucast (bytes ! 3))"

definition get_u64_le :: "u8 list \<Rightarrow> u64" where
  "get_u64_le bytes =
     (let lo = ucast (get_u32_le bytes); hi = ucast (get_u32_le (drop 4 bytes))
      in lo OR push_bit 32 hi)"

definition get_u16_be :: "u8 list \<Rightarrow> u16" where
  "get_u16_be bytes = push_bit 8 (ucast (bytes ! 0)) OR ucast (bytes ! 1)"

definition get_u32_be :: "u8 list \<Rightarrow> u32" where
  "get_u32_be bytes =
     push_bit 24 (ucast (bytes ! 0)) OR push_bit 16 (ucast (bytes ! 1))
       OR push_bit 8 (ucast (bytes ! 2)) OR ucast (bytes ! 3)"

definition get_u64_be :: "u8 list \<Rightarrow> u64" where
  "get_u64_be bytes =
     (let hi = ucast (get_u32_be bytes); lo = ucast (get_u32_be (drop 4 bytes))
      in lo OR push_bit 32 hi)"


section \<open>Readers\<close>

text \<open>The virtual functions of class \<open>Reader\<close>; \<open>None\<close> is a null pointer.\<close>

record Reader =
  GetBytesAt :: "int \<Rightarrow> nat \<Rightarrow> u8 list option"
  GetU16At :: "int \<Rightarrow> u16"
  GetU32At :: "int \<Rightarrow> u32"
  GetU64At :: "int \<Rightarrow> u64"

definition kMaxBytes :: nat where "kMaxBytes = 32"

text \<open>
  \<open>fseek\<close> fails on a negative position; \<open>fread\<close> of one item fails when the item is empty or
  not all of it is in the file.
\<close>

definition FileReader_GetBytesAt :: "u8 list \<Rightarrow> int \<Rightarrow> nat \<Rightarrow> u8 list option" where
  "FileReader_GetBytesAt content pos nbytes =
     (if nbytes < kMaxBytes \<and> 0 \<le> pos \<and> 0 < nbytes \<and> nat pos + nbytes \<le> length content
      then Some (take nbytes (drop (nat pos) content))
      else None)"

definition FileLittleEndianReader :: "u8 list \<Rightarrow> Reader" where
  "FileLittleEndianReader content =
     (let get = FileReader_GetBytesAt content in
      \<lparr>GetBytesAt = get,
       GetU16At = (\<lambda>pos. case get pos 2 of Some buf \<Rightarrow> get_u16_le buf | None \<Rightarrow> 0),
       GetU32At = (\<lambda>pos. case get pos 4 of Some buf \<Rightarrow> get_u32_le buf | None \<Rightarrow> 0),
       GetU64At = (\<lambda>pos. case get pos 8 of Some buf \<Rightarrow> get_u64_le buf | None \<Rightarrow> 0)\<rparr>)"

definition FileBigEndianReader :: "u8 list \<Rightarrow> Reader" where
  "FileBigEndianReader content =
     (let get = FileReader_GetBytesAt content in
      \<lparr>GetBytesAt = get,
       GetU16At = (\<lambda>pos. case get pos 2 of Some buf \<Rightarrow> get_u16_be buf | None \<Rightarrow> 0),
       GetU32At = (\<lambda>pos. case get pos 4 of Some buf \<Rightarrow> get_u32_be buf | None \<Rightarrow> 0),
       GetU64At = (\<lambda>pos. case get pos 8 of Some buf \<Rightarrow> get_u64_be buf | None \<Rightarrow> 0)\<rparr>)"


section \<open>ELF constants and layouts\<close>

definition EI_NIDENT :: nat where "EI_NIDENT = 16"
definition EI_CLASS :: nat where "EI_CLASS = 4"
definition ELFCLASS64 :: u8 where "ELFCLASS64 = 2"
definition EI_DATA :: nat where "EI_DATA = 5"
definition ELFDATA2MSB :: u8 where "ELFDATA2MSB = 2"
definition SHT_DYNAMIC :: u32 where "SHT_DYNAMIC = 6"
definition DT_NEEDED :: nat where "DT_NEEDED = 1"
definition DT_SONAME :: nat where "DT_SONAME = 14"

definition elf_ident_is_elf :: "u8 list \<Rightarrow> bool" where
  "elf_ident_is_elf ident \<longleftrightarrow>
     ident ! 0 = 0x7f \<and> ident ! 1 = 0x45 \<and> ident ! 2 = 0x4c \<and> ident ! 3 = 0x46"

definition elf_ident_is_big_endian :: "u8 list \<Rightarrow> bool" where
  "elf_ident_is_big_endian ident \<longleftrightarrow> ident ! EI_DATA = ELFDATA2MSB"

definition elf_ident_is_64bits :: "u8 list \<Rightarrow> bool" where
  "elf_ident_is_64bits ident \<longleftrightarrow> ident ! EI_CLASS = ELFCLASS64"

text \<open>A C struct: its fields in order, each with its size and its alignment.\<close>

type_synonym c_struct = "(string \<times> nat \<times> nat) list"

definition align_up :: "nat \<Rightarrow> nat \<Rightarrow> nat" where
  "align_up n a = (n + a - 1) div a * a"

fun field_offset :: "nat \<Rightarrow> c_struct \<Rightarrow> string \<Rightarrow> nat option" where
  "field_offset off [] f = None"
| "field_offset off ((name, nbytes, align) # rest) f =
     (let off' = align_up off align
      in if name = f then Some off' else field_offset (off' + nbytes) rest f)"

definition offsetof :: "c_struct \<Rightarrow> string \<Rightarrow> nat" where
  "offsetof st f = (case field_offset 0 st f of Some off \<Rightarrow> off | None \<Rightarrow> 0)"

definition sizeof :: "c_struct \<Rightarrow> nat" where
  "sizeof st =
     align_up (fold (\<lambda>(name, nbytes, align) off. align_up off align + nbytes) st 0)
       (Max (set (1 # map (snd \<circ> snd) st)))"

text \<open>The classes \<open>Elf32\<close> and \<open>Elf64\<close>, the arguments of the templates.\<close>

datatype ELF = Elf32 | Elf64

text \<open>The bits of \<open>ELF::Off\<close> and \<open>ELF::Addr\<close>; an \<open>Off\<close> is a number below \<open>2 ^ off_bits elf\<close>.\<close>

fun off_bits :: "ELF \<Rightarrow> nat" where
  "off_bits Elf32 = 32"
| "off_bits Elf64 = 64"

definition off_size :: "ELF \<Rightarrow> nat" where
  "off_size elf = off_bits elf div 8"

definition off_add :: "ELF \<Rightarrow> nat \<Rightarrow> nat \<Rightarrow> nat" where
  "off_add elf a b = (a + b) mod 2 ^ off_bits elf"

fun elf_header :: "ELF \<Rightarrow> c_struct" where
  "elf_header Elf32 =
     [(''e_ident'', 16, 1), (''e_type'', 2, 2), (''e_machine'', 2, 2), (''e_version'', 4, 4),
      (''e_entry'', 4, 4), (''e_phoff'', 4, 4), (''e_shoff'', 4, 4), (''e_flags'', 4, 4),
      (''e_shsize'', 2, 2), (''e_phentsize'', 2, 2), (''e_phnum'', 2, 2),
      (''e_shentsize'', 2, 2), (''e_shnum'', 2, 2), (''e_shstrndx'', 2, 2)]"
| "elf_header Elf64 =
     [(''e_ident'', 16, 1), (''e_type'', 2, 2), (''e_machine'', 2, 2), (''e_version'', 4, 4),
      (''e_entry'', 8, 8), (''e_phoff'', 8, 8), (''e_shoff'', 8, 8), (''e_flags'', 4, 4),
      (''e_shsize'', 2, 2), (''e_phentsize'', 2, 2), (''e_phnum'', 2, 2),
      (''e_shentsize'', 2, 2), (''e_shnum'', 2, 2), (''e_shstrndx'', 2, 2)]"

fun elf_shdr :: "ELF \<Rightarrow> c_struct" where
  "elf_shdr Elf32 =
     [(''sh_name'', 4, 4), (''sh_type'', 4, 4), (''sh_flags'', 4, 4), (''sh_addr'', 4, 4),
      (''sh_offset'', 4, 4), (''sh_size'', 4, 4), (''sh_link'', 4, 4), (''sh_info'', 4, 4),
      (''sh_addralign'', 4, 4), (''sh_entsize'', 4, 4)]"
| "elf_shdr Elf64 =
     [(''sh_name'', 4, 4), (''sh_type'', 4, 4), (''sh_flags'', 8, 8), (''sh_addr'', 8, 8),
      (''sh_offset'', 8, 8), (''sh_size'', 8, 8), (''sh_link'', 4, 4), (''sh_info'', 4, 4),
      (''sh_addralign'', 8, 8), (''sh_entsize'', 8, 8)]"

declare elf_header.simps [simp del] elf_shdr.simps [simp del]


section \<open>The parser\<close>

text \<open>The conversion of an unsigned 64-bit number to \<open>off_t\<close>.\<close>

definition to_off_t :: "nat \<Rightarrow> int" where
  "to_off_t n = sint (of_nat n :: 64 word)"

definition GetWordAt :: "Reader \<Rightarrow> int \<Rightarrow> u32" where
  "GetWordAt reader pos = GetU32At reader pos"

definition GetHalfAt :: "Reader \<Rightarrow> int \<Rightarrow> u16" where
  "GetHalfAt reader pos = GetU16At reader pos"

definition GetSwordAt :: "Reader \<Rightarrow> int \<Rightarrow> int" where
  "GetSwordAt reader pos = sint (GetWordAt reader pos)"

fun GetAddrAt :: "ELF \<Rightarrow> Reader \<Rightarrow> int \<Rightarrow> nat" where
  "GetAddrAt Elf32 reader pos = unat (GetU32At reader pos)"
| "GetAddrAt Elf64 reader pos = unat (GetU64At reader pos)"

definition GetOffAt :: "ELF \<Rightarrow> Reader \<Rightarrow> int \<Rightarrow> nat" where
  "GetOffAt elf reader pos = GetAddrAt elf reader pos"

record SectionIterator =
  table_offset :: nat
  table_count :: nat
  table_entry_size :: nat

definition SectionIterator_init :: "ELF \<Rightarrow> Reader \<Rightarrow> SectionIterator" where
  "SectionIterator_init elf reader =
     (let offset = GetOffAt elf reader (int (offsetof (elf_header elf) ''e_shoff''));
          count = unat (GetHalfAt reader (int (offsetof (elf_header elf) ''e_shnum'')));
          entry_size = unat (GetHalfAt reader (int (offsetof (elf_header elf) ''e_shentsize'')))
      in \<lparr>table_offset = offset,
          table_count = (if entry_size < sizeof (elf_shdr elf) then 0 else count),
          table_entry_size = entry_size\<rparr>)"

definition NextOffset :: "ELF \<Rightarrow> SectionIterator \<Rightarrow> nat \<times> SectionIterator" where
  "NextOffset elf iter =
     (if table_count iter = 0 then (0, iter)
      else (table_offset iter,
            iter\<lparr>table_offset := off_add elf (table_offset iter) (table_entry_size iter),
                 table_count := table_count iter - 1\<rparr>))"

primrec Skip :: "ELF \<Rightarrow> nat \<Rightarrow> SectionIterator \<Rightarrow> SectionIterator" where
  "Skip elf 0 iter = iter"
| "Skip elf (Suc count) iter =
     (if table_count iter > 0
      then Skip elf count
        (iter\<lparr>table_offset := off_add elf (table_offset iter) (table_entry_size iter),
              table_count := table_count iter - 1\<rparr>)
      else iter)"

text \<open>The position of a field of the section header at an offset.\<close>

definition shdr_pos :: "ELF \<Rightarrow> nat \<Rightarrow> string \<Rightarrow> int" where
  "shdr_pos elf off f = to_off_t (off + offsetof (elf_shdr elf) f)"

lemma NextOffset_nonzero: "NextOffset elf iter = (Suc off, iter') \<Longrightarrow> table_count iter' < table_count iter"
  by (auto simp: NextOffset_def split: if_splits)

function section_by_type :: "ELF \<Rightarrow> Reader \<Rightarrow> u32 \<Rightarrow> SectionIterator \<Rightarrow> nat \<Rightarrow> nat \<times> nat" where
  "section_by_type elf reader table_type iter nbytes =
     (case NextOffset elf iter of
        (0, iter') \<Rightarrow> (0, nbytes)
      | (Suc off, iter') \<Rightarrow>
          if GetWordAt reader (shdr_pos elf (Suc off) ''sh_type'') = table_type
          then (GetOffAt elf reader (shdr_pos elf (Suc off) ''sh_offset''),
                GetOffAt elf reader (shdr_pos elf (Suc off) ''sh_size''))
          else section_by_type elf reader table_type iter' nbytes)"
  by pat_completeness auto
termination
  by (relation "measure (\<lambda>(elf, reader, t, iter, nbytes). table_count iter)")
    (auto dest: NextOffset_nonzero [OF sym])

declare section_by_type.simps [simp del]

definition GetSectionOffsetByType :: "ELF \<Rightarrow> Reader \<Rightarrow> int \<Rightarrow> nat \<Rightarrow> nat \<times> nat" where
  "GetSectionOffsetByType elf reader table_type nbytes =
     section_by_type elf reader (of_int table_type) (SectionIterator_init elf reader) nbytes"

function dynamic_link :: "ELF \<Rightarrow> Reader \<Rightarrow> SectionIterator \<Rightarrow> int" where
  "dynamic_link elf reader iter =
     (case NextOffset elf iter of
        (0, iter') \<Rightarrow> 0
      | (Suc off, iter') \<Rightarrow>
          if GetWordAt reader (shdr_pos elf (Suc off) ''sh_type'') = SHT_DYNAMIC
          then sint (GetWordAt reader (shdr_pos elf (Suc off) ''sh_link''))
          else dynamic_link elf reader iter')"
  by pat_completeness auto
termination
  by (relation "measure (\<lambda>(elf, reader, iter). table_count iter)")
    (auto dest: NextOffset_nonzero [OF sym])

declare dynamic_link.simps [simp del]

definition GetDynamicStringTableIndex :: "ELF \<Rightarrow> Reader \<Rightarrow> int" where
  "GetDynamicStringTableIndex elf reader = dynamic_link elf reader (SectionIterator_init elf reader)"

definition GetSectionOffsetByIndex :: "ELF \<Rightarrow> Reader \<Rightarrow> int \<Rightarrow> nat \<Rightarrow> nat \<times> nat" where
  "GetSectionOffsetByIndex elf reader sec_index nbytes =
     (let iter = Skip elf (nat sec_index) (SectionIterator_init elf reader);
          off = fst (NextOffset elf iter)
      in if off \<noteq> 0
         then (GetOffAt elf reader (shdr_pos elf off ''sh_offset''),
               GetOffAt elf reader (shdr_pos elf off ''sh_size''))
         else (0, nbytes))"

primrec string_loop :: "ELF \<Rightarrow> Reader \<Rightarrow> nat \<Rightarrow> nat \<Rightarrow> string" where
  "string_loop elf reader str_table 0 = []"
| "string_loop elf reader str_table (Suc nbytes) =
     (case GetBytesAt reader (to_off_t str_table) 1 of
        None \<Rightarrow> []
      | Some p \<Rightarrow>
          if p ! 0 = 0 then []
          else char_of (unat (p ! 0)) # string_loop elf reader (off_add elf str_table 1) nbytes)"

definition GetStringByIndex :: "ELF \<Rightarrow> Reader \<Rightarrow> nat \<Rightarrow> int \<Rightarrow> string" where
  "GetStringByIndex elf reader str_index str_table_index =
     (if str_table_index \<noteq> 0 then
        let (str_table, str_table_size) = GetSectionOffsetByIndex elf reader str_table_index 0
        in if str_table \<noteq> 0 \<and> str_index < str_table_size
           then string_loop elf reader (off_add elf str_table str_index) (str_table_size - str_index)
           else []
      else [])"

section \<open>The dynamic section\<close>

definition kTagSize :: "ELF \<Rightarrow> nat" where
  "kTagSize elf = off_size elf"

definition kEntrySize :: "ELF \<Rightarrow> nat" where
  "kEntrySize elf = kTagSize elf + kTagSize elf"

lemma kEntrySize_pos [simp]: "0 < kEntrySize elf"
  by (cases elf) (simp_all add: kEntrySize_def kTagSize_def off_size_def)

record DynamicIterator =
  dyn_size :: nat
  dyn_offset :: nat
  started :: bool

definition DynamicIterator_init :: "ELF \<Rightarrow> Reader \<Rightarrow> DynamicIterator" where
  "DynamicIterator_init elf reader =
     (let (offset, nbytes) = GetSectionOffsetByType elf reader (uint SHT_DYNAMIC) 0
      in \<lparr>dyn_size = nbytes, dyn_offset = offset, started = (nbytes < kEntrySize elf)\<rparr>)"

definition GetNext :: "ELF \<Rightarrow> DynamicIterator \<Rightarrow> bool \<times> DynamicIterator" where
  "GetNext elf iter =
     (if \<not> started iter then (True, iter\<lparr>started := True\<rparr>)
      else if dyn_size iter < kEntrySize elf then (False, iter)
      else (True, iter\<lparr>dyn_offset := off_add elf (dyn_offset iter) (kEntrySize elf),
                       dyn_size := dyn_size iter - kEntrySize elf\<rparr>))"

definition GetTag :: "ELF \<Rightarrow> Reader \<Rightarrow> DynamicIterator \<Rightarrow> nat" where
  "GetTag elf reader iter = GetOffAt elf reader (to_off_t (dyn_offset iter))"

definition GetValue :: "ELF \<Rightarrow> Reader \<Rightarrow> DynamicIterator \<Rightarrow> nat" where
  "GetValue elf reader iter =
     GetOffAt elf reader (to_off_t (off_add elf (dyn_offset iter) (kTagSize elf)))"

definition dyn_left :: "DynamicIterator \<Rightarrow> nat" where
  "dyn_left iter = dyn_size iter + (if started iter then 0 else 1)"

lemma GetNext_left: "GetNext elf iter = (True, iter') \<Longrightarrow> dyn_left iter' < dyn_left iter"
  by (auto simp: GetNext_def dyn_left_def split: if_splits)
    (metis diff_less kEntrySize_pos less_le_trans linorder_not_less)

function lib_name_loop :: "ELF \<Rightarrow> Reader \<Rightarrow> int \<Rightarrow> DynamicIterator \<Rightarrow> string" where
  "lib_name_loop elf reader str_table_index iter =
     (case GetNext elf iter of
        (False, iter') \<Rightarrow> []
      | (True, iter') \<Rightarrow>
          if GetTag elf reader iter' = DT_SONAME
          then GetStringByIndex elf reader (GetValue elf reader iter') str_table_index
          else lib_name_loop elf reader str_table_index iter')"
  by pat_completeness auto
termination
  by (relation "measure (\<lambda>(elf, reader, i, iter). dyn_left iter)") (auto dest: GetNext_left [OF sym])

declare lib_name_loop.simps [simp del]

definition GetLibNameT :: "ELF \<Rightarrow> Reader \<Rightarrow> string" where
  "GetLibNameT elf reader =
     (let str_table_index = GetDynamicStringTableIndex elf reader
      in lib_name_loop elf reader str_table_index (DynamicIterator_init elf reader))"

function needed_libs_loop ::
    "ELF \<Rightarrow> Reader \<Rightarrow> int \<Rightarrow> DynamicIterator \<Rightarrow> string list \<Rightarrow> nat \<Rightarrow> nat \<times> string list" where
  "needed_libs_loop elf reader str_table_index iter result count =
     (case GetNext elf iter of
        (False, iter') \<Rightarrow> (count, result)
      | (True, iter') \<Rightarrow>
          if GetTag elf reader iter' = DT_NEEDED then
            let lib_name = GetStringByIndex elf reader (GetValue elf reader iter') str_table_index
            in if lib_name \<noteq> []
               then needed_libs_loop elf reader str_table_index iter' (result @ [lib_name]) (count + 1)
               else needed_libs_loop elf reader str_table_index iter' result count
          else needed_libs_loop elf reader str_table_index iter' result count)"
  by pat_completeness auto
termination
  by (relation "measure (\<lambda>(elf, reader, i, iter, result, count). dyn_left iter)")
    (auto dest: GetNext_left [OF sym])

declare needed_libs_loop.simps [simp del]

definition GetNeededLibsT :: "ELF \<Rightarrow> Reader \<Rightarrow> string list \<Rightarrow> nat \<times> string list" where
  "GetNeededLibsT elf reader result =
     (let str_table_index = GetDynamicStringTableIndex elf reader
      in needed_libs_loop elf reader str_table_index (DynamicIterator_init elf reader) result 0)"


section \<open>ELF files\<close>

record ElfFile =
  elf_file :: "u8 list option"
  big_endian :: bool
  is_64bits :: bool
  elf_reader :: "Reader option"

definition ElfFile_new :: ElfFile where
  "ElfFile_new = \<lparr>elf_file = None, big_endian = False, is_64bits = False, elf_reader = None\<rparr>"

definition ElfFile_Close :: "ElfFile \<Rightarrow> ElfFile" where
  "ElfFile_Close elf = elf\<lparr>elf_file := None\<rparr>"

definition IsOk :: "ElfFile \<Rightarrow> bool" where
  "IsOk elf \<longleftrightarrow> elf_file elf \<noteq> None"

text \<open>\<open>Open\<close>, with the number of other files that are open: on failure the error text, with the object closed.\<close>

definition ElfFile_Open :: "host \<Rightarrow> nat \<Rightarrow> string \<Rightarrow> ElfFile \<Rightarrow> string option \<times> ElfFile" where
  "ElfFile_Open host opened path elf0 =
     (let elf1 = ElfFile_Close elf0
      in case fopen host opened path of
           Inl error \<Rightarrow> (Some error, elf1)
         | Inr content \<Rightarrow>
             let bytes = map of_char content; ident = take EI_NIDENT bytes; elf2 = elf1\<lparr>elf_file := Some bytes\<rparr>
             in if length bytes < EI_NIDENT then (Some (fread_error host path), ElfFile_Close elf2)
                else if \<not> elf_ident_is_elf ident then (Some ''Not an ELF binary file'', ElfFile_Close elf2)
                else
                  (None,
                   elf2\<lparr>big_endian := elf_ident_is_big_endian ident,
                        is_64bits := elf_ident_is_64bits ident,
                        elf_reader := Some (if elf_ident_is_big_endian ident
                                            then FileBigEndianReader bytes
                                            else FileLittleEndianReader bytes)\<rparr>))"

text \<open>Both functions dereference the reader: \<open>None\<close> is a null dereference.\<close>

definition GetLibName :: "ElfFile \<Rightarrow> string option" where
  "GetLibName elf = map_option (GetLibNameT (if is_64bits elf then Elf64 else Elf32)) (elf_reader elf)"

definition GetNeededLibs :: "ElfFile \<Rightarrow> string list \<Rightarrow> (nat \<times> string list) option" where
  "GetNeededLibs elf result =
     map_option (\<lambda>reader. GetNeededLibsT (if is_64bits elf then Elf64 else Elf32) reader result)
       (elf_reader elf)"

section \<open>What the readers read\<close>

definition put_u16_le :: "u16 \<Rightarrow> u8 list" where
  "put_u16_le w = [ucast w, ucast (drop_bit 8 w)]"

definition put_u32_le :: "u32 \<Rightarrow> u8 list" where
  "put_u32_le w = [ucast w, ucast (drop_bit 8 w), ucast (drop_bit 16 w), ucast (drop_bit 24 w)]"

definition put_u64_le :: "u64 \<Rightarrow> u8 list" where
  "put_u64_le w = put_u32_le (ucast w) @ put_u32_le (ucast (drop_bit 32 w))"

definition put_u16_be :: "u16 \<Rightarrow> u8 list" where
  "put_u16_be w = rev (put_u16_le w)"

definition put_u32_be :: "u32 \<Rightarrow> u8 list" where
  "put_u32_be w = rev (put_u32_le w)"

definition put_u64_be :: "u64 \<Rightarrow> u8 list" where
  "put_u64_be w = rev (put_u64_le w)"

lemmas put_defs = put_u16_le_def put_u32_le_def put_u64_le_def put_u16_be_def put_u32_be_def put_u64_be_def

lemma word_halves: "ucast (ucast w :: 32 word) OR push_bit 32 (ucast (ucast (drop_bit 32 w) :: 32 word)) = (w :: 64 word)"
  by (rule bit_word_eqI) (auto simp: bit_simps)

lemma get_put_le:
  "get_u16_le (put_u16_le w16) = w16"
  "get_u32_le (put_u32_le w32 @ rest) = w32"
  "get_u64_le (put_u64_le w64) = w64"
proof -
  show "get_u16_le (put_u16_le w16) = w16"
    by (rule bit_word_eqI) (auto simp: get_u16_le_def put_u16_le_def bit_simps)
  show u32: "get_u32_le (put_u32_le w32 @ rest) = w32" for w32 rest
  proof (rule bit_word_eqI)
    fix n :: nat
    assume "n < LENGTH(32)"
    then consider "n < 8" | "8 \<le> n" "n < 16" | "16 \<le> n" "n < 24" | "24 \<le> n" "n < 32" by fastforce
    then show "bit (get_u32_le (put_u32_le w32 @ rest)) n = bit w32 n"
      by cases (auto simp: get_u32_le_def put_u32_le_def bit_simps)
  qed
  have "drop 4 (put_u64_le w64) = put_u32_le (ucast (drop_bit 32 w64)) @ []"
    by (simp add: put_u64_le_def put_u32_le_def)
  then show "get_u64_le (put_u64_le w64) = w64"
    by (simp only: get_u64_le_def Let_def u32) (simp add: put_u64_le_def u32 word_halves)
qed

lemma list_of_length:
  "length bs = 2 \<longleftrightarrow> (\<exists>a b. bs = [a, b])"
  "length bs = 4 \<longleftrightarrow> (\<exists>a b c d. bs = [a, b, c, d])"
  by (auto simp: numeral_eq_Suc length_Suc_conv)

lemma get_be_le:
  "length bs = 2 \<Longrightarrow> get_u16_be bs = get_u16_le (rev bs)"
  "length bs = 4 \<Longrightarrow> get_u32_be bs = get_u32_le (rev bs)"
  by (auto simp: list_of_length get_u16_be_def get_u16_le_def get_u32_be_def get_u32_le_def ac_simps)

lemma get_u32_prefix:
  "length bs = 4 \<Longrightarrow> get_u32_le (bs @ rest) = get_u32_le bs"
  "length bs = 4 \<Longrightarrow> get_u32_be (bs @ rest) = get_u32_be bs"
  by (simp_all add: get_u32_be_def get_u32_le_def nth_append)

lemma get_u64_be_le:
  assumes "length bs = 4" "length cs = 4"
  shows "get_u64_be (bs @ cs) = get_u64_le (rev (bs @ cs))"
  using assms by (simp add: get_u64_be_def get_u64_le_def get_u32_prefix get_be_le)

lemma put_lengths:
  "length (put_u16_le w16) = 2" "length (put_u32_le w32) = 4" "length (put_u64_le w64) = 8"
  "length (put_u16_be w16) = 2" "length (put_u32_be w32) = 4" "length (put_u64_be w64) = 8"
  by (simp_all add: put_defs)

lemma get_put_be:
  "get_u16_be (put_u16_be w16) = w16" "get_u32_be (put_u32_be w32) = w32" "get_u64_be (put_u64_be w64) = w64"
proof -
  show "get_u16_be (put_u16_be w16) = w16"
    using get_be_le(1) [OF put_lengths(4)] by (simp add: put_u16_be_def get_put_le)
  show "get_u32_be (put_u32_be w32) = w32"
    using get_be_le(2) [OF put_lengths(5)] get_put_le(2) [of w32 "[]"] by (simp add: put_u32_be_def)
  have "put_u64_be w64 = rev (put_u32_le (ucast (drop_bit 32 w64))) @ rev (put_u32_le (ucast w64))"
    by (simp add: put_u64_be_def put_u64_le_def)
  then show "get_u64_be (put_u64_be w64) = w64"
    using get_u64_be_le [of "rev (put_u32_le (ucast (drop_bit 32 w64)))" "rev (put_u32_le (ucast w64))"]
      get_put_le(3) [of w64]
    by (simp add: put_lengths put_u64_le_def)
qed

text \<open>
  What the parser relies on in a reader: an encoded number that is in the file at a position
  is read back, and what is not wholly in the file reads as zero.
\<close>

locale endian_reader =
  fixes mk :: "u8 list \<Rightarrow> Reader"
    and enc16 :: "u16 \<Rightarrow> u8 list" and enc32 :: "u32 \<Rightarrow> u8 list" and enc64 :: "u64 \<Rightarrow> u8 list"
  assumes bytes: "GetBytesAt (mk content) = FileReader_GetBytesAt content"
    and len16: "length (enc16 w16) = 2" and len32: "length (enc32 w32) = 4" and len64: "length (enc64 w64) = 8"
    and read16: "FileReader_GetBytesAt content pos 2 = Some (enc16 w16) \<Longrightarrow> GetU16At (mk content) pos = w16"
    and read32: "FileReader_GetBytesAt content pos 4 = Some (enc32 w32) \<Longrightarrow> GetU32At (mk content) pos = w32"
    and read64: "FileReader_GetBytesAt content pos 8 = Some (enc64 w64) \<Longrightarrow> GetU64At (mk content) pos = w64"
    and zero16: "FileReader_GetBytesAt content pos 2 = None \<Longrightarrow> GetU16At (mk content) pos = 0"
    and zero32: "FileReader_GetBytesAt content pos 4 = None \<Longrightarrow> GetU32At (mk content) pos = 0"
    and zero64: "FileReader_GetBytesAt content pos 8 = None \<Longrightarrow> GetU64At (mk content) pos = 0"
begin

lemma bytes_at: "0 < length bs \<Longrightarrow> length bs < kMaxBytes \<Longrightarrow>
    FileReader_GetBytesAt (pre @ bs @ post) (int (length pre)) (length bs) = Some bs"
  by (simp add: FileReader_GetBytesAt_def)

lemma read_back:
  "GetU16At (mk (pre @ enc16 w16 @ post)) (int (length pre)) = w16"
  "GetU32At (mk (pre @ enc32 w32 @ post)) (int (length pre)) = w32"
  "GetU64At (mk (pre @ enc64 w64 @ post)) (int (length pre)) = w64"
  using bytes_at [of "enc16 w16" pre post] bytes_at [of "enc32 w32" pre post]
    bytes_at [of "enc64 w64" pre post]
  by (auto simp: len16 len32 len64 kMaxBytes_def intro: read16 read32 read64)

lemma read_outside:
  assumes "int (length content) < pos + 2 \<or> pos < 0"
  shows "GetU16At (mk content) pos = 0" "GetU32At (mk content) pos = 0" "GetU64At (mk content) pos = 0"
  using assms by (auto simp: FileReader_GetBytesAt_def intro!: zero16 zero32 zero64)

text \<open>The bytes of a string table up to a NUL, as long as the offsets do not wrap.\<close>

lemma string_loop_content:
  assumes "off + n < 2 ^ off_bits elf" "off + n < 2 ^ 63"
  shows "string_loop elf (mk content) off n =
    map (\<lambda>b. char_of (unat b)) (takeWhile (\<lambda>b. b \<noteq> 0) (take n (drop off content)))"
  using assms
proof (induction n arbitrary: off)
  case (Suc n)
  have pos: "to_off_t off = int off"
    using Suc.prems(2) by (simp add: to_off_t_def signed_of_nat signed_take_bit_int_eq_self)
  have "off_add elf off 1 = Suc off" using Suc.prems(1) by (simp add: off_add_def)
  moreover have "drop off content = content ! off # drop (Suc off) content" if "off < length content"
    using that by (rule Cons_nth_drop_Suc [symmetric])
  ultimately show ?case
    using Suc.IH [of "Suc off"] Suc.prems pos
    by (cases "off < length content")
      (simp_all add: bytes FileReader_GetBytesAt_def kMaxBytes_def)
qed simp

end

interpretation le: endian_reader FileLittleEndianReader put_u16_le put_u32_le put_u64_le
  using get_put_le(2) [of _ "[]"]
  by unfold_locales
    (simp_all add: FileLittleEndianReader_def Let_def get_put_le put_lengths)

interpretation be: endian_reader FileBigEndianReader put_u16_be put_u32_be put_u64_be
  by unfold_locales
    (simp_all add: FileBigEndianReader_def Let_def get_put_be put_lengths)

text \<open>
  C23.  Numbers of 16, 32 and 64 bits written in either byte order anywhere in a file are
  read back by the reader of that order.
\<close>

theorem readers_roundtrip:
  "GetU16At (FileLittleEndianReader (pre @ put_u16_le w16 @ post)) (int (length pre)) = w16 \<and>
   GetU32At (FileLittleEndianReader (pre @ put_u32_le w32 @ post)) (int (length pre)) = w32 \<and>
   GetU64At (FileLittleEndianReader (pre @ put_u64_le w64 @ post)) (int (length pre)) = w64 \<and>
   GetU16At (FileBigEndianReader (pre @ put_u16_be w16 @ post)) (int (length pre)) = w16 \<and>
   GetU32At (FileBigEndianReader (pre @ put_u32_be w32 @ post)) (int (length pre)) = w32 \<and>
   GetU64At (FileBigEndianReader (pre @ put_u64_be w64 @ post)) (int (length pre)) = w64"
  by (intro conjI) (rule le.read_back be.read_back)+

section \<open>The iterators as lists\<close>

text \<open>The offsets that an iterator has still to give, by index.\<close>

definition iter_offsets :: "ELF \<Rightarrow> SectionIterator \<Rightarrow> nat list" where
  "iter_offsets elf iter =
     map (\<lambda>k. (table_offset iter + k * table_entry_size iter) mod 2 ^ off_bits elf) [0..<table_count iter]"

definition advance :: "ELF \<Rightarrow> SectionIterator \<Rightarrow> SectionIterator" where
  "advance elf iter =
     iter\<lparr>table_offset := off_add elf (table_offset iter) (table_entry_size iter),
          table_count := table_count iter - 1\<rparr>"

lemma upt_Suc_map: "[0..<Suc n] = 0 # map Suc [0..<n]"
  by (simp add: map_Suc_upt upt_conv_Cons)

lemma mod_shift: "((a + b) mod m + k * b) mod m = (a + Suc k * b) mod (m :: nat)"
  by (simp add: mod_add_left_eq add.assoc)

lemma iter_offsets_step:
  assumes "table_count iter = Suc n" "table_offset iter < 2 ^ off_bits elf"
  shows "iter_offsets elf iter = table_offset iter # iter_offsets elf (advance elf iter)"
  using assms
  by (simp add: iter_offsets_def advance_def upt_Suc_map off_add_def mod_shift del: upt_Suc mult_Suc)

lemma iter_offsets_empty: "table_count iter = 0 \<Longrightarrow> iter_offsets elf iter = []"
  by (simp add: iter_offsets_def)

lemma advance_bound [simp]: "table_offset (advance elf iter) < 2 ^ off_bits elf"
  by (simp add: advance_def off_add_def)

lemma NextOffset_advance:
  "NextOffset elf iter = (if table_count iter = 0 then (0, iter) else (table_offset iter, advance elf iter))"
  by (simp add: NextOffset_def advance_def)

lemma section_by_type_find:
  assumes "table_offset iter < 2 ^ off_bits elf"
  shows "section_by_type elf reader t iter nbytes =
    (case find (\<lambda>off. GetWordAt reader (shdr_pos elf off ''sh_type'') = t)
        (takeWhile (\<lambda>off. off \<noteq> 0) (iter_offsets elf iter)) of
       None \<Rightarrow> (0, nbytes)
     | Some off \<Rightarrow> (GetOffAt elf reader (shdr_pos elf off ''sh_offset''),
                   GetOffAt elf reader (shdr_pos elf off ''sh_size'')))"
  using assms
proof (induction "table_count iter" arbitrary: iter)
  case 0
  then show ?case by (subst section_by_type.simps) (simp add: NextOffset_advance iter_offsets_empty)
next
  case (Suc n)
  have "n = table_count (advance elf iter)" using Suc.hyps(2) by (simp add: advance_def)
  then show ?case
    using Suc.hyps(1) [of "advance elf iter"] Suc.hyps(2) [symmetric] Suc.prems
    by (subst section_by_type.simps)
      (simp add: NextOffset_advance iter_offsets_step split: nat.split)
qed

lemma dynamic_link_find:
  assumes "table_offset iter < 2 ^ off_bits elf"
  shows "dynamic_link elf reader iter =
    (case find (\<lambda>off. GetWordAt reader (shdr_pos elf off ''sh_type'') = SHT_DYNAMIC)
        (takeWhile (\<lambda>off. off \<noteq> 0) (iter_offsets elf iter)) of
       None \<Rightarrow> 0
     | Some off \<Rightarrow> sint (GetWordAt reader (shdr_pos elf off ''sh_link'')))"
  using assms
proof (induction "table_count iter" arbitrary: iter)
  case 0
  then show ?case by (subst dynamic_link.simps) (simp add: NextOffset_advance iter_offsets_empty)
next
  case (Suc n)
  have "n = table_count (advance elf iter)" using Suc.hyps(2) by (simp add: advance_def)
  then show ?case
    using Suc.hyps(1) [of "advance elf iter"] Suc.hyps(2) [symmetric] Suc.prems
    by (subst dynamic_link.simps)
      (simp add: NextOffset_advance iter_offsets_step split: nat.split)
qed

lemma GetOffAt_bound: "GetOffAt elf reader pos < 2 ^ off_bits elf"
  using unsigned_less [of "GetU32At reader pos"] unsigned_less [of "GetU64At reader pos"]
  by (cases elf) (simp_all add: GetOffAt_def)

text \<open>
  What the tables say, by index.  A section header by its number; the headers in order, up to one
  that would be at offset 0.
\<close>

definition header_count :: "ELF \<Rightarrow> Reader \<Rightarrow> nat" where
  "header_count elf reader =
     (if unat (GetHalfAt reader (int (offsetof (elf_header elf) ''e_shentsize''))) < sizeof (elf_shdr elf) then 0
      else unat (GetHalfAt reader (int (offsetof (elf_header elf) ''e_shnum''))))"

definition header_at :: "ELF \<Rightarrow> Reader \<Rightarrow> nat \<Rightarrow> nat" where
  "header_at elf reader k =
     (GetOffAt elf reader (int (offsetof (elf_header elf) ''e_shoff'')) +
      k * unat (GetHalfAt reader (int (offsetof (elf_header elf) ''e_shentsize'')))) mod 2 ^ off_bits elf"

definition section_table :: "ELF \<Rightarrow> Reader \<Rightarrow> nat list" where
  "section_table elf reader = takeWhile (\<lambda>off. off \<noteq> 0) (map (header_at elf reader) [0..<header_count elf reader])"

lemma init_offsets:
  "iter_offsets elf (SectionIterator_init elf reader) = map (header_at elf reader) [0..<header_count elf reader]"
  "table_count (SectionIterator_init elf reader) = header_count elf reader"
  by (simp_all add: iter_offsets_def SectionIterator_init_def header_at_def header_count_def Let_def)

definition dynamic_header :: "ELF \<Rightarrow> Reader \<Rightarrow> nat option" where
  "dynamic_header elf reader =
     find (\<lambda>off. GetWordAt reader (shdr_pos elf off ''sh_type'') = SHT_DYNAMIC) (section_table elf reader)"

text \<open>Where the dynamic section is and how long, and the number of its string table.\<close>

definition dynamic_section :: "ELF \<Rightarrow> Reader \<Rightarrow> nat \<times> nat" where
  "dynamic_section elf reader =
     (case dynamic_header elf reader of
        None \<Rightarrow> (0, 0)
      | Some off \<Rightarrow> (GetOffAt elf reader (shdr_pos elf off ''sh_offset''),
                    GetOffAt elf reader (shdr_pos elf off ''sh_size'')))"

definition string_link :: "ELF \<Rightarrow> Reader \<Rightarrow> int" where
  "string_link elf reader =
     (case dynamic_header elf reader of
        None \<Rightarrow> 0
      | Some off \<Rightarrow> sint (GetWordAt reader (shdr_pos elf off ''sh_link'')))"

lemma init_bound: "table_offset (SectionIterator_init elf reader) < 2 ^ off_bits elf"
  by (simp add: SectionIterator_init_def Let_def GetOffAt_bound)

lemma dynamic_lookup:
  "GetSectionOffsetByType elf reader (uint SHT_DYNAMIC) 0 = dynamic_section elf reader"
  "GetDynamicStringTableIndex elf reader = string_link elf reader"
  by (simp_all add: GetSectionOffsetByType_def GetDynamicStringTableIndex_def dynamic_section_def string_link_def dynamic_header_def
      section_table_def section_by_type_find dynamic_link_find init_bound init_offsets)

text \<open>The offsets of the entries that the dynamic iterator visits.\<close>

definition dyn_offsets :: "ELF \<Rightarrow> DynamicIterator \<Rightarrow> nat list" where
  "dyn_offsets elf iter =
     map (\<lambda>k. (dyn_offset iter + k * kEntrySize elf) mod 2 ^ off_bits elf)
       [(if started iter then 1 else 0)..<Suc (dyn_size iter div kEntrySize elf)]"

lemma dyn_offsets_next:
  assumes "dyn_offset iter < 2 ^ off_bits elf"
  shows "dyn_offsets elf iter =
    (case GetNext elf iter of (False, _) \<Rightarrow> [] | (True, iter') \<Rightarrow> dyn_offset iter' # dyn_offsets elf iter')"
proof -
  let ?k = "kEntrySize elf"
  have step: "dyn_size iter div ?k = Suc ((dyn_size iter - ?k) div ?k)" if "?k \<le> dyn_size iter"
    using that by (simp add: le_div_geq)
  have shift: "[Suc 0..<Suc (Suc n)] = Suc 0 # map Suc [Suc 0..<Suc n]" for n
    by (simp add: map_Suc_upt upt_conv_Cons del: upt_Suc)
  have one: "Suc 0 * ?k = ?k" by simp
  show ?thesis
    using assms
    by (auto simp: GetNext_def dyn_offsets_def upt_conv_Cons step shift off_add_def mod_shift one
        simp del: upt_Suc mult_Suc)
qed

lemma GetNext_bound:
  "dyn_offset iter < 2 ^ off_bits elf \<Longrightarrow> dyn_offset (snd (GetNext elf iter)) < 2 ^ off_bits elf"
  by (simp add: GetNext_def off_add_def)

text \<open>
  The entries of the dynamic section, and the bytes behind the last of them, read as an entry.
\<close>

definition dyn_entry :: "ELF \<Rightarrow> Reader \<Rightarrow> nat \<Rightarrow> nat \<times> nat" where
  "dyn_entry elf reader entry =
     (GetOffAt elf reader (to_off_t entry),
      GetOffAt elf reader (to_off_t (off_add elf entry (kTagSize elf))))"

definition entry_at :: "ELF \<Rightarrow> Reader \<Rightarrow> nat \<Rightarrow> nat \<times> nat" where
  "entry_at elf reader k =
     dyn_entry elf reader ((fst (dynamic_section elf reader) + k * kEntrySize elf) mod 2 ^ off_bits elf)"

definition entry_count :: "ELF \<Rightarrow> Reader \<Rightarrow> nat" where
  "entry_count elf reader = snd (dynamic_section elf reader) div kEntrySize elf"

definition dynamic_entries :: "ELF \<Rightarrow> Reader \<Rightarrow> (nat \<times> nat) list" where
  "dynamic_entries elf reader = map (entry_at elf reader) [0..<entry_count elf reader]"

definition past_entry :: "ELF \<Rightarrow> Reader \<Rightarrow> nat \<times> nat" where
  "past_entry elf reader = entry_at elf reader (entry_count elf reader)"

lemma iterator_entries:
  "map (dyn_entry elf reader) (dyn_offsets elf (DynamicIterator_init elf reader)) =
     dynamic_entries elf reader @ (if entry_count elf reader = 0 then [] else [past_entry elf reader])"
proof -
  let ?n = "snd (dynamic_section elf reader)"
  have "entry_count elf reader = 0 \<longleftrightarrow> ?n < kEntrySize elf"
    using kEntrySize_pos [of elf] by (auto simp: entry_count_def div_eq_0_iff simp del: kEntrySize_pos)
  then show ?thesis
    by (simp add: dynamic_entries_def past_entry_def entry_at_def dyn_offsets_def DynamicIterator_init_def dynamic_lookup entry_count_def case_prod_unfold Let_def comp_def)
qed

lemma DynamicIterator_bound: "dyn_offset (DynamicIterator_init elf reader) < 2 ^ off_bits elf"
  by (simp add: DynamicIterator_init_def dynamic_lookup dynamic_section_def GetOffAt_bound case_prod_unfold Let_def
      split: option.split)

lemma iter_entry:
  "GetTag elf reader iter = fst (dyn_entry elf reader (dyn_offset iter))"
  "GetValue elf reader iter = snd (dyn_entry elf reader (dyn_offset iter))"
  by (simp_all add: GetTag_def GetValue_def dyn_entry_def)

text \<open>The strings that a list of entries names under a tag.\<close>

definition tagged :: "ELF \<Rightarrow> Reader \<Rightarrow> int \<Rightarrow> nat \<Rightarrow> (nat \<times> nat) list \<Rightarrow> string list" where
  "tagged elf reader i tag entries =
     map (\<lambda>(t, v). GetStringByIndex elf reader v i) (filter (\<lambda>(t, v). t = tag) entries)"

lemma needed_libs_loop_entries:
  assumes "dyn_offset iter < 2 ^ off_bits elf"
  shows "needed_libs_loop elf reader i iter result count =
    (let libs = filter (\<lambda>s. s \<noteq> []) (tagged elf reader i DT_NEEDED (map (dyn_entry elf reader) (dyn_offsets elf iter)))
     in (count + length libs, result @ libs))"
  using assms
proof (induction elf reader i iter result count rule: needed_libs_loop.induct)
  case (1 elf reader i iter result count)
  obtain b iter' where nx: "GetNext elf iter = (b, iter')" by fastforce
  have bound: "dyn_offset iter' < 2 ^ off_bits elf" using GetNext_bound [OF "1.prems"] nx by simp
  show ?case
  proof (cases b)
    case True
    then have b: "b = True" by simp
    note IH = "1.IH"(1) [OF nx [symmetric] b _ refl _ bound] "1.IH"(2) [OF nx [symmetric] b _ refl _ bound]
      "1.IH"(3) [OF nx [symmetric] b _ bound]
    have "dyn_offsets elf iter = dyn_offset iter' # dyn_offsets elf iter'"
      using dyn_offsets_next [OF "1.prems"] nx True by simp
    then show ?thesis
      using nx True
      by (subst needed_libs_loop.simps)
        (simp add: Let_def IH [folded Suc_eq_plus1, unfolded iter_entry] iter_entry tagged_def case_prod_unfold)
  next
    case False
    then show ?thesis
      using nx
      by (subst needed_libs_loop.simps, subst dyn_offsets_next [OF "1.prems"]) (simp add: tagged_def)
  qed
qed

lemma lib_name_loop_entries:
  assumes "dyn_offset iter < 2 ^ off_bits elf"
  shows "lib_name_loop elf reader i iter =
    (case tagged elf reader i DT_SONAME (map (dyn_entry elf reader) (dyn_offsets elf iter)) of
       [] \<Rightarrow> [] | s # _ \<Rightarrow> s)"
  using assms
proof (induction elf reader i iter rule: lib_name_loop.induct)
  case (1 elf reader i iter)
  obtain b iter' where nx: "GetNext elf iter = (b, iter')" by fastforce
  have bound: "dyn_offset iter' < 2 ^ off_bits elf" using GetNext_bound [OF "1.prems"] nx by simp
  show ?case
    using "1.IH" [OF nx [symmetric]] bound nx
    by (subst lib_name_loop.simps, subst dyn_offsets_next [OF "1.prems"])
      (cases b, simp_all add: iter_entry tagged_def case_prod_unfold)
qed

text \<open>
  A string of the file: the string table by its number, and the bytes of the file from an index
  into the table up to a NUL or the end of the table.
\<close>

definition string_table :: "ELF \<Rightarrow> Reader \<Rightarrow> nat \<times> nat" where
  "string_table elf reader =
     (let k = nat (string_link elf reader); off = header_at elf reader k
      in if k < header_count elf reader \<and> off \<noteq> 0
         then (GetOffAt elf reader (shdr_pos elf off ''sh_offset''),
               GetOffAt elf reader (shdr_pos elf off ''sh_size''))
         else (0, 0))"

definition table_string :: "ELF \<Rightarrow> Reader \<Rightarrow> u8 list \<Rightarrow> nat \<Rightarrow> string" where
  "table_string elf reader content v =
     (let (start, nbytes) = string_table elf reader
      in if string_link elf reader \<noteq> 0 \<and> start \<noteq> 0 \<and> v < nbytes
         then map (\<lambda>b. char_of (unat b)) (takeWhile (\<lambda>b. b \<noteq> 0) (take (nbytes - v) (drop (start + v) content)))
         else [])"

definition strings_fit :: "ELF \<Rightarrow> Reader \<Rightarrow> bool" where
  "strings_fit elf reader \<longleftrightarrow>
     (let (start, nbytes) = string_table elf reader in start + nbytes < 2 ^ off_bits elf \<and> start + nbytes < 2 ^ 63)"

definition named :: "ELF \<Rightarrow> Reader \<Rightarrow> u8 list \<Rightarrow> nat \<Rightarrow> (nat \<times> nat) list \<Rightarrow> string list" where
  "named elf reader content tag entries =
     map (\<lambda>(t, v). table_string elf reader content v) (filter (\<lambda>(t, v). t = tag) entries)"

lemma Skip_offset:
  assumes "table_offset iter < 2 ^ off_bits elf"
  shows "fst (NextOffset elf (Skip elf n iter)) = (if n < table_count iter then iter_offsets elf iter ! n else 0)"
  using assms
proof (induction n arbitrary: iter)
  case 0
  then show ?case by (cases "table_count iter") (simp_all add: NextOffset_advance iter_offsets_step)
next
  case (Suc n)
  show ?case
  proof (cases "table_count iter")
    case 0
    then show ?thesis by (simp add: NextOffset_advance)
  next
    case (Suc m)
    then have "Skip elf (Suc n) iter = Skip elf n (advance elf iter)" "table_count (advance elf iter) = m"
      by (simp_all add: advance_def)
    then show ?thesis using Suc.IH [of "advance elf iter"] Suc.prems Suc by (simp add: iter_offsets_step)
  qed
qed

lemma section_by_index:
  "GetSectionOffsetByIndex elf reader (string_link elf reader) 0 = string_table elf reader"
  by (simp add: GetSectionOffsetByIndex_def string_table_def Let_def Skip_offset init_bound init_offsets)

lemma string_by_table:
  assumes "reader = FileLittleEndianReader content \<or> reader = FileBigEndianReader content" "strings_fit elf reader"
  shows "GetStringByIndex elf reader v (string_link elf reader) = table_string elf reader content v"
proof -
  obtain start nbytes where t: "string_table elf reader = (start, nbytes)" by fastforce
  have fit: "start + nbytes < 2 ^ off_bits elf" "start + nbytes < 2 ^ 63" using assms(2) t by (simp_all add: strings_fit_def)
  have loop: "string_loop elf reader (off_add elf start v) (nbytes - v) =
      map (\<lambda>b. char_of (unat b)) (takeWhile (\<lambda>b. b \<noteq> 0) (take (nbytes - v) (drop (start + v) content)))" if "v < nbytes"
  proof -
    have "off_add elf start v = start + v" using fit that by (simp add: off_add_def)
    moreover have "start + v + (nbytes - v) < 2 ^ off_bits elf" "start + v + (nbytes - v) < 2 ^ 63" using fit that by simp_all
    ultimately show ?thesis using assms(1) le.string_loop_content be.string_loop_content by metis
  qed
  show ?thesis using loop by (simp add: GetStringByIndex_def table_string_def section_by_index t)
qed

lemma tagged_named:
  assumes "reader = FileLittleEndianReader content \<or> reader = FileBigEndianReader content" "strings_fit elf reader"
  shows "tagged elf reader (string_link elf reader) tag entries = named elf reader content tag entries"
  by (simp add: tagged_def named_def string_by_table [OF assms])

lemma libs_by_entries:
  assumes "reader = FileLittleEndianReader content \<or> reader = FileBigEndianReader content" "strings_fit elf reader"
  defines "entries \<equiv> dynamic_entries elf reader @ (if entry_count elf reader = 0 then [] else [past_entry elf reader])"
  shows "GetNeededLibsT elf reader result =
     (let libs = filter (\<lambda>s. s \<noteq> []) (named elf reader content DT_NEEDED entries) in (length libs, result @ libs))"
    "GetLibNameT elf reader = (case named elf reader content DT_SONAME entries of [] \<Rightarrow> [] | s # _ \<Rightarrow> s)"
  unfolding entries_def
  by (simp_all add: GetNeededLibsT_def GetLibNameT_def needed_libs_loop_entries lib_name_loop_entries
      DynamicIterator_bound iterator_entries dynamic_lookup tagged_named [OF assms(1,2)])

text \<open>
  C11.  The iterators compute what one reads off the tables of a file, for both classes and both byte
  orders: the needed libraries are the non-empty strings that the \<open>DT_NEEDED\<close> entries of the
  dynamic section name, in order and appended to what the caller had, and the library's name is
  the string of the first \<open>DT_SONAME\<close> entry.  The string table must not wrap around the range of
  offsets, and the bytes behind the dynamic section must not read as an entry with one of the two
  tags.
\<close>

theorem needed_libs_by_tables:
  assumes "reader = FileLittleEndianReader content \<or> reader = FileBigEndianReader content"
    and "strings_fit elf reader" "fst (past_entry elf reader) \<noteq> DT_NEEDED" "fst (past_entry elf reader) \<noteq> DT_SONAME"
  shows "GetNeededLibsT elf reader result =
     (let libs = filter (\<lambda>s. s \<noteq> []) (named elf reader content DT_NEEDED (dynamic_entries elf reader))
      in (length libs, result @ libs)) \<and>
   GetLibNameT elf reader =
     (case named elf reader content DT_SONAME (dynamic_entries elf reader) of [] \<Rightarrow> [] | s # _ \<Rightarrow> s)"
  unfolding libs_by_entries [OF assms(1,2)] using assms(3,4) by (simp add: named_def case_prod_unfold)

section \<open>One entry too many\<close>

text \<open>
  C37.  The dynamic iterator goes one entry past the section: when the section has any entries, the
  bytes behind it are read as another one, so that a \<open>DT_NEEDED\<close> tag there adds a library to
  those that the section names.
\<close>

theorem dynamic_iterator_overruns_section:
  assumes "reader = FileLittleEndianReader content \<or> reader = FileBigEndianReader content"
    and "strings_fit elf reader" "0 < entry_count elf reader"
  shows "GetNeededLibsT elf reader result =
     (let libs = filter (\<lambda>s. s \<noteq> [])
            (named elf reader content DT_NEEDED (dynamic_entries elf reader @ [past_entry elf reader]))
      in (length libs, result @ libs))"
  unfolding libs_by_entries(1) [OF assms(1,2)] using assms(3) by simp

text \<open>
  Little-endian 32-bit files: the header, a string table with one name, the terminating entry
  of a dynamic section, then bytes that read as a \<open>DT_NEEDED\<close> entry.  The section
  has a given number of bytes: 8 for the first entry only, 16 for both.
\<close>

definition example_shdr :: "u32 \<Rightarrow> u32 \<Rightarrow> u32 \<Rightarrow> u32 \<Rightarrow> u8 list" where
  "example_shdr sh_type sh_offset sh_size sh_link =
     put_u32_le 0 @ put_u32_le sh_type @ put_u32_le 0 @ put_u32_le 0 @ put_u32_le sh_offset @
     put_u32_le sh_size @ put_u32_le sh_link @ put_u32_le 0 @ put_u32_le 0 @ put_u32_le 0"

definition example_image :: "u32 \<Rightarrow> u8 list" where
  "example_image nbytes =
     [0x7f, 0x45, 0x4c, 0x46, 1, 1, 1] @ replicate 25 0 @ put_u32_le 80 @ replicate 10 0 @
     put_u16_le 40 @ put_u16_le 2 @ put_u16_le 0 @
     [0] @ map of_char ''libc.so'' @ replicate 4 0 @
     put_u32_le 0 @ put_u32_le 0 @
     put_u32_le 1 @ put_u32_le 1 @
     example_shdr 6 64 nbytes 1 @ example_shdr 3 52 12 0"

definition example_reader :: "u32 \<Rightarrow> Reader" where
  "example_reader nbytes = FileLittleEndianReader (example_image nbytes)"

lemma example_bytes:
  "FileReader_GetBytesAt (example_image n) 32 4 = Some (put_u32_le 80)"
  "FileReader_GetBytesAt (example_image n) 46 2 = Some (put_u16_le 40)"
  "FileReader_GetBytesAt (example_image n) 48 2 = Some (put_u16_le 2)"
  "FileReader_GetBytesAt (example_image n) 64 4 = Some (put_u32_le 0)"
  "FileReader_GetBytesAt (example_image n) 68 4 = Some (put_u32_le 0)"
  "FileReader_GetBytesAt (example_image n) 72 4 = Some (put_u32_le 1)"
  "FileReader_GetBytesAt (example_image n) 76 4 = Some (put_u32_le 1)"
  "FileReader_GetBytesAt (example_image n) 80 4 = Some (put_u32_le 0)"
  "FileReader_GetBytesAt (example_image n) 84 4 = Some (put_u32_le 6)"
  "FileReader_GetBytesAt (example_image n) 96 4 = Some (put_u32_le 64)"
  "FileReader_GetBytesAt (example_image n) 100 4 = Some (put_u32_le n)"
  "FileReader_GetBytesAt (example_image n) 104 4 = Some (put_u32_le 1)"
  "FileReader_GetBytesAt (example_image n) 136 4 = Some (put_u32_le 52)"
  "FileReader_GetBytesAt (example_image n) 140 4 = Some (put_u32_le 12)"
  by (simp_all add: FileReader_GetBytesAt_def kMaxBytes_def example_image_def example_shdr_def
      put_u32_le_def put_u16_le_def)

lemmas example_reads = example_bytes(1) [THEN le.read32, folded example_reader_def]
  example_bytes(2-3) [THEN le.read16, folded example_reader_def]
  example_bytes(4-14) [THEN le.read32, folded example_reader_def]

lemma elf32_offsets:
  "offsetof (elf_header Elf32) ''e_shoff'' = 32"
  "offsetof (elf_header Elf32) ''e_shentsize'' = 46"
  "offsetof (elf_header Elf32) ''e_shnum'' = 48"
  "offsetof (elf_shdr Elf32) ''sh_type'' = 4"
  "offsetof (elf_shdr Elf32) ''sh_offset'' = 16"
  "offsetof (elf_shdr Elf32) ''sh_size'' = 20"
  "offsetof (elf_shdr Elf32) ''sh_link'' = 24"
  "sizeof (elf_shdr Elf32) = 40"
  by (simp_all add: offsetof_def sizeof_def align_up_def elf_header.simps elf_shdr.simps)

lemma to_off_t_small: "n < 2 ^ 63 \<Longrightarrow> to_off_t n = int n"
  by (simp add: to_off_t_def signed_of_nat signed_take_bit_int_eq_self)

lemmas example_eval = elf32_offsets to_off_t_small shdr_pos_def GetOffAt_def GetHalfAt_def GetWordAt_def example_reads

lemma example_table:
  "header_count Elf32 (example_reader n) = 2"
  "header_at Elf32 (example_reader n) 0 = 80" "header_at Elf32 (example_reader n) 1 = 120"
  by (simp_all add: header_count_def header_at_def example_eval)

lemma example_dynamic_header: "dynamic_header Elf32 (example_reader n) = Some 80"
  by (simp add: dynamic_header_def section_table_def example_table upt_conv_Cons example_eval SHT_DYNAMIC_def)

lemma example_section:
  "dynamic_section Elf32 (example_reader n) = (64, unat n)" "string_link Elf32 (example_reader n) = 1"
  "string_table Elf32 (example_reader n) = (52, 12)"
proof -
  show "dynamic_section Elf32 (example_reader n) = (64, unat n)" and l: "string_link Elf32 (example_reader n) = 1"
    by (simp_all add: dynamic_section_def string_link_def example_dynamic_header example_eval)
  show "string_table Elf32 (example_reader n) = (52, 12)"
    using example_table(3) [of n] by (simp add: string_table_def l example_table(1) example_eval)
qed

lemma example_fits: "strings_fit Elf32 (example_reader n)"
  by (simp add: strings_fit_def example_section)

lemma example_entry:
  "entry_at Elf32 (example_reader n) 0 = (0, 0)" "entry_at Elf32 (example_reader n) 1 = (1, 1)"
  "fst (entry_at Elf32 (example_reader n) 2) = 0"
  by (simp_all add: entry_at_def dyn_entry_def example_section kEntrySize_def kTagSize_def off_size_def off_add_def example_eval)

lemma example_string: "table_string Elf32 (example_reader n) (example_image n) 1 = ''libc.so''"
proof -
  have "take 11 (drop 53 (example_image n)) = map of_char ''libc.so'' @ replicate 4 0"
    by (simp add: example_image_def example_shdr_def put_u32_le_def put_u16_le_def)
  moreover have "map (\<lambda>b. char_of (unat b)) (takeWhile (\<lambda>b. b \<noteq> 0)
      (map of_char ''libc.so'' @ replicate 4 (0 :: u8))) = ''libc.so''" by code_simp
  ultimately show ?thesis by (simp add: table_string_def example_section)
qed

lemma example_entries:
  "dynamic_entries Elf32 (example_reader 8) = [(0, 0)]" "past_entry Elf32 (example_reader 8) = (1, 1)"
  "entry_count Elf32 (example_reader 8) = 1"
  "dynamic_entries Elf32 (example_reader 16) = [(0, 0), (1, 1)]" "fst (past_entry Elf32 (example_reader 16)) = 0"
proof -
  have c: "entry_count Elf32 (example_reader 8) = 1" "entry_count Elf32 (example_reader 16) = 2"
    by (simp_all add: entry_count_def example_section kEntrySize_def kTagSize_def off_size_def)
  then show "dynamic_entries Elf32 (example_reader 8) = [(0, 0)]" "past_entry Elf32 (example_reader 8) = (1, 1)"
    "entry_count Elf32 (example_reader 8) = 1"
    "dynamic_entries Elf32 (example_reader 16) = [(0, 0), (1, 1)]" "fst (past_entry Elf32 (example_reader 16)) = 0"
    using example_entry(2) by (simp_all add: dynamic_entries_def past_entry_def example_entry upt_conv_Cons)
qed

lemma example_needed: "GetNeededLibsT Elf32 (example_reader 8) [] = (1, [''libc.so''])"
  using libs_by_entries(1) [of "example_reader 8" "example_image 8" Elf32 "[]"] example_entries(1-3) example_fits example_string [of 8]
  by (simp add: example_reader_def [symmetric] named_def DT_NEEDED_def)

theorem needed_libs_by_tables_witness:
  "GetNeededLibsT Elf32 (example_reader 16) [''x''] = (1, [''x'', ''libc.so''])"
  using needed_libs_by_tables [of "example_reader 16" "example_image 16" Elf32 "[''x'']"] example_entries(4,5) example_fits
    example_string [of 16]
  by (simp add: example_reader_def [symmetric] named_def DT_NEEDED_def DT_SONAME_def)

theorem dynamic_iterator_overruns_section_witness:
  "dynamic_entries Elf32 (example_reader 8) = [(0, 0)] \<and>
   GetNeededLibsT Elf32 (example_reader 8) [] = (1, [''libc.so''])"
  using dynamic_iterator_overruns_section [of "example_reader 8" "example_image 8" Elf32 "[]"] example_entries(1-3) example_fits
    example_string [of 8]
  by (simp add: example_reader_def [symmetric] named_def DT_NEEDED_def)

end
