(* ===== verification/DependsSort.thy ===== *)
theory DependsSort
  imports DependsPaths
begin

text \<open>
  The dependency graph of \<open>ndk-depends.cc\<close> and \<open>GetTopologicalSortedLibraries\<close>: the graph's
  nodes, the counting of visitors and the loop that takes out the least visited library.
\<close>

section \<open>The dependency graph\<close>

datatype node_type = NODE_NONE | NODE_PATH | NODE_ERROR | NODE_SYSTEM

record LibNode =
  lib_type :: node_type
  lib_value :: string
  needed_libs :: "string list"

definition LibNode_init :: LibNode where
  "LibNode_init = \<lparr>lib_type = NODE_NONE, lib_value = [], needed_libs = []\<rparr>"

definition LibNode_Set :: "node_type \<Rightarrow> string \<Rightarrow> LibNode \<Rightarrow> LibNode" where
  "LibNode_Set type_p value_p node = node\<lparr>lib_type := type_p, lib_value := value_p\<rparr>"

type_synonym DependencyGraph = "(string, LibNode) std_map"
type_synonym VisitorMap = "(string, int) std_map"


section \<open>The sorter\<close>

text \<open>The counts are C \<open>int\<close>s.\<close>

definition visit :: "int option \<Rightarrow> int" where
  "visit old = (case old of Some n \<Rightarrow> c_int (n + 1) | None \<Rightarrow> 1)"

definition unvisit :: "int option \<Rightarrow> int" where
  "unvisit old = c_int ((case old of Some n \<Rightarrow> n | None \<Rightarrow> 0) - 1)"

definition count_node :: "string \<times> LibNode \<Rightarrow> VisitorMap \<Rightarrow> VisitorMap" where
  "count_node = (\<lambda>(libname, node) visitors.
     (let visitors1 = (if map_of visitors libname = None then map_put libname 0 visitors else visitors)
      in fold (\<lambda>lib v. map_put lib (visit (map_of v lib)) v) (needed_libs node) visitors1))"

definition count_visitors :: "DependencyGraph \<Rightarrow> VisitorMap" where
  "count_visitors deps = fold count_node deps []"

text \<open>The last library with the smallest count, in the order of the map.\<close>

definition find_min :: "VisitorMap \<Rightarrow> string \<times> int" where
  "find_min visitors =
     fold (\<lambda>(libname, n) (min_libname, min_visitors).
             if n \<le> min_visitors then (libname, n) else (min_libname, min_visitors))
       visitors ([], INT_MAX)"

text \<open>\<open>None\<close>: the loop never ends.\<close>

partial_function (option) sort_loop ::
    "DependencyGraph \<Rightarrow> VisitorMap \<Rightarrow> string list \<Rightarrow> console \<Rightarrow>
     (DependencyGraph \<times> string list \<times> console) exits option" where
  "sort_loop deps visitors result con =
     (if visitors = [] then Some (Inr (deps, result, con))
      else
        let (min_libname, min_visitors) = find_min visitors
        in case (if min_visitors = INT_MAX
                 then panic [] ''INTERNAL: Could not find minimum visited node!'' con
                 else Inr con) of
             Inl e \<Rightarrow> Some (Inl e)
           | Inr con1 \<Rightarrow>
               let con2 =
                     (if min_visitors \<noteq> 0
                      then eprintf (''WARNING: Circular dependency found from: '' @ min_libname @ [newline]) con1
                      else con1);
                   (node, deps1) = map_at LibNode_init min_libname deps;
                   visitors1 = map_erase min_libname visitors;
                   visitors2 = fold (\<lambda>lib v. map_put lib (unvisit (map_of v lib)) v) (needed_libs node) visitors1
               in sort_loop deps1 visitors2 (result @ [min_libname]) con2)"

definition GetTopologicalSortedLibraries ::
    "DependencyGraph \<Rightarrow> console \<Rightarrow> (DependencyGraph \<times> string list \<times> console) exits option" where
  "GetTopologicalSortedLibraries deps con = sort_loop deps (count_visitors deps) [] con"


section \<open>The graph as a relation\<close>

definition needs :: "DependencyGraph \<Rightarrow> string \<Rightarrow> string list" where
  "needs deps lib = (case map_of deps lib of Some node \<Rightarrow> needed_libs node | None \<Rightarrow> [])"

definition edges :: "DependencyGraph \<Rightarrow> (string \<times> string) set" where
  "edges deps = {(x, y). y \<in> set (needs deps x)}"

definition libs :: "DependencyGraph \<Rightarrow> string set" where
  "libs deps = dom (map_of deps)"

lemma finite_libs [simp]: "finite (libs deps)"
  by (simp add: libs_def finite_dom_map_of)

lemma libs_keys: "libs deps = fst ` set deps"
  by (simp add: libs_def dom_map_of_conv_image_fst)

lemma needs_outside: "x \<notin> libs deps \<Longrightarrow> needs deps x = []"
  by (simp add: libs_def needs_def domIff)

text \<open>\<open>deps[lib]\<close> may add an empty node, which needs nothing.\<close>

lemma map_at_node:
  assumes "sorted_map deps" "map_at LibNode_init lib deps = (node, deps')"
  shows "needed_libs node = needs deps lib" "needs deps' = needs deps" "sorted_map deps'"
  using assms
  by (auto simp: map_at_def needs_def LibNode_init_def fun_eq_iff split: option.splits if_splits)

text \<open>Every library needed by one in the graph is in the graph.\<close>

definition closed_graph :: "DependencyGraph \<Rightarrow> bool" where
  "closed_graph deps \<longleftrightarrow> sorted_map deps \<and> (\<forall>x. set (needs deps x) \<subseteq> libs deps)"


section \<open>What a finished run has printed\<close>

text \<open>
  In the output of a run that ends, every library that an output library needs comes out
  again after it: taking out a library puts what it needs back into the map.
\<close>

definition chained :: "(string \<Rightarrow> string list) \<Rightarrow> string list \<Rightarrow> bool" where
  "chained N xs \<longleftrightarrow> (\<forall>i<length xs. set (N (xs ! i)) \<subseteq> set (drop (Suc i) xs))"

lemma chained_Cons: "chained N (x # xs) \<longleftrightarrow> set (N x) \<subseteq> set xs \<and> chained N xs"
  by (auto simp: chained_def All_less_Suc2)

lemma sort_loop_output:
  assumes "sort_loop deps visitors result con = Some (Inr (deps', res, con'))"
    and "sorted_map deps" "sorted_map visitors"
  shows "\<exists>xs. res = result @ xs \<and> dom (map_of visitors) \<subseteq> set xs \<and> chained (needs deps) xs"
proof -
  have "\<forall>deps' res con'. r = Inr (deps', res, con') \<longrightarrow> sorted_map deps \<longrightarrow> sorted_map visitors \<longrightarrow>
      (\<exists>xs. res = result @ xs \<and> dom (map_of visitors) \<subseteq> set xs \<and> chained (needs deps) xs)"
    if "sort_loop deps visitors result con = Some r" for r
  proof (rule sort_loop.raw_induct [OF _ that], goal_cases)
    case (1 f deps visitors result con r)
    show ?case
    proof (intro allI impI)
      fix deps' res con'
      assume r: "r = Inr (deps', res, con')" and sorted: "sorted_map deps" "sorted_map visitors"
      show "\<exists>xs. res = result @ xs \<and> dom (map_of visitors) \<subseteq> set xs \<and> chained (needs deps) xs"
      proof (cases "visitors = []")
        case True
        with 1(2) r show ?thesis by (auto simp: chained_def)
      next
        case False
        obtain m n where m: "find_min visitors = (m, n)" by fastforce
        obtain node deps1 where at: "map_at LibNode_init m deps = (node, deps1)" by fastforce
        note node = map_at_node [OF sorted(1) at]
        let ?v = "fold (\<lambda>lib v. map_put lib (unvisit (map_of v lib)) v) (needed_libs node) (map_erase m visitors)"
        have "n \<noteq> INT_MAX"
          using 1(2) False r m
            panic_exits [of "[]" "''INTERNAL: Could not find minimum visited node!''" con]
          by (auto simp: Let_def)
        then obtain con2 where ret: "f deps1 ?v (result @ [m]) con2 = Some (Inr (deps', res, con'))"
          using 1(2) False r m at by (simp add: Let_def)
        have s: "sorted_map deps1" "sorted_map ?v"
          using node sorted by (simp_all add: smap.valid_update_all)
        obtain xs where xs: "res = (result @ [m]) @ xs"
          "dom (map_of ?v) \<subseteq> set xs" "chained (needs deps1) xs"
          using 1(1) [OF ret, rule_format, OF refl s] by (elim exE conjE)
        have "dom (map_of ?v) = dom ((map_of visitors)(m := None)) \<union> set (needs deps m)"
          using node(1) smap.dom_update_all [of "map_erase m visitors" unvisit] sorted by simp
        then have "dom (map_of visitors) \<subseteq> set (m # xs)" "set (needs deps m) \<subseteq> set xs"
          using xs(2) by auto
        with xs(1,3) node(2) show ?thesis
          by (intro exI [of _ "m # xs"]) (simp add: chained_Cons)
      qed
    qed
  qed
  with assms show ?thesis by blast
qed

lemma sorted_fold_visit [simp]:
  "sorted_map v \<Longrightarrow> sorted_map (fold (\<lambda>lib v. map_put lib (visit (map_of v lib)) v) ks v)"
  "sorted_map v \<Longrightarrow> sorted_map (fold (\<lambda>lib v. map_put lib (unvisit (map_of v lib)) v) ks v)"
  using smap.valid_update_all [of v visit ks] smap.valid_update_all [of v unvisit ks] by blast+

lemma sorted_count_node [simp]: "sorted_map v \<Longrightarrow> sorted_map (count_node p v)"
  by (cases p) (simp add: count_node_def Let_def)

lemma dom_count_node:
  "sorted_map v \<Longrightarrow>
     dom (map_of (count_node (x, node) v)) = insert x (dom (map_of v)) \<union> set (needed_libs node)"
  by (auto simp: count_node_def Let_def smap.dom_update_all)

lemma fold_count_node:
  assumes "sorted_map v"
  shows "sorted_map (fold count_node ps v)"
    and "dom (map_of (fold count_node ps v)) =
      dom (map_of v) \<union> fst ` set ps \<union> (\<Union>(x, node)\<in>set ps. set (needed_libs node))"
  using assms
proof (induction ps arbitrary: v)
  case (Cons p ps)
  { case 1 then show ?case using Cons.IH(1) by simp }
  { case 2
    obtain x node where p: "p = (x, node)" by fastforce
    show ?case
      using Cons.IH(2) [OF sorted_count_node [OF 2]] dom_count_node [OF 2, of x node]
      unfolding p fold_simps by (simp only: set_simps image_insert UN_insert fst_conv prod.case) blast }
qed simp_all

lemma dom_count_visitors:
  assumes "closed_graph deps"
  shows "dom (map_of (count_visitors deps)) = libs deps"
proof -
  have "set (needed_libs node) \<subseteq> libs deps" if "(x, node) \<in> set deps" for x node
  proof -
    have "needs deps x = needed_libs node"
      using assms that by (simp add: closed_graph_def needs_def map_of_entry)
    then show ?thesis using assms unfolding closed_graph_def by metis
  qed
  then show ?thesis
    using fold_count_node(2) [of "[]" deps] by (auto simp: count_visitors_def libs_keys)
qed

text \<open>Along an edge the last occurrence in a chained list moves to the right.\<close>

lemma chained_later:
  assumes "chained N xs" "i < length xs" "y \<in> set (N (xs ! i))"
  shows "\<exists>j. i < j \<and> j < length xs \<and> xs ! j = y"
proof -
  have "y \<in> set (drop (Suc i) xs)" using assms by (auto simp: chained_def)
  then obtain k where "k < length xs - Suc i" "drop (Suc i) xs ! k = y"
    by (auto simp: in_set_conv_nth)
  then show ?thesis by (intro exI [of _ "Suc i + k"]) auto
qed

lemma chained_trancl:
  assumes "chained (needs deps) xs" "(x, y) \<in> (edges deps)\<^sup>+" "i < length xs" "xs ! i = x"
  shows "\<exists>j. i < j \<and> j < length xs \<and> xs ! j = y"
  using assms(2)
proof (induction rule: trancl_induct)
  case (base y)
  then show ?case using chained_later [OF assms(1,3), of y] assms(4) by (simp add: edges_def)
next
  case (step y z)
  then obtain j where "i < j" "j < length xs" "xs ! j = y" by blast
  then show ?case
    using chained_later [OF assms(1), of j z] step.hyps(2) less_trans by (auto simp: edges_def)
qed

lemma chained_acyclic:
  assumes "chained (needs deps) xs" "libs deps \<subseteq> set xs"
  shows "acyclic (edges deps)"
proof (rule acyclicI, intro allI notI)
  fix x
  assume cyc: "(x, x) \<in> (edges deps)\<^sup>+"
  then obtain z where "(x, z) \<in> edges deps" by (meson tranclD)
  then have "x \<in> libs deps" using needs_outside by (force simp: edges_def)
  then have ex: "\<exists>i<length xs. xs ! i = x" using assms(2) by (auto simp: in_set_conv_nth)
  define i where "i = Max {i. i < length xs \<and> xs ! i = x}"
  have fin: "finite {i. i < length xs \<and> xs ! i = x}" by simp
  have "i \<in> {i. i < length xs \<and> xs ! i = x}"
    unfolding i_def using ex by (intro Max_in fin) auto
  then obtain j where "i < j" "j < length xs" "xs ! j = x"
    using chained_trancl [OF assms(1) cyc, of i] by auto
  then have "j \<le> i" unfolding i_def by (intro Max_ge fin) simp
  with \<open>i < j\<close> show False by simp
qed

text \<open>
  C35.  A circular dependency is not only warned about: on a graph with a cycle the sorter
  never returns, since a library taken out of the visitor map is put back in as soon as one
  of its users is taken out.
\<close>

theorem topological_sort_cycle_never_returns:
  assumes "closed_graph deps" and "\<not> acyclic (edges deps)"
  shows "GetTopologicalSortedLibraries deps con \<noteq> Some (Inr r)"
proof
  assume ret: "GetTopologicalSortedLibraries deps con = Some (Inr r)"
  obtain deps' res con' where r: "r = (deps', res, con')" using prod_cases3 by blast
  have sorted: "sorted_map deps" "sorted_map (count_visitors deps)"
    using assms(1) fold_count_node(1) [of "[]"] by (auto simp: closed_graph_def count_visitors_def)
  obtain xs where "libs deps \<subseteq> set xs" "chained (needs deps) xs"
    using sort_loop_output [OF ret [unfolded GetTopologicalSortedLibraries_def r] sorted]
      dom_count_visitors [OF assms(1)] by auto
  with assms(2) chained_acyclic show False by blast
qed

text \<open>Two libraries that need each other.\<close>

definition cyclic_graph :: DependencyGraph where
  "cyclic_graph =
     [(''liba.so'', \<lparr>lib_type = NODE_PATH, lib_value = ''./liba.so'', needed_libs = [''libb.so'']\<rparr>),
      (''libb.so'', \<lparr>lib_type = NODE_PATH, lib_value = ''./libb.so'', needed_libs = [''liba.so'']\<rparr>)]"

theorem topological_sort_cycle_never_returns_witness:
  "(\<nexists>r. GetTopologicalSortedLibraries cyclic_graph \<lparr>g_verbose = 0, out = [], err = []\<rparr> = Some (Inr r)) \<and>
   needs cyclic_graph ''liba.so'' = [''libb.so''] \<and> needs cyclic_graph ''libb.so'' = [''liba.so'']"
proof -
  have n: "needs cyclic_graph ''liba.so'' = [''libb.so'']" "needs cyclic_graph ''libb.so'' = [''liba.so'']"
    by (simp_all add: needs_def cyclic_graph_def)
  have "sorted_map cyclic_graph" by (simp add: cyclic_graph_def sorted_map_def keys_def)
  moreover have libs: "libs cyclic_graph = {''liba.so'', ''libb.so''}"
    by (simp add: libs_keys cyclic_graph_def)
  have "set (needs cyclic_graph x) \<subseteq> libs cyclic_graph" for x
  proof (cases "x \<in> libs cyclic_graph")
    case True
    then consider "x = ''liba.so''" | "x = ''libb.so''" unfolding libs by blast
    then show ?thesis by cases (simp_all add: n libs)
  qed (simp add: needs_outside)
  ultimately have "closed_graph cyclic_graph" by (simp add: closed_graph_def)
  moreover have "(''liba.so'', ''liba.so'') \<in> (edges cyclic_graph)\<^sup>+"
    by (rule trancl_into_trancl [OF r_into_trancl, of _ "''libb.so''"])
      (simp_all add: edges_def n)
  then have "\<not> acyclic (edges cyclic_graph)" by (auto simp: acyclic_def)
  ultimately show ?thesis using topological_sort_cycle_never_returns n by blast
qed

section \<open>Sorting an acyclic graph\<close>

text \<open>How often the libraries of a set name a library, and how many names there are.\<close>

definition indeg :: "DependencyGraph \<Rightarrow> string set \<Rightarrow> string \<Rightarrow> nat" where
  "indeg deps S x = (\<Sum>y\<in>S. count_list (needs deps y) x)"

definition edge_count :: "DependencyGraph \<Rightarrow> nat" where
  "edge_count deps = (\<Sum>y\<in>libs deps. length (needs deps y))"

lemma indeg_le: "S \<subseteq> libs deps \<Longrightarrow> indeg deps S x \<le> edge_count deps"
  unfolding indeg_def edge_count_def
  by (rule order.trans [OF sum_mono2 [OF finite_libs] sum_mono]) (auto simp: count_le_length)

lemma indeg_remove:
  "finite S \<Longrightarrow> m \<in> S \<Longrightarrow> indeg deps S x = count_list (needs deps m) x + indeg deps (S - {m}) x"
  by (simp add: indeg_def sum.remove)

lemma indeg_0_iff:
  "finite S \<Longrightarrow> indeg deps S x = 0 \<longleftrightarrow> (\<forall>y\<in>S. (y, x) \<notin> edges deps)"
  by (simp add: indeg_def edges_def count_list_0_iff)

definition count_of :: "int option \<Rightarrow> int" where
  "count_of old = (case old of Some n \<Rightarrow> n | None \<Rightarrow> 0)"

lemma funpow_visit:
  "0 \<le> count_of old \<Longrightarrow> count_of old + int k \<le> INT_MAX \<Longrightarrow>
     count_of (((\<lambda>old. Some (visit old)) ^^ k) old) = count_of old + int k"
proof (induction k)
  case (Suc k)
  then have "count_of (((\<lambda>old. Some (visit old)) ^^ k) old) = count_of old + int k" by simp
  moreover have "c_int (count_of old + int k + 1) = count_of old + int k + 1"
    using Suc.prems by (intro c_int_id) (auto simp: INT_MAX_def)
  ultimately show ?case by (auto simp: count_of_def visit_def split: option.splits)
qed simp

lemma funpow_unvisit:
  "int k \<le> n \<Longrightarrow> n \<le> INT_MAX \<Longrightarrow>
     ((\<lambda>old. Some (unvisit old)) ^^ k) (Some n) = Some (n - int k)"
proof (induction k)
  case (Suc k)
  then have "((\<lambda>old. Some (unvisit old)) ^^ k) (Some n) = Some (n - int k)" by simp
  moreover have "c_int (n - int k - 1) = n - int k - 1"
    using Suc.prems by (intro c_int_id) (auto simp: INT_MAX_def)
  ultimately show ?case by (simp add: unvisit_def)
qed simp

lemma count_node_count:
  assumes "sorted_map v" "0 \<le> count_of (map_of v x)"
    and "count_of (map_of v x) + int (count_list (needed_libs node) x) \<le> INT_MAX"
  shows "count_of (map_of (count_node (y, node) v) x) =
    count_of (map_of v x) + int (count_list (needed_libs node) x)"
proof -
  define v1 where "v1 = (if map_of v y = None then map_put y 0 v else v)"
  have v1: "sorted_map v1" "count_of (map_of v1 x) = count_of (map_of v x)"
    using assms(1) by (auto simp: v1_def count_of_def)
  have "count_node (y, node) v = fold (\<lambda>lib v. map_put lib (visit (map_of v lib)) v) (needed_libs node) v1"
    by (simp add: count_node_def v1_def)
  then show ?thesis
    using smap.find_update_all [OF v1(1), of visit "needed_libs node" x]
      funpow_visit [of "map_of v1 x" "count_list (needed_libs node) x"] v1(2) assms(2,3)
    by simp
qed

lemma fold_count_node_count:
  assumes "sorted_map v" "0 \<le> count_of (map_of v x)"
    and "count_of (map_of v x) + int (\<Sum>(y, node)\<leftarrow>ps. count_list (needed_libs node) x) \<le> INT_MAX"
  shows "count_of (map_of (fold count_node ps v) x) =
    count_of (map_of v x) + int (\<Sum>(y, node)\<leftarrow>ps. count_list (needed_libs node) x)"
  using assms
proof (induction ps arbitrary: v)
  case (Cons p ps)
  obtain y node where p: "p = (y, node)" by fastforce
  have "count_of (map_of (count_node p v) x) = count_of (map_of v x) + int (count_list (needed_libs node) x)"
    unfolding p using Cons.prems by (intro count_node_count) (auto simp: p)
  then show ?case
    using Cons.IH [of "count_node p v"] Cons.prems by (simp add: p)
qed simp

lemma sum_nodes:
  assumes "sorted_map deps"
  shows "(\<Sum>(y, node)\<leftarrow>deps. count_list (needed_libs node) x) = indeg deps (libs deps) x"
proof -
  have d: "distinct (map fst deps)" using assms by (rule sorted_map_distinct)
  have "(\<Sum>(y, node)\<leftarrow>deps. count_list (needed_libs node) x) =
      (\<Sum>p\<leftarrow>deps. count_list (needs deps (fst p)) x)"
    using assms by (intro arg_cong [of _ _ sum_list] map_cong) (auto simp: needs_def map_of_entry)
  also have "\<dots> = (\<Sum>y\<leftarrow>map fst deps. count_list (needs deps y) x)" by (simp add: comp_def)
  also have "\<dots> = (\<Sum>y\<in>set (map fst deps). count_list (needs deps y) x)"
    using d by (rule sum_list_distinct_conv_sum_set)
  finally show ?thesis by (simp add: indeg_def libs_keys)
qed

lemma count_visitors_indeg:
  assumes "closed_graph deps" "int (edge_count deps) < INT_MAX"
  shows "map_of (count_visitors deps) x =
    (if x \<in> libs deps then Some (int (indeg deps (libs deps) x)) else None)"
proof (cases "x \<in> libs deps")
  case True
  have sorted: "sorted_map deps" using assms(1) by (simp add: closed_graph_def)
  have "int (indeg deps (libs deps) x) \<le> INT_MAX"
    using indeg_le [of "libs deps" deps x] assms(2) by simp
  then have "count_of (map_of (count_visitors deps) x) = int (indeg deps (libs deps) x)"
    using fold_count_node_count [of "[]" x deps] sum_nodes [OF sorted, of x]
    by (simp add: count_visitors_def count_of_def)
  moreover obtain n where "map_of (count_visitors deps) x = Some n"
    using True dom_count_visitors [OF assms(1)] by blast
  ultimately show ?thesis using True by (simp add: count_of_def)
next
  case False
  then have "x \<notin> dom (map_of (count_visitors deps))" using dom_count_visitors [OF assms(1)] by simp
  with False show ?thesis by (simp add: domIff)
qed

text \<open>The least visited library: its count is the minimum of the map.\<close>

lemma find_min_fold:
  fixes v :: int
  assumes "fold (\<lambda>(libname, n) (min_libname, min_visitors).
      if n \<le> min_visitors then (libname, n) else (min_libname, min_visitors)) vs (m0, v0) = (m, v)"
  shows "v \<le> v0 \<and> (\<forall>(k, w)\<in>set vs. v \<le> w) \<and> ((m, v) = (m0, v0) \<or> (m, v) \<in> set vs)"
  using assms
proof (induction vs arbitrary: m0 v0)
  case (Cons p vs)
  obtain k w where p: "p = (k, w)" by fastforce
  show ?case
  proof (cases "w \<le> v0")
    case True
    then show ?thesis using Cons.IH [of k w] Cons.prems unfolding p by auto
  next
    case False
    then show ?thesis using Cons.IH [of m0 v0] Cons.prems unfolding p by auto
  qed
qed simp

lemma find_min_zero:
  assumes "sorted_map visitors" "map_of visitors x = Some 0" "\<forall>k w. map_of visitors k = Some w \<longrightarrow> 0 \<le> w"
  shows "\<exists>m. find_min visitors = (m, 0) \<and> map_of visitors m = Some 0"
proof -
  obtain m v where mv: "find_min visitors = (m, v)" by fastforce
  note min = find_min_fold [OF mv [unfolded find_min_def]]
  have "(x, 0) \<in> set visitors" using assms(1,2) by (simp add: map_of_entry)
  then have "v \<le> 0" using min by blast
  then have "v \<noteq> INT_MAX" by (simp add: INT_MAX_def)
  then have "(m, v) \<in> set visitors" using min by blast
  then have m: "map_of visitors m = Some v" using assms(1) by (simp add: map_of_entry)
  then have "v = 0" using assms(3) \<open>v \<le> 0\<close> by force
  with m mv show ?thesis by simp
qed

text \<open>
  The invariant of the loop: the map holds the libraries not yet taken out, each with the
  number of times the others name it, and none of them names a library taken out.
\<close>

definition sort_inv :: "DependencyGraph \<Rightarrow> string set \<Rightarrow> VisitorMap \<Rightarrow> bool" where
  "sort_inv deps S visitors \<longleftrightarrow>
     sorted_map visitors \<and> S \<subseteq> libs deps \<and>
     (\<forall>x. map_of visitors x = (if x \<in> S then Some (int (indeg deps S x)) else None)) \<and>
     (\<forall>x. x \<notin> S \<longrightarrow> indeg deps S x = 0)"

lemma closed_outside: "closed_graph deps \<Longrightarrow> x \<notin> libs deps \<Longrightarrow> indeg deps S x = 0"
  unfolding indeg_def closed_graph_def
  by (rule sum.neutral) (auto simp: count_list_0_iff)

lemma sort_inv_start:
  assumes "closed_graph deps" "int (edge_count deps) < INT_MAX"
  shows "sort_inv deps (libs deps) (count_visitors deps)"
  using assms count_visitors_indeg closed_outside fold_count_node(1) [of "[]"]
  by (auto simp: sort_inv_def count_visitors_def)

lemma sort_inv_step:
  assumes inv: "sort_inv deps S visitors" and m: "m \<in> S" "indeg deps S m = 0"
    and small: "int (edge_count deps) < INT_MAX"
  shows "sort_inv deps (S - {m})
    (fold (\<lambda>lib v. map_put lib (unvisit (map_of v lib)) v) (needs deps m) (map_erase m visitors))"
proof -
  let ?v = "map_erase m visitors"
  have fin: "finite S" using inv finite_subset [OF _ finite_libs] by (auto simp: sort_inv_def)
  note split = indeg_remove [OF fin m(1)]
  have sorted: "sorted_map ?v" using inv by (simp add: sort_inv_def)
  have "((\<lambda>old. Some (unvisit old)) ^^ count_list (needs deps m) x) (map_of ?v x) =
      (if x \<in> S - {m} then Some (int (indeg deps (S - {m}) x)) else None)" for x
  proof (cases "x \<in> S - {m}")
    case True
    have "int (indeg deps S x) \<le> INT_MAX"
      using indeg_le [of S deps x] inv small by (simp add: sort_inv_def)
    moreover have "map_of ?v x = Some (int (indeg deps S x))"
      using True inv by (simp add: sort_inv_def)
    ultimately show ?thesis using True split [of deps x] by (simp add: funpow_unvisit)
  next
    case False
    then have "indeg deps S x = 0" using inv m(2) by (auto simp: sort_inv_def)
    then have "count_list (needs deps m) x = 0" using split [of deps x] by simp
    then show ?thesis using False inv by (auto simp: sort_inv_def)
  qed
  moreover have "indeg deps (S - {m}) x = 0" if "x \<notin> S - {m}" for x
    using that inv m(2) split [of deps x] by (cases "x = m") (auto simp: sort_inv_def)
  ultimately show ?thesis
    using inv sorted by (auto simp: sort_inv_def smap.find_update_all smap.valid_update_all)
qed

lemma acyclic_source:
  assumes "acyclic (edges deps)" "closed_graph deps" "S \<subseteq> libs deps" "S \<noteq> {}"
  shows "\<exists>m\<in>S. indeg deps S m = 0"
proof -
  have "edges deps \<subseteq> libs deps \<times> libs deps"
    using assms(2) needs_outside by (fastforce simp: edges_def closed_graph_def)
  then have "finite (edges deps)" by (rule finite_subset) simp
  then have "wf (edges deps)" using assms(1) by (rule finite_acyclic_wf)
  then obtain m where "m \<in> S" "\<And>y. (y, m) \<in> edges deps \<Longrightarrow> y \<notin> S"
    using assms(4) wfE_min' by blast
  moreover have "finite S" using assms(3) by (rule finite_subset [OF _ finite_libs])
  ultimately show ?thesis using indeg_0_iff by blast
qed

lemma sort_loop_acyclic:
  assumes "acyclic (edges deps)" "closed_graph deps" "int (edge_count deps) < INT_MAX"
    and "sort_inv deps S visitors"
  shows "\<exists>xs. sort_loop deps visitors result con = Some (Inr (deps, result @ xs, con)) \<and>
    distinct xs \<and> set xs = S"
  using assms(4)
proof (induction "card S" arbitrary: S visitors result)
  case 0
  have fin: "finite S" using 0(2) finite_subset [OF _ finite_libs] by (auto simp: sort_inv_def)
  then have S: "S = {}" using 0(1) by simp
  have "visitors = []"
    using 0(2) S by (cases visitors) (auto simp: sort_inv_def split: if_splits)
  with S show ?case by (simp add: sort_loop.simps)
next
  case (Suc n)
  have sub: "S \<subseteq> libs deps" using Suc.prems by (simp add: sort_inv_def)
  then have fin: "finite S" by (rule finite_subset [OF _ finite_libs])
  have "S \<noteq> {}" using Suc.hyps(2) by auto
  then obtain z where z: "z \<in> S" "indeg deps S z = 0"
    using acyclic_source [OF assms(1,2) sub] by blast
  have "\<exists>m. find_min visitors = (m, 0) \<and> map_of visitors m = Some 0"
    using Suc.prems z by (intro find_min_zero [of _ z]) (auto simp: sort_inv_def)
  then obtain m where min: "find_min visitors = (m, 0)" "map_of visitors m = Some 0" by blast
  have at_m: "map_of visitors m = (if m \<in> S then Some (int (indeg deps S m)) else None)"
    using Suc.prems by (simp add: sort_inv_def)
  have m: "find_min visitors = (m, 0)" "m \<in> S" "indeg deps S m = 0" "visitors \<noteq> []"
    using min at_m by (auto split: if_splits)
  obtain node where node: "map_at LibNode_init m deps = (node, deps)" "needed_libs node = needs deps m"
    using sub m(2) by (auto simp: libs_def map_at_def needs_def)
  let ?v = "fold (\<lambda>lib v. map_put lib (unvisit (map_of v lib)) v) (needs deps m) (map_erase m visitors)"
  have "n = card (S - {m})" using Suc.hyps(2) m(2) fin by simp
  from Suc.hyps(1) [OF this sort_inv_step [OF Suc.prems m(2,3) assms(3)], of "result @ [m]"]
  obtain xs where "sort_loop deps ?v (result @ [m]) con = Some (Inr (deps, (result @ [m]) @ xs, con))"
    "distinct xs" "set xs = S - {m}" by blast
  moreover have "sort_loop deps visitors result con = sort_loop deps ?v (result @ [m]) con"
    by (subst sort_loop.simps) (simp add: m node INT_MAX_def)
  ultimately show ?case using m(2) by (intro exI [of _ "m # xs"]) auto
qed

text \<open>
  C9.  On an acyclic graph that holds every library it names, the sorter ends without a
  warning; its output lists each library of the graph once, and every library comes before
  those it depends on.
\<close>

theorem topological_sort_correct:
  assumes "closed_graph deps" "acyclic (edges deps)" "int (edge_count deps) < INT_MAX"
  shows "\<exists>xs. GetTopologicalSortedLibraries deps con = Some (Inr (deps, xs, con)) \<and>
    distinct xs \<and> set xs = libs deps \<and>
    (\<forall>i<length xs. \<forall>j<length xs. (xs ! i, xs ! j) \<in> edges deps \<longrightarrow> i < j)"
proof -
  obtain xs where xs: "sort_loop deps (count_visitors deps) [] con = Some (Inr (deps, xs, con))"
    "distinct xs" "set xs = libs deps"
    using sort_loop_acyclic [OF assms(2,1,3) sort_inv_start [OF assms(1,3)], of "[]" con] by auto
  have "sorted_map deps" "sorted_map (count_visitors deps)"
    using assms(1) fold_count_node(1) [of "[]"] by (auto simp: closed_graph_def count_visitors_def)
  from sort_loop_output [OF xs(1) this] have "chained (needs deps) xs" by auto
  then have "i < j" if "i < length xs" "j < length xs" "(xs ! i, xs ! j) \<in> edges deps" for i j
    using chained_later [of "needs deps" xs i "xs ! j"] that xs(2)
    by (auto simp: edges_def nth_eq_iff_index_eq)
  then show ?thesis using xs by (auto simp: GetTopologicalSortedLibraries_def)
qed

text \<open>A library, the one it needs, and a system library that both need.\<close>

definition diamond_graph :: DependencyGraph where
  "diamond_graph =
     [(''liba.so'', \<lparr>lib_type = NODE_PATH, lib_value = ''./liba.so'', needed_libs = [''libb.so'', ''libc.so'']\<rparr>),
      (''libb.so'', \<lparr>lib_type = NODE_PATH, lib_value = ''./libb.so'', needed_libs = [''libc.so'']\<rparr>),
      (''libc.so'', \<lparr>lib_type = NODE_SYSTEM, lib_value = ''libc.so'', needed_libs = []\<rparr>)]"

lemma diamond_graph_facts:
  "needs diamond_graph ''liba.so'' = [''libb.so'', ''libc.so'']"
  "needs diamond_graph ''libb.so'' = [''libc.so'']"
  "needs diamond_graph ''libc.so'' = []"
  "libs diamond_graph = {''liba.so'', ''libb.so'', ''libc.so''}"
  "sorted_map diamond_graph"
  by (simp_all add: needs_def libs_keys sorted_map_def keys_def diamond_graph_def)

lemma diamond_graph_edges:
  "(x, y) \<in> edges diamond_graph \<longleftrightarrow>
     x = ''liba.so'' \<and> (y = ''libb.so'' \<or> y = ''libc.so'') \<or> x = ''libb.so'' \<and> y = ''libc.so''"
  by (simp add: edges_def needs_def diamond_graph_def)

lemma diamond_graph_ok:
  "closed_graph diamond_graph" "acyclic (edges diamond_graph)" "int (edge_count diamond_graph) < INT_MAX"
proof -
  have "set (needs diamond_graph x) \<subseteq> libs diamond_graph" for x
  proof (cases "x \<in> libs diamond_graph")
    case True
    then consider "x = ''liba.so''" | "x = ''libb.so''" | "x = ''libc.so''"
      unfolding diamond_graph_facts by blast
    then show ?thesis by cases (simp_all add: diamond_graph_facts)
  qed (simp add: needs_outside)
  then show "closed_graph diamond_graph" by (simp add: closed_graph_def diamond_graph_facts)
  show "acyclic (edges diamond_graph)"
    by (rule acyclicI_order [of _ "\<lambda>x. if x = ''liba.so'' then 2 else if x = ''libb.so'' then 1 else 0::nat"])
      (unfold diamond_graph_edges, elim disjE conjE, simp_all)
  show "int (edge_count diamond_graph) < INT_MAX"
    by (simp add: edge_count_def diamond_graph_facts INT_MAX_def)
qed

theorem topological_sort_correct_witness:
  "\<exists>xs. GetTopologicalSortedLibraries diamond_graph \<lparr>g_verbose = 0, out = [], err = []\<rparr> =
      Some (Inr (diamond_graph, xs, \<lparr>g_verbose = 0, out = [], err = []\<rparr>)) \<and>
    distinct xs \<and> set xs = {''liba.so'', ''libb.so'', ''libc.so''}"
proof -
  let ?con = "\<lparr>g_verbose = 0, out = [], err = []\<rparr>"
  obtain xs where "GetTopologicalSortedLibraries diamond_graph ?con = Some (Inr (diamond_graph, xs, ?con))"
    "distinct xs" "set xs = libs diamond_graph"
    using topological_sort_correct [OF diamond_graph_ok, of ?con] by (elim exE conjE)
  then show ?thesis unfolding diamond_graph_facts by (intro exI conjI)
qed

end
