(* ===== verification/DependsGraph.thy ===== *)
theory DependsGraph
  imports ElfFile DependsSort
begin

text \<open>
  The construction of the dependency graph in \<open>ndk-depends.cc\<close>: \<open>UpdateDependencies\<close>,
  \<open>BuildDependencyGraph\<close> and \<open>DumpDependencyGraph\<close>.
\<close>

section \<open>Building the graph\<close>

type_synonym build_state = "DependencyGraph \<times> string list \<times> console"

text \<open>
  The inner variable \<open>soname\<close> of the source only serves the messages: the graph is updated
  under the outer one, which is \<open>libname\<close>.
\<close>

definition UpdateDependencies :: "host \<Rightarrow> string \<Rightarrow> string \<Rightarrow> build_state \<Rightarrow> build_state exits" where
  "UpdateDependencies host libname libpath = (\<lambda>(deps, queue, con).
     (case (if libname \<noteq> [] \<and> map_of deps libname \<noteq> None
            then panic [] (''INTERNAL: Library already in graph: '' @ libname) con
            else Inr con) of
        Inl e \<Rightarrow> Inl e
      | Inr con1 \<Rightarrow>
          (case ElfFile_Open host 1 libpath ElfFile_new of
             (Some error, libfile) \<Rightarrow>
               Inr (map_put libname (LibNode_Set NODE_ERROR error LibNode_init) deps, queue, con1)
           | (None, libfile) \<Rightarrow>
               (case (GetLibName libfile, GetNeededLibs libfile (needed_libs LibNode_init)) of
                  (Some soname, Some (count, needed)) \<Rightarrow>
                    let con2 =
                          (if soname \<noteq> [] \<and> soname \<noteq> libname
                           then eprintf (''WARNING: Library has invalid soname ('' @ [CHR 0x27] @ soname @
                                  [CHR 0x27] @ ''): '' @ libpath @ [newline]) con1
                           else con1);
                        soname' = (if soname = [] then libname else soname);
                        node = (LibNode_Set NODE_PATH libpath LibNode_init)\<lparr>needed_libs := needed\<rparr>;
                        con3 = log_n 1 (soname' @ '' depends on:'') con2;
                        con4 = fold (\<lambda>lib. log_n 1 ('' '' @ lib)) needed con3;
                        con5 = log_n 1 [newline] con4
                    in Inr (map_put libname node deps, queue @ needed, con5)
                | _ \<Rightarrow> Inl (Crash NullDeref)))))"

text \<open>\<open>None\<close>: the work queue never becomes empty.\<close>

partial_function (option) build_loop :: "host \<Rightarrow> string list \<Rightarrow> build_state \<Rightarrow> (DependencyGraph \<times> console) exits option" where
  "build_loop host lib_search_path st =
     (case st of
        (deps, [], con) \<Rightarrow> Some (Inr (deps, con))
      | (deps, libname # queue, con) \<Rightarrow>
          if map_of deps libname \<noteq> None then build_loop host lib_search_path (deps, queue, con)
          else
            (case FindLibraryPath host libname lib_search_path con of
               (Some libpath, con1) \<Rightarrow>
                 (case UpdateDependencies host libname libpath (deps, queue, con1) of
                    Inl e \<Rightarrow> Some (Inl e)
                  | Inr st' \<Rightarrow> build_loop host lib_search_path st')
             | (None, con1) \<Rightarrow>
                 if IsAndroidSystemLib libname
                 then build_loop host lib_search_path
                   (map_put libname (LibNode_Set NODE_SYSTEM libname LibNode_init) deps, queue,
                    log_n 1 (''Android system library: '' @ libname @ [newline]) con1)
                 else build_loop host lib_search_path
                   (map_put libname (LibNode_Set NODE_ERROR ''Could not find library'' LibNode_init) deps, queue,
                    eprintf (''WARNING: Could not find library: '' @ libname @ [newline]) con1)))"

definition BuildDependencyGraph ::
    "host \<Rightarrow> string \<Rightarrow> string list \<Rightarrow> console \<Rightarrow> (DependencyGraph \<times> console) exits option" where
  "BuildDependencyGraph host root_libpath lib_search_path con =
     (case UpdateDependencies host (path_basename False root_libpath) root_libpath ([], [], con) of
        Inl e \<Rightarrow> Some (Inl e)
      | Inr st \<Rightarrow> build_loop host lib_search_path st)"

fun node_type_name :: "node_type \<Rightarrow> string" where
  "node_type_name NODE_NONE = ''NONE??''"
| "node_type_name NODE_PATH = ''PATH''"
| "node_type_name NODE_ERROR = ''ERROR''"
| "node_type_name NODE_SYSTEM = ''SYSTEM''"

definition dump_node :: "string \<times> LibNode \<Rightarrow> string" where
  "dump_node = (\<lambda>(libname, node).
     ''['' @ libname @ ''] '' @ node_type_name (lib_type node) @ '' '' @ lib_value node @ [newline] @
     (if lib_type node = NODE_PATH
      then concat (map (\<lambda>lib. ''    '' @ lib @ [newline]) (needed_libs node))
      else []))"

definition DumpDependencyGraph :: "DependencyGraph \<Rightarrow> console \<Rightarrow> console" where
  "DumpDependencyGraph deps con =
     fold (\<lambda>p. tprintf (dump_node p)) deps (tprintf (''Dependency graph:'' @ [newline]) con)"


section \<open>What the graph should be\<close>

text \<open>The node of a file, and the node of a library name that is not the root.\<close>

definition elf_node :: "host \<Rightarrow> string \<Rightarrow> LibNode" where
  "elf_node host libpath =
     (case ElfFile_Open host 1 libpath ElfFile_new of
        (Some error, libfile) \<Rightarrow> LibNode_Set NODE_ERROR error LibNode_init
      | (None, libfile) \<Rightarrow>
          (LibNode_Set NODE_PATH libpath LibNode_init)
            \<lparr>needed_libs := (case GetNeededLibs libfile [] of Some (n, needed) \<Rightarrow> needed | None \<Rightarrow> [])\<rparr>)"

definition resolve :: "host \<Rightarrow> string list \<Rightarrow> string \<Rightarrow> LibNode" where
  "resolve host dirs libname =
     (case find (\<lambda>p. stat host p = Inr Regular)
         (map (\<lambda>d. candidate d libname) (filter (\<lambda>d. d \<noteq> []) dirs)) of
        Some libpath \<Rightarrow> elf_node host libpath
      | None \<Rightarrow>
          if IsAndroidSystemLib libname then LibNode_Set NODE_SYSTEM libname LibNode_init
          else LibNode_Set NODE_ERROR ''Could not find library'' LibNode_init)"

definition spec_node :: "host \<Rightarrow> string \<Rightarrow> string list \<Rightarrow> string \<Rightarrow> LibNode" where
  "spec_node host root dirs libname =
     (if libname = path_basename False root then elf_node host root else resolve host dirs libname)"

definition spec_edges :: "host \<Rightarrow> string \<Rightarrow> string list \<Rightarrow> (string \<times> string) set" where
  "spec_edges host root dirs = {(x, y). y \<in> set (needed_libs (spec_node host root dirs x))}"

lemma ElfFile_Open_reader:
  "ElfFile_Open host n path elf = (None, elf') \<Longrightarrow> \<exists>r. elf_reader elf' = Some r"
  by (auto simp: ElfFile_Open_def Let_def split: sum.splits if_splits)

lemma UpdateDependencies_spec:
  assumes "map_of deps libname = None"
  shows "\<exists>con'. UpdateDependencies host libname libpath (deps, queue, con) =
    Inr (map_put libname (elf_node host libpath) deps, queue @ needed_libs (elf_node host libpath), con') \<and>
    quiet con con'"
proof -
  obtain e libfile where "open": "ElfFile_Open host 1 libpath ElfFile_new = (e, libfile)" by fastforce
  show ?thesis
  proof (cases e)
    case None
    then obtain r where "elf_reader libfile = Some r" using ElfFile_Open_reader "open" by blast
    then obtain s n needed where "GetLibName libfile = Some s" "GetNeededLibs libfile [] = Some (n, needed)"
      by (simp add: GetLibName_def GetNeededLibs_def) (meson surj_pair)
    then show ?thesis
      using assms "open" None
      by (simp add: UpdateDependencies_def elf_node_def LibNode_init_def LibNode_Set_def Let_def
          quiet_fold_log)
  next
    case (Some error)
    then show ?thesis
      using assms "open"
      by (simp add: UpdateDependencies_def elf_node_def LibNode_init_def LibNode_Set_def)
  qed
qed

section \<open>The graph is what it should be\<close>

text \<open>
  The invariant of the work loop: the nodes are the specified ones, everything recorded or
  queued is reachable from the root, and what a recorded library needs is recorded or queued.
\<close>

definition build_inv :: "(string \<Rightarrow> LibNode) \<Rightarrow> string \<Rightarrow> DependencyGraph \<Rightarrow> string list \<Rightarrow> bool" where
  "build_inv node root deps queue \<longleftrightarrow>
     sorted_map deps \<and> root \<in> libs deps \<and>
     (\<forall>x\<in>libs deps. map_of deps x = Some (node x)) \<and>
     libs deps \<union> set queue \<subseteq> {y. (root, y) \<in> {(x, y). y \<in> set (needed_libs (node x))}\<^sup>*} \<and>
     (\<forall>x\<in>libs deps. set (needed_libs (node x)) \<subseteq> libs deps \<union> set queue)"

lemma build_inv_skip: "build_inv node root deps (x # queue) \<Longrightarrow> x \<in> libs deps \<Longrightarrow> build_inv node root deps queue"
  unfolding build_inv_def by auto

lemma libs_put: "sorted_map deps \<Longrightarrow> libs (map_put x n deps) = insert x (libs deps)"
  by (auto simp: libs_def)

lemma build_inv_add:
  assumes "build_inv node root deps (x # queue)" "x \<notin> libs deps"
  shows "build_inv node root (map_put x (node x) deps) (queue @ needed_libs (node x))"
proof -
  let ?E = "{(x, y). y \<in> set (needed_libs (node x))}"
  have sorted: "sorted_map deps" using assms(1) by (simp add: build_inv_def)
  have x: "(root, x) \<in> ?E\<^sup>*" using assms(1) by (simp add: build_inv_def)
  have "(root, y) \<in> ?E\<^sup>*" if "y \<in> set (needed_libs (node x))" for y
    using x that by (auto intro: rtrancl_into_rtrancl)
  then show ?thesis
    using assms x unfolding build_inv_def libs_put [OF sorted] by (auto simp: sorted)
qed

text \<open>When the queue is empty, the recorded libraries are exactly the reachable ones.\<close>

lemma build_inv_done:
  assumes "build_inv node root deps []"
  shows "closed_graph deps \<and> libs deps = {y. (root, y) \<in> {(x, y). y \<in> set (needed_libs (node x))}\<^sup>*} \<and>
    (\<forall>x\<in>libs deps. map_of deps x = Some (node x))"
proof -
  let ?E = "{(x, y). y \<in> set (needed_libs (node x))}"
  have "y \<in> libs deps" if "(root, y) \<in> ?E\<^sup>*" for y
    using that assms by (induction rule: rtrancl_induct) (auto simp: build_inv_def)
  moreover have "set (needs deps x) \<subseteq> libs deps" for x
  proof (cases "x \<in> libs deps")
    case True
    then have "needs deps x = needed_libs (node x)" using assms by (simp add: build_inv_def needs_def)
    then show ?thesis using assms True by (auto simp: build_inv_def)
  qed (simp add: needs_outside)
  ultimately show ?thesis using assms by (auto simp: build_inv_def closed_graph_def)
qed

text \<open>The libraries that need others, among those that the loop can meet.\<close>

definition rich :: "(string \<Rightarrow> LibNode) \<Rightarrow> string set" where
  "rich node = {x. needed_libs (node x) \<noteq> []}"

lemma build_step:
  assumes "map_of deps x = None" "x \<noteq> path_basename False root"
  shows "\<exists>con'. build_loop host dirs (deps, x # queue, con) =
    build_loop host dirs
      (map_put x (spec_node host root dirs x) deps, queue @ needed_libs (spec_node host root dirs x), con') \<and>
    quiet con con'"
proof -
  obtain p con1 where find: "FindLibraryPath host x dirs con = (p, con1)" by fastforce
  then have p: "p = find (\<lambda>p. stat host p = Inr Regular)
      (map (\<lambda>d. candidate d x) (filter (\<lambda>d. d \<noteq> []) dirs))"
    using FindLibraryPath_find [of host x dirs con] by simp
  have quiet1: "quiet con con1" using FindLibraryPath_quiet [of con host x dirs] find by simp
  show ?thesis
  proof (cases p)
    case None
    then show ?thesis
      using assms find p quiet1
      by (subst build_loop.simps)
        (auto simp: spec_node_def resolve_def LibNode_Set_def LibNode_init_def
          intro: quiet_log_n quiet_eprintf [THEN iffD2])
  next
    case (Some libpath)
    then have node: "spec_node host root dirs x = elf_node host libpath"
      using assms(2) p by (simp add: spec_node_def resolve_def)
    obtain con' where "UpdateDependencies host x libpath (deps, queue, con1) =
        Inr (map_put x (elf_node host libpath) deps, queue @ needed_libs (elf_node host libpath), con')"
      "quiet con1 con'"
      using UpdateDependencies_spec [OF assms(1)] by blast
    then show ?thesis
      using assms find Some node quiet_trans [OF quiet1] by (subst build_loop.simps) auto
  qed
qed

lemma build_loop_returns:
  assumes "finite (rich (spec_node host root dirs))"
    and "build_inv (spec_node host root dirs) (path_basename False root) deps queue"
  shows "\<exists>deps' con'. build_loop host dirs (deps, queue, con) = Some (Inr (deps', con')) \<and>
    quiet con con' \<and> build_inv (spec_node host root dirs) (path_basename False root) deps' []"
  using assms(2)
proof (induction "(card (rich (spec_node host root dirs) - libs deps), length queue)"
    arbitrary: deps queue con rule: wf_induct_rule [OF wf_lex_prod [OF wf_less wf_less]])
  case (1 deps queue con)
  let ?node = "spec_node host root dirs" and ?root = "path_basename False root"
  show ?case
  proof (cases queue)
    case Nil
    with 1(2) show ?thesis by (subst build_loop.simps) simp
  next
    case (Cons x q)
    show ?thesis
    proof (cases "x \<in> libs deps")
      case True
      then have "build_loop host dirs (deps, queue, con) = build_loop host dirs (deps, q, con)"
        using Cons by (subst build_loop.simps) (auto simp: libs_def)
      moreover have "build_inv ?node ?root deps q" using 1(2) Cons True build_inv_skip by blast
      ultimately show ?thesis using 1(1) [of deps q con] Cons by simp
    next
      case False
      let ?deps = "map_put x (?node x) deps" and ?q = "q @ needed_libs (?node x)"
      have sorted: "sorted_map deps" and "x \<noteq> ?root"
        using 1(2) False by (auto simp: build_inv_def)
      moreover have "map_of deps x = None" using False by (simp add: libs_def domIff)
      ultimately obtain con' where step:
        "build_loop host dirs (deps, queue, con) = build_loop host dirs (?deps, ?q, con')" "quiet con con'"
        using build_step [of deps x root host dirs q con] Cons by blast
      have inv: "build_inv ?node ?root ?deps ?q" using 1(2) Cons False build_inv_add by blast
      have sub: "rich ?node - libs ?deps = (rich ?node - libs deps) - {x}"
        using libs_put [OF sorted] by auto
      have "((card (rich ?node - libs ?deps), length ?q), (card (rich ?node - libs deps), length queue))
          \<in> less_than <*lex*> less_than"
      proof (cases "x \<in> rich ?node")
        case True
        then have "card (rich ?node - libs ?deps) < card (rich ?node - libs deps)"
          unfolding sub using False assms(1) by (intro card_Diff1_less) auto
        then show ?thesis by simp
      next
        case False
        then have "rich ?node - libs ?deps = rich ?node - libs deps" "needed_libs (?node x) = []"
          using sub by (auto simp: rich_def)
        then show ?thesis using Cons by simp
      qed
      then obtain deps' con2 where "build_loop host dirs (?deps, ?q, con') = Some (Inr (deps', con2))"
        "quiet con' con2" "build_inv ?node ?root deps' []"
        using 1(1) [of ?deps ?q con'] inv by (auto simp del: split_paired_Ex)
      then show ?thesis using step quiet_trans by auto
    qed
  qed
qed

lemma inj_candidate: "inj (candidate d)"
  by (rule injI) (simp add: candidate_def)

lemma find_Some_mem:
  "find P xs = Some x \<Longrightarrow> x \<in> set xs" "find P xs = Some x \<Longrightarrow> P x"
  by (induction xs) (auto split: if_splits)

lemma finite_rich:
  assumes "finite {p. stat host p = Inr Regular}"
  shows "finite (rich (spec_node host root dirs))"
proof (rule finite_subset)
  let ?R = "{p. stat host p = Inr Regular}"
  show "rich (spec_node host root dirs) \<subseteq>
      insert (path_basename False root) (\<Union>d\<in>set dirs. candidate d -` ?R)"
  proof
    fix x
    assume x: "x \<in> rich (spec_node host root dirs)"
    show "x \<in> insert (path_basename False root) (\<Union>d\<in>set dirs. candidate d -` ?R)"
    proof (cases "x = path_basename False root")
      case False
      then have "needed_libs (resolve host dirs x) \<noteq> []" using x by (simp add: rich_def spec_node_def)
      then obtain p where "find (\<lambda>p. stat host p = Inr Regular)
          (map (\<lambda>d. candidate d x) (filter (\<lambda>d. d \<noteq> []) dirs)) = Some p"
        by (auto simp: resolve_def LibNode_Set_def LibNode_init_def split: option.splits if_splits)
      then have "p \<in> set (map (\<lambda>d. candidate d x) (filter (\<lambda>d. d \<noteq> []) dirs))" "stat host p = Inr Regular"
        by (rule find_Some_mem)+
      then show ?thesis by auto
    qed simp
  qed
  show "finite (insert (path_basename False root) (\<Union>d\<in>set dirs. candidate d -` ?R))"
    by (intro finite.insertI finite_UN_I finite_vimageI [OF assms inj_candidate] finite_set)
qed

lemma build_graph_facts:
  assumes "finite {p. stat host p = Inr Regular}"
  shows "\<exists>deps con'. BuildDependencyGraph host root dirs con = Some (Inr (deps, con')) \<and>
    quiet con con' \<and> closed_graph deps \<and>
    libs deps = {y. (path_basename False root, y) \<in> (spec_edges host root dirs)\<^sup>*} \<and>
    (\<forall>x\<in>libs deps. map_of deps x = Some (spec_node host root dirs x))"
proof -
  let ?root = "path_basename False root" and ?node = "spec_node host root dirs"
  have node: "?node ?root = elf_node host root" by (simp add: spec_node_def)
  obtain con1 where upd: "UpdateDependencies host ?root root ([], [], con) =
      Inr ([(?root, elf_node host root)], needed_libs (elf_node host root), con1)" "quiet con con1"
    using UpdateDependencies_spec [of "[]" ?root host root "[]" con] by auto
  have "build_inv ?node ?root [(?root, elf_node host root)] (needed_libs (elf_node host root))"
    by (auto simp: build_inv_def libs_def node sorted_map_Cons intro: r_into_rtrancl)
  from build_loop_returns [OF finite_rich [OF assms] this, of con1]
  obtain deps con' where ret: "BuildDependencyGraph host root dirs con = Some (Inr (deps, con'))"
    and inv: "build_inv ?node ?root deps []" and "quiet con con'"
    using upd quiet_trans [OF upd(2)] by (auto simp: BuildDependencyGraph_def)
  show ?thesis
    unfolding spec_edges_def using ret \<open>quiet con con'\<close> build_inv_done [OF inv] by (elim conjE) (intro exI conjI)
qed

text \<open>
  C10.  On a host with finitely many regular files the graph construction ends, without a
  panic; the graph holds exactly the libraries reachable from the root, each with the node
  of the file the search path gives for its name (or of a system library, or of an error),
  and it is closed under the needed libraries.
\<close>

theorem build_dependency_graph_reachable:
  assumes "finite {p. stat host p = Inr Regular}"
  shows "\<exists>deps con'. BuildDependencyGraph host root dirs con = Some (Inr (deps, con')) \<and>
    closed_graph deps \<and>
    libs deps = {y. (path_basename False root, y) \<in> (spec_edges host root dirs)\<^sup>*} \<and>
    (\<forall>x\<in>libs deps. map_of deps x = Some (spec_node host root dirs x))"
  using build_graph_facts [OF assms, of root dirs con] by (elim exE conjE) (intro exI conjI)

text \<open>A host with one program file, the example of the dynamic section.\<close>

definition example_host :: host where
  "example_host =
     \<lparr>fopen = (\<lambda>n p. if p = ''/x/libp.so'' then Inr (map (\<lambda>b. char_of (unat b)) (example_image 8)) else Inl ''No such file''),
      fread_error = (\<lambda>p. []),
      stat = (\<lambda>p. if p = ''/x/libp.so'' then Inr Regular else Inl ''No such file''),
      getenv = (\<lambda>v. None), glob = (\<lambda>p. None)\<rparr>"

lemma example_host_finite: "finite {p. stat example_host p = Inr Regular}"
  by (simp add: example_host_def)

theorem build_dependency_graph_reachable_witness:
  "\<exists>deps con'. BuildDependencyGraph example_host ''/x/libp.so'' [''/x''] \<lparr>g_verbose = 0, out = [], err = []\<rparr> =
      Some (Inr (deps, con')) \<and> closed_graph deps \<and>
    libs deps = {y. (''libp.so'', y) \<in> (spec_edges example_host ''/x/libp.so'' [''/x''])\<^sup>*}"
proof -
  have "path_basename False ''/x/libp.so'' = ''libp.so''" by (simp add: path_basename_def path_last_dirsep_def)
  moreover obtain deps con' where
    "BuildDependencyGraph example_host ''/x/libp.so'' [''/x''] \<lparr>g_verbose = 0, out = [], err = []\<rparr> =
      Some (Inr (deps, con'))" "closed_graph deps"
    "libs deps = {y. (path_basename False ''/x/libp.so'', y) \<in> (spec_edges example_host ''/x/libp.so'' [''/x''])\<^sup>*}"
    using build_dependency_graph_reachable [OF example_host_finite, of "''/x/libp.so''" "[''/x'']"
        "\<lparr>g_verbose = 0, out = [], err = []\<rparr>"]
    by (elim exE conjE)
  ultimately show ?thesis by simp
qed

end
