(* ===== verification/DependsMain.thy ===== *)
theory DependsMain
  imports DependsGraph
begin

text \<open>
  The \<open>main\<close> function of \<open>ndk-depends.cc\<close>: the options, the input file, the graph and its
  order, and the output formats.  The program is run as \<open>ndk_depends host args\<close>, where
  \<open>args\<close> is the list \<open>argv[1]\<close>, \<open>argv[2]\<close> and so on; the result is how the program ends,
  with what it printed, or \<open>None\<close> when it does not end.
\<close>

section \<open>Options\<close>

datatype PrintFormat = PRINT_DEFAULT | PRINT_DIRECT | PRINT_PATHS | PRINT_JAVA | PRINT_DOT_FILE

record depends_options =
  do_help :: bool
  print_format :: PrintFormat
  lib_search_path :: "string list"
  params :: "string list"

definition initial_options :: depends_options where
  "initial_options = \<lparr>do_help = False, print_format = PRINT_DEFAULT, lib_search_path = [], params = []\<rparr>"

definition add_lib_path :: "string \<Rightarrow> depends_options \<Rightarrow> depends_options" where
  "add_lib_path p opts = opts\<lparr>lib_search_path := lib_search_path opts @ [p]\<rparr>"

fun process_options ::
    "host \<Rightarrow> string list \<Rightarrow> depends_options \<Rightarrow> console \<Rightarrow> (depends_options \<times> console) exits option" where
  "process_options host [] opts con = Some (Inr (opts, con))"
| "process_options host (arg # rest) opts con =
     (if starts_with arg ''-'' then
        if arg = ''--help'' \<or> arg = ''-h'' \<or> arg = ''-?''
        then process_options host rest (opts\<lparr>do_help := True\<rparr>) con
        else if arg = ''--print-direct''
        then process_options host rest (opts\<lparr>print_format := PRINT_DIRECT\<rparr>) con
        else if arg = ''-L'' then
          (case rest of
             [] \<Rightarrow> Some (map_sum id (Pair opts) (panic [] ''Option -L requires an argument.'' con))
           | path # rest' \<Rightarrow> process_options host rest' (add_lib_path path opts) con)
        else if starts_with arg ''-L''
        then process_options host rest (add_lib_path (drop 2 arg) opts) con
        else if arg = ''--host-libs'' then
          (case AddHostLibraryPaths host (lib_search_path opts, con) of
             None \<Rightarrow> None
           | Some (paths, con') \<Rightarrow> process_options host rest (opts\<lparr>lib_search_path := paths\<rparr>) con')
        else if arg = ''--print-java''
        then process_options host rest (opts\<lparr>print_format := PRINT_JAVA\<rparr>) con
        else if arg = ''--print-paths''
        then process_options host rest (opts\<lparr>print_format := PRINT_PATHS\<rparr>) con
        else if arg = ''--print-dot''
        then process_options host rest (opts\<lparr>print_format := PRINT_DOT_FILE\<rparr>) con
        else if arg = ''--verbose''
        then process_options host rest opts (con\<lparr>g_verbose := c_int (g_verbose con + 1)\<rparr>)
        else Some (map_sum id (Pair opts)
               (panic [] (''Unsupported option '' @ [CHR 0x27] @ arg @ [CHR 0x27] @ '', see --help.'') con))
      else process_options host rest (opts\<lparr>params := params opts @ [arg]\<rparr>) con)"

definition usage_lines :: "string list" where
  "usage_lines =
     [
      ''Usage: ndk-depends [options] <elf-file>'',
      [],
      ''This program is used to print the dependencies of a given ELF'',
      ''binary (shared library or executable). It supports any architecture,'',
      ''endianess and bitness.'',
      [],
      ''By default, all dependencies are printed in topological order,'',
      ''which means that each item always appear before other items'',
      ''it depends on. Except in case of circular dependencies, which will'',
      ''print a warning to stderr.'',
      [],
      ''The tool will try to find other libraries in the same directory'',
      ''as the input ELF file. It is possible however to provide'',
      ''additional search paths with the -L<path>, which adds an explicit path'',
      ''or --host-libs which adds host-specific library paths, on ELF-based systems'',
      ''only.'',
      [],
      ''Use --print-paths to print the path of each ELF binary.'',
      [],
      ''Use --print-direct to only print the direct dependencies'',
      ''of the input ELF binary. All other options except --verbose will be ignored.'',
      [],
      ''Use --print-java to print a Java source fragment that loads the'',
      ''libraries with System.loadLibrary() in the correct order. This can'',
      (''be useful when copied into your application'' @ [CHR 0x27] @ ''s Java source code.''),
      [],
      ''Use --print-dot to print the dependency graph as a .dot file that can be'',
      ''parsed by the GraphViz tool. For example, to generate a PNG image of the'',
      ''graph, use something like:'',
      [],
      ''  ndk-depends /path/to/libfoo.so --print-dot | dot -Tpng -o /tmp/graph.png'',
      [],
      ''The --verbose option prints debugging information, which can be useful'',
      ''to diagnose problems with malformed ELF binaries.'',
      [],
      ''Valid options:'',
      ''  --help|-h|-?    Print this message.'',
      ''  --verbose       Increase verbosity.'',
      ''  --print-direct  Only print direct dependencies.'',
      ''  -L<path>        Append <path> to the library search path.'',
      ''  --host-libs     Append host library search path.'',
      ''  --print-paths   Print full paths of all libraries.'',
      ''  --print-java    Print Java library load sequence.'',
      ''  --print-dot     Print the dependency graph as a Graphviz .dot file.'',
      []
     ]"

definition print_usage :: "int \<Rightarrow> console \<Rightarrow> program_end" where
  "print_usage exit_code con =
     Exit exit_code (tprintf (concat (map (\<lambda>line. line @ [newline]) usage_lines)) con)"


section \<open>Output\<close>

definition print_line :: "string \<Rightarrow> console \<Rightarrow> console" where
  "print_line text con = tprintf (text @ [newline]) con"

definition print_names :: "string list \<Rightarrow> console \<Rightarrow> console" where
  "print_names names con = fold print_line names con"

text \<open>One line of the Java fragment; the libraries are visited in reverse order.\<close>

definition print_java_lib :: "string \<Rightarrow> console \<Rightarrow> console" where
  "print_java_lib lib con =
     (if IsAndroidSystemLib lib then con
      else if \<not> IsAndroidNdkCompatibleLib lib
      then eprintf (''WARNING: Non-compatible library name ignored: '' @ lib @ [newline]) con
      else tprintf (''System.loadLibrary('' @ take (length lib - 6) (drop 3 lib) @ '');'' @ [newline]) con)"

definition print_java :: "string list \<Rightarrow> console \<Rightarrow> console" where
  "print_java names con = fold print_java_lib (rev names) con"

definition dot_edge :: "string \<Rightarrow> string \<Rightarrow> string" where
  "dot_edge libname dep =
     ''  '' @ [CHR 0x22] @ libname @ [CHR 0x22] @ '' -> '' @ [CHR 0x22] @ dep @ [CHR 0x22] @ [newline]"

definition print_dot_lib :: "string \<Rightarrow> DependencyGraph \<times> console \<Rightarrow> DependencyGraph \<times> console" where
  "print_dot_lib libname = (\<lambda>(deps, con).
     (let (node, deps') = map_at LibNode_init libname deps
      in (deps', fold (\<lambda>dep. tprintf (dot_edge libname dep)) (needed_libs node) con)))"

definition print_dot :: "DependencyGraph \<Rightarrow> string list \<Rightarrow> console \<Rightarrow> console" where
  "print_dot deps names con =
     (let con1 = print_line ''digraph {'' con;
          (deps', con2) = fold print_dot_lib names (deps, con1)
      in print_line ''}'' con2)"

definition path_line :: "string \<Rightarrow> LibNode \<Rightarrow> string" where
  "path_line lib node =
     (case lib_type node of
        NODE_PATH \<Rightarrow> lib @ '' -> '' @ lib_value node
      | NODE_SYSTEM \<Rightarrow> lib @ '' -> $ /system/lib/'' @ lib_value node
      | _ \<Rightarrow> lib @ '' -> !! '' @ lib_value node)"

definition print_path_lib :: "string \<Rightarrow> DependencyGraph \<times> console \<Rightarrow> DependencyGraph \<times> console" where
  "print_path_lib lib = (\<lambda>(deps, con).
     (let (node, deps') = map_at LibNode_init lib deps
      in (deps', print_line (path_line lib node) con)))"

definition print_paths :: "DependencyGraph \<Rightarrow> string list \<Rightarrow> console \<Rightarrow> console" where
  "print_paths deps names con = snd (fold print_path_lib names (deps, con))"


section \<open>The program\<close>

definition print_search_path :: "string list \<Rightarrow> console \<Rightarrow> console" where
  "print_search_path paths con =
     (if g_verbose con \<ge> 1
      then print_line [] (fold (\<lambda>p. print_line (''  '' @ p)) paths
             (print_line ''Current library search path:'' con))
      else con)"

definition print_sorted :: "PrintFormat \<Rightarrow> DependencyGraph \<Rightarrow> string list \<Rightarrow> console \<Rightarrow> console" where
  "print_sorted format deps names con =
     (if format = PRINT_JAVA then print_java names con
      else if format = PRINT_DOT_FILE then print_dot deps names con
      else if format = PRINT_PATHS then print_paths deps names con
      else print_names names con)"

definition depends_sorted ::
    "host \<Rightarrow> PrintFormat \<Rightarrow> string \<Rightarrow> string list \<Rightarrow> console \<Rightarrow> program_end option" where
  "depends_sorted host format libfile_path paths con =
     (case BuildDependencyGraph host libfile_path paths
         (log_n 1 (''Building dependency graph...'' @ [newline]) con) of
        None \<Rightarrow> None
      | Some (Inl e) \<Rightarrow> Some e
      | Some (Inr (deps, con1)) \<Rightarrow>
          let con2 = (if g_verbose con1 \<ge> 2 then DumpDependencyGraph deps con1 else con1);
              con3 = log_n 1 (''Building sorted list of binaries:'' @ [newline]) con2
          in case GetTopologicalSortedLibraries deps con3 of
               None \<Rightarrow> None
             | Some (Inl e) \<Rightarrow> Some e
             | Some (Inr (deps', names, con4)) \<Rightarrow> Some (Exit 0 (print_sorted format deps' names con4)))"

definition depends_file ::
    "host \<Rightarrow> PrintFormat \<Rightarrow> string \<Rightarrow> string list \<Rightarrow> console \<Rightarrow> program_end option" where
  "depends_file host format libfile_path paths con =
     (case ElfFile_Open host 0 libfile_path ElfFile_new of
        (Some error, libfile) \<Rightarrow>
          (case panic [] (''Could not open file '' @ [CHR 0x27] @ libfile_path @ [CHR 0x27] @ '': '' @ error) con of
             Inl e \<Rightarrow> Some e
           | Inr _ \<Rightarrow> Some (Crash NullDeref))
      | (None, libfile) \<Rightarrow>
          if format = PRINT_DIRECT then
            (case GetNeededLibs libfile [] of
               None \<Rightarrow> Some (Crash NullDeref)
             | Some (count, needed) \<Rightarrow> Some (Exit 0 (print_names needed con)))
          else depends_sorted host format libfile_path paths con)"

definition ndk_depends :: "host \<Rightarrow> string list \<Rightarrow> program_end option" where
  "ndk_depends host args =
     (case process_options host args initial_options \<lparr>g_verbose = 0, out = [], err = []\<rparr> of
        None \<Rightarrow> None
      | Some (Inl e) \<Rightarrow> Some e
      | Some (Inr (opts, con)) \<Rightarrow>
          if do_help opts then Some (print_usage 0 con)
          else
            (case params opts of
               [] \<Rightarrow>
                 (case panic [] (''Please provide the path of an ELF shared library or executable.'' @
                      [newline] @ ''See --help for usage details.'') con of
                    Inl e \<Rightarrow> Some e
                  | Inr _ \<Rightarrow> Some (Crash OutOfBounds))
             | libfile_path # _ \<Rightarrow>
                 let paths = path_dirname False libfile_path # lib_search_path opts
                 in depends_file host (print_format opts) libfile_path paths (print_search_path paths con)))"

section \<open>The printed order\<close>

text \<open>The libraries reachable from the input file, and how many names they need in all.\<close>

definition reachable_libs :: "host \<Rightarrow> string \<Rightarrow> string list \<Rightarrow> string set" where
  "reachable_libs host root dirs = {y. (path_basename False root, y) \<in> (spec_edges host root dirs)\<^sup>*}"

definition needed_count :: "host \<Rightarrow> string \<Rightarrow> string list \<Rightarrow> nat" where
  "needed_count host root dirs =
     (\<Sum>x\<in>reachable_libs host root dirs. length (needed_libs (spec_node host root dirs x)))"

text \<open>The order in which the libraries appear: each before those it depends on.\<close>

definition dependency_order :: "(string \<times> string) set \<Rightarrow> string set \<Rightarrow> string list \<Rightarrow> bool" where
  "dependency_order E S xs \<longleftrightarrow>
     distinct xs \<and> set xs = S \<and>
     (\<forall>i<length xs. \<forall>j<length xs. (xs ! i, xs ! j) \<in> E \<longrightarrow> i < j)"

lemma topological_sort_facts:
  assumes "closed_graph deps" "acyclic (edges deps)" "int (edge_count deps) < INT_MAX"
  shows "\<exists>xs. GetTopologicalSortedLibraries deps con = Some (Inr (deps, xs, con)) \<and>
    dependency_order (edges deps) (libs deps) xs"
proof -
  obtain xs where xs: "sort_loop deps (count_visitors deps) [] con = Some (Inr (deps, xs, con))"
    "distinct xs" "set xs = libs deps"
    using sort_loop_acyclic [OF assms(2,1,3) sort_inv_start [OF assms(1,3)], of "[]" con] by auto
  have "sorted_map deps" "sorted_map (count_visitors deps)"
    using assms(1) fold_count_node(1) [of "[]"] by (auto simp: closed_graph_def count_visitors_def)
  from sort_loop_output [OF xs(1) this] have "chained (needs deps) xs" by auto
  then have "i < j" if "i < length xs" "j < length xs" "(xs ! i, xs ! j) \<in> edges deps" for i j
    using chained_later [of "needs deps" xs i "xs ! j"] that xs(2)
    by (auto simp: edges_def nth_eq_iff_index_eq)
  then show ?thesis using xs by (auto simp: GetTopologicalSortedLibraries_def dependency_order_def)
qed

lemma depends_sorted_facts:
  assumes "finite {p. stat host p = Inr Regular}"
    and "acyclic (spec_edges host root dirs)" "int (needed_count host root dirs) < INT_MAX"
    and "g_verbose con = 0"
  shows "\<exists>deps xs con'. depends_sorted host format root dirs con = Some (Exit 0 (print_sorted format deps xs con')) \<and>
    out con' = out con \<and>
    dependency_order (spec_edges host root dirs) (reachable_libs host root dirs) xs"
proof -
  let ?con = "log_n 1 (''Building dependency graph...'' @ [newline]) con"
  obtain deps con1 where build: "BuildDependencyGraph host root dirs ?con = Some (Inr (deps, con1))"
    and q: "quiet ?con con1" and closed: "closed_graph deps"
    and libs: "libs deps = reachable_libs host root dirs"
    and nodes: "\<forall>x\<in>libs deps. map_of deps x = Some (spec_node host root dirs x)"
    using build_graph_facts [OF assms(1), of root dirs ?con] unfolding reachable_libs_def
    by (elim exE conjE)
  have needs: "needs deps x = needed_libs (spec_node host root dirs x)" if "x \<in> libs deps" for x
    using nodes that by (simp add: needs_def)
  have sub: "(x, y) \<in> edges deps \<longleftrightarrow> (x, y) \<in> spec_edges host root dirs" if "x \<in> libs deps" for x y
    using needs [OF that] by (simp add: edges_def spec_edges_def)
  then have "edges deps \<subseteq> spec_edges host root dirs"
    using needs_outside by (fastforce simp: edges_def)
  then have acyclic: "acyclic (edges deps)" using assms(2) acyclic_subset by blast
  have "edge_count deps = needed_count host root dirs"
    unfolding edge_count_def needed_count_def libs [symmetric] by (simp add: needs)
  then obtain xs where xs: "GetTopologicalSortedLibraries deps con1 = Some (Inr (deps, xs, con1))"
    "dependency_order (edges deps) (libs deps) xs"
    using topological_sort_facts [OF closed acyclic] assms(3) by auto
  have con1: "g_verbose con1 = 0" "out con1 = out con"
    using q assms(4) by (auto simp: quiet_def log_n_def)
  then have "depends_sorted host format root dirs con = Some (Exit 0 (print_sorted format deps xs con1))"
    using build xs(1) by (simp add: depends_sorted_def log_n_def)
  moreover have "dependency_order (spec_edges host root dirs) (reachable_libs host root dirs) xs"
    using xs(2) sub libs nth_mem unfolding dependency_order_def by metis
  ultimately show ?thesis using con1(2) by blast
qed

lemma print_names_out: "out (print_names xs con) = out con @ concat (map (\<lambda>x. x @ [newline]) xs)"
  unfolding print_names_def
  by (induction xs arbitrary: con) (simp_all add: print_line_def tprintf_def)

text \<open>The libraries that the Java fragment loads.\<close>

definition java_loads :: "string \<Rightarrow> bool" where
  "java_loads lib \<longleftrightarrow> \<not> IsAndroidSystemLib lib \<and> IsAndroidNdkCompatibleLib lib"

definition java_line :: "string \<Rightarrow> string" where
  "java_line lib = ''System.loadLibrary('' @ take (length lib - 6) (drop 3 lib) @ '');'' @ [newline]"

lemma print_java_out:
  "out (print_java xs con) = out con @ concat (map java_line (filter java_loads (rev xs)))"
proof -
  have "out (fold print_java_lib ys con) = out con @ concat (map java_line (filter java_loads ys))" for ys
    by (induction ys arbitrary: con)
      (simp_all add: print_java_lib_def tprintf_def eprintf_def java_line_def java_loads_def)
  then show ?thesis by (simp add: print_java_def)
qed

text \<open>
  C8.  Run on one file of a host with finitely many files and no circular dependency, the
  program ends with code 0 and prints the names of the libraries reachable from the file,
  each once and each before the libraries it depends on.
\<close>

theorem ndk_depends_prints_order:
  assumes "finite {p. stat host p = Inr Regular}"
    and "ElfFile_Open host 0 path ElfFile_new = (None, libfile)" "\<not> starts_with path ''-''"
    and "acyclic (spec_edges host path [path_dirname False path])"
    and "int (needed_count host path [path_dirname False path]) < INT_MAX"
  shows "\<exists>xs con. ndk_depends host [path] = Some (Exit 0 con) \<and>
    out con = concat (map (\<lambda>x. x @ [newline]) xs) \<and>
    dependency_order (spec_edges host path [path_dirname False path])
      (reachable_libs host path [path_dirname False path]) xs"
proof -
  let ?con = "\<lparr>g_verbose = 0, out = [], err = []\<rparr>"
  obtain deps xs con' where sorted: "depends_sorted host PRINT_DEFAULT path [path_dirname False path] ?con =
      Some (Exit 0 (print_sorted PRINT_DEFAULT deps xs con'))" "out con' = []"
    "dependency_order (spec_edges host path [path_dirname False path])
      (reachable_libs host path [path_dirname False path]) xs"
    using depends_sorted_facts [OF assms(1,4,5), of ?con PRINT_DEFAULT] by auto
  have "ndk_depends host [path] = Some (Exit 0 (print_names xs con'))"
    using sorted(1) assms(2,3)
    by (simp add: ndk_depends_def initial_options_def depends_file_def print_search_path_def
        print_sorted_def Let_def)
  with sorted(2,3) show ?thesis by (auto simp: print_names_out)
qed

text \<open>The example file needs one system library.\<close>

lemma of_char_of_byte: "of_char (char_of (unat (b :: u8))) = b"
proof -
  have "(of_char (char_of (unat b)) :: nat) = unat b"
    using unsigned_less [of b, where 'a = nat] by simp
  then have "(of_nat (of_char (char_of (unat b)) :: nat) :: u8) = of_nat (unat b)" by (rule arg_cong)
  then show ?thesis by (simp only: of_nat_of_char) simp
qed

lemma example_open:
  "\<exists>libfile. ElfFile_Open example_host n ''/x/libp.so'' ElfFile_new = (None, libfile) \<and>
     GetNeededLibs libfile [] = Some (1, [''libc.so''])"
proof -
  have "map of_char (map (\<lambda>b. char_of (unat b)) (example_image 8)) = (example_image 8)"
    by (simp add: comp_def of_char_of_byte)
  moreover have "take EI_NIDENT (example_image 8) = [0x7f, 0x45, 0x4c, 0x46, 1, 1, 1] @ replicate 9 0"
    "length (example_image 8) = 160"
    by (simp_all add: EI_NIDENT_def example_image_def example_shdr_def put_lengths)
  ultimately have "ElfFile_Open example_host n ''/x/libp.so'' ElfFile_new =
      (None, \<lparr>elf_file = Some (example_image 8), big_endian = False, is_64bits = False,
              elf_reader = Some (example_reader 8)\<rparr>)"
    by (simp add: ElfFile_Open_def example_host_def ElfFile_new_def ElfFile_Close_def EI_NIDENT_def
        elf_ident_is_elf_def elf_ident_is_big_endian_def elf_ident_is_64bits_def EI_DATA_def
        EI_CLASS_def ELFDATA2MSB_def ELFCLASS64_def example_reader_def Let_def)
  then show ?thesis by (simp add: GetNeededLibs_def example_needed)
qed

lemma example_paths:
  "path_basename False ''/x/libp.so'' = ''libp.so''" "path_dirname False ''/x/libp.so'' = ''/x''"
  by (simp_all add: path_basename_def path_dirname_def path_last_dirsep_def)

lemma example_edges: "spec_edges example_host ''/x/libp.so'' [''/x''] = {(''libp.so'', ''libc.so'')}"
proof -
  have "needed_libs (elf_node example_host ''/x/libp.so'') = [''libc.so'']"
    using example_open [of 1] by (auto simp: elf_node_def)
  moreover have "needed_libs (resolve example_host [''/x''] y) = []" if "y \<noteq> ''libp.so''" for y
    using that by (simp add: resolve_def candidate_def example_host_def LibNode_Set_def LibNode_init_def)
  ultimately have "needed_libs (spec_node example_host ''/x/libp.so'' [''/x''] y) =
      (if y = ''libp.so'' then [''libc.so''] else [])" for y
    by (simp add: spec_node_def example_paths)
  then show ?thesis by (auto simp: spec_edges_def split: if_splits)
qed

lemma example_reachable: "reachable_libs example_host ''/x/libp.so'' [''/x''] = {''libp.so'', ''libc.so''}"
proof -
  have "{y. (a, y) \<in> {(a, b)}\<^sup>*} = {a, b}" if "a \<noteq> b" for a b :: string
    using that by (auto elim: rtranclE converse_rtranclE)
  then show ?thesis by (simp add: reachable_libs_def example_paths example_edges)
qed

lemma example_acyclic: "acyclic (spec_edges example_host ''/x/libp.so'' [''/x''])"
  unfolding example_edges by (simp add: acyclic_insert) (simp add: acyclic_def)

lemma example_needed_count: "int (needed_count example_host ''/x/libp.so'' [''/x'']) < INT_MAX"
proof -
  have "length (needed_libs (spec_node example_host ''/x/libp.so'' [''/x''] y)) \<le> 1" for y
    using example_open [of 1] by (auto simp: spec_node_def example_paths elf_node_def resolve_def
      candidate_def example_host_def LibNode_Set_def LibNode_init_def)
  then have "needed_count example_host ''/x/libp.so'' [''/x''] \<le> (\<Sum>x\<in>{''libp.so'', ''libc.so''}. 1)"
    unfolding needed_count_def example_reachable by (intro sum_mono) simp
  then show ?thesis by (simp add: INT_MAX_def)
qed

lemmas example_hyps = example_acyclic [folded example_paths(2)] example_needed_count [folded example_paths(2)]

theorem ndk_depends_prints_order_witness:
  "\<exists>con. ndk_depends example_host [''/x/libp.so''] = Some (Exit 0 con) \<and>
     out con = ''libp.so'' @ [newline] @ ''libc.so'' @ [newline]"
proof -
  obtain libfile where opened: "ElfFile_Open example_host 0 ''/x/libp.so'' ElfFile_new = (None, libfile)"
    using example_open by blast
  have dash: "\<not> starts_with ''/x/libp.so'' ''-''" by simp
  obtain xs con where run: "ndk_depends example_host [''/x/libp.so''] = Some (Exit 0 con)"
    "out con = concat (map (\<lambda>x. x @ [newline]) xs)"
    "dependency_order {(''libp.so'', ''libc.so'')} {''libp.so'', ''libc.so''} xs"
    using ndk_depends_prints_order [OF example_host_finite opened dash example_hyps,
        unfolded example_paths example_edges example_reachable] by (elim exE conjE)
  have "length xs = 2" using run(3) distinct_card [of xs] by (simp add: dependency_order_def)
  then obtain a b where xs: "xs = [a, b]" by (auto simp: numeral_2_eq_2 length_Suc_conv)
  have "{a, b} = {''libp.so'', ''libc.so''}" "(b, a) \<noteq> (''libp.so'', ''libc.so'')"
    using run(3) by (auto simp: dependency_order_def xs less_Suc_eq)
  then have "xs = [''libp.so'', ''libc.so'']" by (auto simp: xs doubleton_eq_iff)
  with run(1,2) show ?thesis by simp
qed

text \<open>
  C24.  With \<open>--print-java\<close> the program prints one load per reachable library that is
  neither a system library nor badly named, and no library is loaded before one it
  depends on.
\<close>

theorem ndk_depends_java_order:
  assumes "finite {p. stat host p = Inr Regular}"
    and "ElfFile_Open host 0 path ElfFile_new = (None, libfile)" "\<not> starts_with path ''-''"
    and "acyclic (spec_edges host path [path_dirname False path])"
    and "int (needed_count host path [path_dirname False path]) < INT_MAX"
  shows "\<exists>ls con. ndk_depends host [''--print-java'', path] = Some (Exit 0 con) \<and>
    out con = concat (map java_line ls) \<and> distinct ls \<and>
    set ls = {x \<in> reachable_libs host path [path_dirname False path]. java_loads x} \<and>
    sorted_wrt (\<lambda>a b. (a, b) \<notin> spec_edges host path [path_dirname False path]) ls"
proof -
  let ?con = "\<lparr>g_verbose = 0, out = [], err = []\<rparr>" and ?E = "spec_edges host path [path_dirname False path]"
  obtain deps xs con' where sorted: "depends_sorted host PRINT_JAVA path [path_dirname False path] ?con =
      Some (Exit 0 (print_sorted PRINT_JAVA deps xs con'))" "out con' = []"
    "dependency_order ?E (reachable_libs host path [path_dirname False path]) xs"
    using depends_sorted_facts [OF assms(1,4,5), of ?con PRINT_JAVA] by auto
  have "sorted_wrt (\<lambda>b a. (a, b) \<notin> ?E) xs"
    using sorted(3) unfolding dependency_order_def sorted_wrt_iff_nth_less
    by (metis less_trans not_less_iff_gr_or_eq)
  then have "sorted_wrt (\<lambda>a b. (a, b) \<notin> ?E) (filter java_loads (rev xs))"
    by (intro sorted_wrt_filter) (simp add: sorted_wrt_rev)
  moreover have "ndk_depends host [''--print-java'', path] = Some (Exit 0 (print_java xs con'))"
    using sorted(1) assms(2,3)
    by (simp add: ndk_depends_def initial_options_def depends_file_def print_search_path_def
        print_sorted_def Let_def)
  ultimately show ?thesis
    using sorted(2,3) by (intro exI conjI) (auto simp: print_java_out dependency_order_def)
qed

lemma distinct_singleton: "distinct ls \<Longrightarrow> set ls = {x} \<Longrightarrow> ls = [x]"
proof (cases ls)
  case (Cons y ys)
  assume "distinct ls" "set ls = {x}"
  with Cons show ?thesis by (cases ys) auto
qed simp

theorem ndk_depends_java_order_witness:
  "\<exists>con. ndk_depends example_host [''--print-java'', ''/x/libp.so''] = Some (Exit 0 con) \<and>
     out con = ''System.loadLibrary(p);'' @ [newline]"
proof -
  obtain libfile where opened: "ElfFile_Open example_host 0 ''/x/libp.so'' ElfFile_new = (None, libfile)"
    using example_open by blast
  have loads: "java_loads ''libp.so''" "\<not> java_loads ''libc.so''"
    by (simp_all add: java_loads_def IsAndroidSystemLib_def kAndroidSystemLibs_def
        IsAndroidNdkCompatibleLib_def)
  then have set: "{x \<in> {''libp.so'', ''libc.so''}. java_loads x} = {''libp.so''}" by blast
  have dash: "\<not> starts_with ''/x/libp.so'' ''-''" by simp
  obtain ls con where "ndk_depends example_host [''--print-java'', ''/x/libp.so''] = Some (Exit 0 con)"
    "out con = concat (map java_line ls)" "distinct ls" "set ls = {''libp.so''}"
    using ndk_depends_java_order [OF example_host_finite opened dash example_hyps,
        unfolded example_paths example_edges example_reachable set] by (elim exE conjE)
  moreover from this(3,4) have "ls = [''libp.so'']" by (rule distinct_singleton)
  ultimately show ?thesis by (simp add: java_line_def del: process_options.simps)
qed

section \<open>The command line\<close>

datatype cli_option = Help | HelpShort | HelpMark | Direct | LibDir string | LibDirJoined string
  | HostLibs | Java | Paths | Dot | Verbose | Param string

fun render_option :: "cli_option \<Rightarrow> string list" where
  "render_option Help = [''--help'']"
| "render_option HelpShort = [''-h'']"
| "render_option HelpMark = [''-?'']"
| "render_option Direct = [''--print-direct'']"
| "render_option (LibDir p) = [''-L'', p]"
| "render_option (LibDirJoined p) = [''-L'' @ p]"
| "render_option HostLibs = [''--host-libs'']"
| "render_option Java = [''--print-java'']"
| "render_option Paths = [''--print-paths'']"
| "render_option Dot = [''--print-dot'']"
| "render_option Verbose = [''--verbose'']"
| "render_option (Param p) = [p]"

text \<open>A joined directory must not be empty, and a parameter not start with a dash.\<close>

fun option_ok :: "cli_option \<Rightarrow> bool" where
  "option_ok (LibDirJoined p) = (p \<noteq> [])"
| "option_ok (Param p) = (\<not> starts_with p ''-'')"
| "option_ok _ = True"

fun option_dirs :: "string list \<Rightarrow> cli_option \<Rightarrow> string list" where
  "option_dirs host_dirs (LibDir p) = [p]"
| "option_dirs host_dirs (LibDirJoined p) = [p]"
| "option_dirs host_dirs HostLibs = host_dirs"
| "option_dirs host_dirs _ = []"

fun option_params :: "cli_option \<Rightarrow> string list" where
  "option_params (Param p) = [p]"
| "option_params _ = []"

fun option_format :: "PrintFormat \<Rightarrow> cli_option \<Rightarrow> PrintFormat" where
  "option_format f Direct = PRINT_DIRECT"
| "option_format f Java = PRINT_JAVA"
| "option_format f Paths = PRINT_PATHS"
| "option_format f Dot = PRINT_DOT_FILE"
| "option_format f _ = f"

definition options_of :: "string list \<Rightarrow> cli_option list \<Rightarrow> depends_options \<Rightarrow> depends_options" where
  "options_of host_dirs os opts =
     \<lparr>do_help = (do_help opts \<or> Help \<in> set os \<or> HelpShort \<in> set os \<or> HelpMark \<in> set os),
      print_format = foldl option_format (print_format opts) os,
      lib_search_path = lib_search_path opts @ concat (map (option_dirs host_dirs) os),
      params = params opts @ concat (map option_params os)\<rparr>"

text \<open>The console after the options: the verbosity, and the messages of \<open>--host-libs\<close>.\<close>

definition console_after :: "cli_option list \<Rightarrow> console \<Rightarrow> console \<Rightarrow> bool" where
  "console_after os con con' \<longleftrightarrow>
     (c_int (g_verbose con) = g_verbose con \<longrightarrow> g_verbose con' = c_int (g_verbose con + int (count_list os Verbose))) \<and>
     (HostLibs \<notin> set os \<longrightarrow> out con' = out con \<and> err con' = err con)"

lemma console_after_Cons:
  assumes "console_after os con1 con'" "g_verbose con1 = g_verbose con" "opt \<noteq> Verbose"
    and "opt \<noteq> HostLibs \<Longrightarrow> con1 = con"
  shows "console_after (opt # os) con con'"
  using assms by (cases "opt = HostLibs") (auto simp: console_after_def)

lemma console_after_Verbose:
  "console_after os (con\<lparr>g_verbose := c_int (g_verbose con + 1)\<rparr>) con' \<Longrightarrow> console_after (Verbose # os) con con'"
  using c_int_cong [OF mod_add_cong [OF c_int_mod refl], of "g_verbose con + 1" "int (count_list os Verbose)"]
    c_int_cong [OF c_int_mod, of "g_verbose con + 1"]
  by (simp add: console_after_def algebra_simps)

text \<open>One option, whatever comes after it.\<close>

lemma process_option_step:
  assumes "option_ok opt" "opt = HostLibs \<Longrightarrow> adds_dirs (AddHostLibraryPaths host) dirs"
  shows "\<exists>con1. process_options host (render_option opt @ rest) opts con =
      process_options host rest (options_of dirs [opt] opts) con1 \<and>
    (\<forall>os con'. console_after os con1 con' \<longrightarrow> console_after (opt # os) con con')"
proof (cases "opt = HostLibs")
  case True
  obtain con1 where "AddHostLibraryPaths host (lib_search_path opts, con) = Some (lib_search_path opts @ dirs, con1)"
    "g_verbose con1 = g_verbose con"
    by (rule adds_dirsD [OF assms(2) [OF True], of "lib_search_path opts" con])
  with True show ?thesis
    by (cases opts, intro exI [of _ con1]) (auto simp: options_of_def intro: console_after_Cons)
next
  case False
  define con1 where "con1 = (if opt = Verbose then con\<lparr>g_verbose := c_int (g_verbose con + 1)\<rparr> else con)"
  have "console_after (opt # os) con con'" if "console_after os con1 con'" for os con'
    using that False console_after_Cons [of os con1 con' con opt] console_after_Verbose [of os con con']
    by (auto simp: con1_def split: if_splits)
  moreover have "process_options host (render_option opt @ rest) opts con =
      process_options host rest (options_of dirs [opt] opts) con1"
    using assms(1) False by (cases opts, cases opt) (simp_all add: options_of_def add_lib_path_def con1_def)
  ultimately show ?thesis by (intro exI [of _ con1]) blast
qed

lemma options_of_Cons: "options_of dirs os (options_of dirs [opt] opts) = options_of dirs (opt # os) opts"
  by (auto simp: options_of_def)

text \<open>
  C25.  Every sequence of the program's options, in any order and number, is accepted:
  \<open>--help\<close>, \<open>-h\<close> or \<open>-?\<close> anywhere asks for help, the last output format wins, the
  \<open>-L\<close> directories (in both spellings), the host's directories and the parameters are
  collected in their order, and the verbosity grows by one for each \<open>--verbose\<close>.  Only
  \<open>--host-libs\<close> may print a message; that it returns is a hypothesis.
\<close>

theorem process_options_roundtrip:
  assumes "\<forall>opt\<in>set os. option_ok opt" "c_int (g_verbose con) = g_verbose con"
    and "HostLibs \<in> set os \<longrightarrow> (\<exists>con0 con1. AddHostLibraryPaths host ([], con0) = Some (host_dirs, con1))"
  shows "\<exists>con'. process_options host (concat (map render_option os)) opts con =
      Some (Inr (options_of host_dirs os opts, con')) \<and>
    g_verbose con' = c_int (g_verbose con + int (count_list os Verbose)) \<and>
    (HostLibs \<notin> set os \<longrightarrow> out con' = out con \<and> err con' = err con)"
proof -
  have "HostLibs \<in> set os \<longrightarrow> adds_dirs (AddHostLibraryPaths host) host_dirs"
    using assms(3) host_libs_adds by blast
  with assms(1) have "\<exists>con'. process_options host (concat (map render_option os)) opts con =
      Some (Inr (options_of host_dirs os opts, con')) \<and> console_after os con con'"
  proof (induction os arbitrary: opts con)
    case Nil
    then show ?case by (simp add: options_of_def console_after_def)
  next
    case (Cons opt os)
    obtain con1 where con1: "process_options host (render_option opt @ concat (map render_option os)) opts con =
        process_options host (concat (map render_option os)) (options_of host_dirs [opt] opts) con1"
      "\<And>con'. console_after os con1 con' \<Longrightarrow> console_after (opt # os) con con'"
      using process_option_step [of opt host host_dirs "concat (map render_option os)" opts con] Cons.prems by auto
    obtain con' where "process_options host (concat (map render_option os)) (options_of host_dirs [opt] opts) con1 =
        Some (Inr (options_of host_dirs os (options_of host_dirs [opt] opts), con'))" "console_after os con1 con'"
      using Cons.IH [of "options_of host_dirs [opt] opts" con1] Cons.prems by auto
    with con1 show ?case by (auto simp: options_of_Cons)
  qed
  then show ?thesis using assms(2) by (simp add: console_after_def)
qed

theorem process_options_roundtrip_witness:
  "\<exists>con'. process_options (conf_host 9 []) [''-L'', ''a'', ''--print-dot'', ''libx.so'', ''--host-libs'', ''--verbose'', ''-Lb'', ''--print-java'', ''-?'']
      initial_options \<lparr>g_verbose = 0, out = [], err = []\<rparr> =
    Some (Inr (\<lparr>do_help = True, print_format = PRINT_JAVA, lib_search_path = [''a'', ''/lib'', ''b''],
                params = [''libx.so'']\<rparr>, con')) \<and> g_verbose con' = 1"
proof -
  have "AddHostLibraryPaths (conf_host 9 []) ([], \<lparr>g_verbose = 0, out = [], err = []\<rparr>) =
      Some ([''/lib''], \<lparr>g_verbose = 0, out = [], err = []\<rparr>)"
    by code_simp
  then show ?thesis
    using process_options_roundtrip [of "[LibDir ''a'', Dot, Param ''libx.so'', HostLibs, Verbose, LibDirJoined ''b'', Java, HelpMark]"
        "\<lparr>g_verbose = 0, out = [], err = []\<rparr>" "conf_host 9 []" "[''/lib'']" initial_options]
    by (simp add: options_of_def initial_options_def c_int_def del: process_options.simps) blast
qed

end
