(* ===== verification/NativeAppGlue.thy ===== *)
theory NativeAppGlue
  imports NdkPrelude
begin

text \<open>
  The glue of a threaded native application (\<open>sources/android/native_app_glue\<close>): the two
  threads share a structure under a mutex, the main thread sends commands through a pipe and
  waits on a condition variable until the application thread has processed them.

  A critical section is one step.  A wait leaves the mutex; \<open>broadcast\<close> marks the waiting
  thread as woken, and a waiting thread may also wake up on its own.  Pointers are numbers,
  \<open>None\<close> being the null pointer; the framework's objects are only compared.
\<close>

section \<open>State\<close>

datatype app_cmd =
    APP_CMD_INPUT_CHANGED | APP_CMD_INIT_WINDOW | APP_CMD_TERM_WINDOW | APP_CMD_WINDOW_RESIZED
  | APP_CMD_WINDOW_REDRAW_NEEDED | APP_CMD_CONTENT_RECT_CHANGED | APP_CMD_GAINED_FOCUS
  | APP_CMD_LOST_FOCUS | APP_CMD_CONFIG_CHANGED | APP_CMD_LOW_MEMORY | APP_CMD_START
  | APP_CMD_RESUME | APP_CMD_SAVE_STATE | APP_CMD_PAUSE | APP_CMD_STOP | APP_CMD_DESTROY

text \<open>The structure; \<open>savedState\<close> is the block and its size, \<open>config\<close> the device
  configuration that was last read, \<open>looper\<close> whether the looper is set.  The fields that hold
  the mutex, the thread, the ends of the pipe and the poll sources never change after the
  start and are left out.\<close>

record android_app =
  config :: "nat option"
  looper :: bool
  savedState :: "(nat \<times> nat) option"
  inputQueue :: "nat option"
  window :: "nat option"
  activityState :: app_cmd
  destroyRequested :: bool
  running :: bool
  stateSaved :: bool
  destroyed :: bool
  pendingInputQueue :: "nat option"
  pendingWindow :: "nat option"

text \<open>What \<open>memset(android_app, 0, ...)\<close> gives.\<close>

definition zero_app :: android_app where
  "zero_app =
     \<lparr>config = None, looper = False, savedState = None, inputQueue = None, window = None,
      activityState = APP_CMD_INPUT_CHANGED, destroyRequested = False, running = False,
      stateSaved = False, destroyed = False, pendingInputQueue = None, pendingWindow = None\<rparr>"

text \<open>What the main thread can wait for.\<close>

datatype wait_cond = Running | InputSet | WindowSet | ActivityIs app_cmd | StateSaved | Destroyed

datatype main_pc = MIdle | MWait wait_cond bool | MFreed

text \<open>
  Where the application thread is: before it runs, in \<open>android_main\<close>, between the parts of
  \<open>process_cmd\<close>, and in the parts of \<open>android_app_destroy\<close>.
\<close>

datatype app_pc = AStart | ALoop | ARead app_cmd | APre app_cmd | AUser app_cmd | APost app_cmd
  | AExit | AExitFreed | ADone | AFault c_fault

text \<open>
  The shared structure with its surroundings: the pipe, the configuration that the asset
  manager holds, the input queues attached to the
  looper, the allocated blocks, the blocks given to the framework, and the two threads.
\<close>

record glue =
  app :: android_app
  msgpipe :: "app_cmd list"
  assets :: nat
  attached :: "nat set"
  heap :: "nat set"
  handed :: "(nat \<times> nat) list"
  main_pc :: main_pc
  app_pc :: app_pc


section \<open>The application thread\<close>

text \<open>A fault is a free of a block that is not allocated.\<close>

definition free_saved_state :: "glue \<Rightarrow> glue c_result" where
  "free_saved_state g =
     (case savedState (app g) of
        None \<Rightarrow> Inr g
      | Some (p, n) \<Rightarrow>
          if p \<in> heap g then Inr (g\<lparr>heap := heap g - {p}, app := (app g)\<lparr>savedState := None\<rparr>\<rparr>)
          else Inl OutOfBounds)"

definition broadcast :: "glue \<Rightarrow> glue" where
  "broadcast g = (case main_pc g of MWait c woken \<Rightarrow> g\<lparr>main_pc := MWait c True\<rparr> | _ \<Rightarrow> g)"

text \<open>
  The read of a command is a blocking read of one byte; what the switch does after it is a
  critical section of its own.  \<open>android_app_read_cmd\<close> is both, \<open>None\<close> for the result -1.
\<close>

definition read_byte :: "glue \<Rightarrow> (app_cmd \<times> glue) option" where
  "read_byte g = (case msgpipe g of [] \<Rightarrow> None | cmd # cmds \<Rightarrow> Some (cmd, g\<lparr>msgpipe := cmds\<rparr>))"

definition read_cmd_switch :: "app_cmd \<Rightarrow> glue \<Rightarrow> glue c_result" where
  "read_cmd_switch cmd g = (if cmd = APP_CMD_SAVE_STATE then free_saved_state g else Inr g)"

definition android_app_read_cmd :: "glue \<Rightarrow> (app_cmd option \<times> glue) c_result" where
  "android_app_read_cmd g =
     (case read_byte g of
        None \<Rightarrow> Inr (None, g)
      | Some (cmd, g1) \<Rightarrow>
          (case read_cmd_switch cmd g1 of Inl f \<Rightarrow> Inl f | Inr g2 \<Rightarrow> Inr (Some cmd, g2)))"

definition detachLooper :: "nat option \<Rightarrow> glue \<Rightarrow> glue" where
  "detachLooper q g = (case q of None \<Rightarrow> g | Some i \<Rightarrow> g\<lparr>attached := attached g - {i}\<rparr>)"

definition attachLooper :: "nat option \<Rightarrow> glue \<Rightarrow> glue" where
  "attachLooper q g = (case q of None \<Rightarrow> g | Some i \<Rightarrow> g\<lparr>attached := insert i (attached g)\<rparr>)"

fun android_app_pre_exec_cmd :: "app_cmd \<Rightarrow> glue \<Rightarrow> glue c_result" where
  "android_app_pre_exec_cmd APP_CMD_INPUT_CHANGED g =
     (let g1 = detachLooper (inputQueue (app g)) g;
          g2 = g1\<lparr>app := (app g1)\<lparr>inputQueue := pendingInputQueue (app g1)\<rparr>\<rparr>;
          g3 = attachLooper (inputQueue (app g2)) g2
      in Inr (broadcast g3))"
| "android_app_pre_exec_cmd APP_CMD_INIT_WINDOW g =
     Inr (broadcast (g\<lparr>app := (app g)\<lparr>window := pendingWindow (app g)\<rparr>\<rparr>))"
| "android_app_pre_exec_cmd APP_CMD_TERM_WINDOW g = Inr (broadcast g)"
| "android_app_pre_exec_cmd APP_CMD_CONFIG_CHANGED g =
     (case config (app g) of
        None \<Rightarrow> Inl NullDeref
      | Some _ \<Rightarrow> Inr (g\<lparr>app := (app g)\<lparr>config := Some (assets g)\<rparr>\<rparr>))"
| "android_app_pre_exec_cmd APP_CMD_DESTROY g = Inr (g\<lparr>app := (app g)\<lparr>destroyRequested := True\<rparr>\<rparr>)"
| "android_app_pre_exec_cmd cmd g =
     (if cmd \<in> {APP_CMD_RESUME, APP_CMD_START, APP_CMD_PAUSE, APP_CMD_STOP}
      then Inr (broadcast (g\<lparr>app := (app g)\<lparr>activityState := cmd\<rparr>\<rparr>))
      else Inr g)"

fun android_app_post_exec_cmd :: "app_cmd \<Rightarrow> glue \<Rightarrow> glue c_result" where
  "android_app_post_exec_cmd APP_CMD_TERM_WINDOW g = Inr (broadcast (g\<lparr>app := (app g)\<lparr>window := None\<rparr>\<rparr>))"
| "android_app_post_exec_cmd APP_CMD_SAVE_STATE g = Inr (broadcast (g\<lparr>app := (app g)\<lparr>stateSaved := True\<rparr>\<rparr>))"
| "android_app_post_exec_cmd APP_CMD_RESUME g = free_saved_state g"
| "android_app_post_exec_cmd _ g = Inr g"

text \<open>One command from the pipe, with the handler of the application; on the result -1 the switches do nothing.\<close>

definition process_cmd :: "(app_cmd option \<Rightarrow> glue \<Rightarrow> glue) option \<Rightarrow> glue \<Rightarrow> glue c_result" where
  "process_cmd onAppCmd g =
     (case android_app_read_cmd g of
        Inl f \<Rightarrow> Inl f
      | Inr (cmd, g1) \<Rightarrow>
          (case (case cmd of None \<Rightarrow> Inr g1 | Some c \<Rightarrow> android_app_pre_exec_cmd c g1) of
             Inl f \<Rightarrow> Inl f
           | Inr g2 \<Rightarrow>
               (let g3 = (case onAppCmd of None \<Rightarrow> g2 | Some handler \<Rightarrow> handler cmd g2)
                in case cmd of None \<Rightarrow> Inr g3 | Some c \<Rightarrow> android_app_post_exec_cmd c g3)))"

text \<open>The critical section of \<open>android_app_destroy\<close> after \<open>free_saved_state\<close>, and both in turn.\<close>

definition destroy_section :: "glue \<Rightarrow> glue" where
  "destroy_section g =
     (let g1 = detachLooper (inputQueue (app g)) g
      in broadcast (g1\<lparr>app := (app g1)\<lparr>config := None, destroyed := True\<rparr>\<rparr>))"

definition android_app_destroy :: "glue \<Rightarrow> glue c_result" where
  "android_app_destroy g =
     (case free_saved_state g of Inl f \<Rightarrow> Inl f | Inr g1 \<Rightarrow> Inr (destroy_section g1))"

text \<open>The thread's function: its start, then \<open>android_main\<close>, then \<open>android_app_destroy\<close>.\<close>

definition entry_section :: "glue \<Rightarrow> glue" where
  "entry_section g =
     broadcast (g\<lparr>app := (app g)\<lparr>config := Some (assets g), looper := True, running := True\<rparr>\<rparr>)"

definition android_app_entry :: "(glue \<Rightarrow> glue c_result) \<Rightarrow> glue \<Rightarrow> glue c_result" where
  "android_app_entry android_main g =
     (case android_main (entry_section g) of Inl f \<Rightarrow> Inl f | Inr g1 \<Rightarrow> android_app_destroy g1)"

text \<open>
  The events of an input queue, each with the answer of \<open>AInputQueue_preDispatchEvent\<close>;
  the result lists the events that were finished, with what the handler returned.
\<close>

fun process_input :: "(nat \<Rightarrow> int) option \<Rightarrow> (nat \<times> bool) list \<Rightarrow> (nat \<times> int) list" where
  "process_input onInputEvent [] = []"
| "process_input onInputEvent ((event, predispatched) # events) =
     (if predispatched then process_input onInputEvent events
      else (event, case onInputEvent of None \<Rightarrow> 0 | Some handler \<Rightarrow> handler event)
             # process_input onInputEvent events)"


lemma process_input_finishes:
  "map fst (process_input h events) = map fst (filter (\<lambda>(event, predispatched). \<not> predispatched) events)"
  by (induction h events rule: process_input.induct) auto


section \<open>The main thread\<close>

definition android_app_write_cmd :: "app_cmd \<Rightarrow> glue \<Rightarrow> glue" where
  "android_app_write_cmd cmd g = g\<lparr>msgpipe := msgpipe g @ [cmd]\<rparr>"

text \<open>The condition of each wait loop, negated.\<close>

fun cond_holds :: "wait_cond \<Rightarrow> android_app \<Rightarrow> bool" where
  "cond_holds Running a = running a"
| "cond_holds InputSet a = (inputQueue a = pendingInputQueue a)"
| "cond_holds WindowSet a = (window a = pendingWindow a)"
| "cond_holds (ActivityIs cmd) a = (activityState a = cmd)"
| "cond_holds StateSaved a = stateSaved a"
| "cond_holds Destroyed a = destroyed a"

text \<open>
  What follows the loop: \<open>onSaveInstanceState\<close> takes the saved state over,
  \<open>android_app_free\<close> frees the structure, the others only unlock.
\<close>

fun after_wait :: "wait_cond \<Rightarrow> glue \<Rightarrow> glue" where
  "after_wait StateSaved g =
     (case savedState (app g) of
        None \<Rightarrow> g\<lparr>main_pc := MIdle\<rparr>
      | Some (p, n) \<Rightarrow>
          g\<lparr>app := (app g)\<lparr>savedState := None\<rparr>, heap := heap g - {p}, handed := handed g @ [(p, n)],
            main_pc := MIdle\<rparr>)"
| "after_wait Destroyed g = g\<lparr>main_pc := MFreed\<rparr>"
| "after_wait _ g = g\<lparr>main_pc := MIdle\<rparr>"

definition wait_loop :: "wait_cond \<Rightarrow> glue \<Rightarrow> glue" where
  "wait_loop c g = (if cond_holds c (app g) then after_wait c g else g\<lparr>main_pc := MWait c False\<rparr>)"

text \<open>\<open>android_app_create\<close>: \<open>None\<close> when the pipe cannot be created; a saved state is copied to a block.\<close>

definition android_app_create :: "bool \<Rightarrow> nat \<Rightarrow> (nat \<times> nat) option \<Rightarrow> glue option" where
  "android_app_create pipe_ok assets0 state =
     (let a = (case state of None \<Rightarrow> zero_app | Some s \<Rightarrow> zero_app\<lparr>savedState := Some s\<rparr>)
      in if \<not> pipe_ok then None
         else Some (wait_loop Running
           \<lparr>app = a, msgpipe = [], assets = assets0, attached = {},
            heap = (case state of None \<Rightarrow> {} | Some (p, n) \<Rightarrow> {p}),
            handed = [], main_pc = MIdle, app_pc = AStart\<rparr>))"

definition android_app_set_input :: "nat option \<Rightarrow> glue \<Rightarrow> glue" where
  "android_app_set_input queue g =
     wait_loop InputSet
       (android_app_write_cmd APP_CMD_INPUT_CHANGED (g\<lparr>app := (app g)\<lparr>pendingInputQueue := queue\<rparr>\<rparr>))"

definition android_app_set_window :: "nat option \<Rightarrow> glue \<Rightarrow> glue" where
  "android_app_set_window w g =
     (let g1 = (if pendingWindow (app g) \<noteq> None then android_app_write_cmd APP_CMD_TERM_WINDOW g else g);
          g2 = g1\<lparr>app := (app g1)\<lparr>pendingWindow := w\<rparr>\<rparr>;
          g3 = (if w \<noteq> None then android_app_write_cmd APP_CMD_INIT_WINDOW g2 else g2)
      in wait_loop WindowSet g3)"

definition android_app_set_activity_state :: "app_cmd \<Rightarrow> glue \<Rightarrow> glue" where
  "android_app_set_activity_state cmd g = wait_loop (ActivityIs cmd) (android_app_write_cmd cmd g)"

definition android_app_free :: "glue \<Rightarrow> glue" where
  "android_app_free g = wait_loop Destroyed (android_app_write_cmd APP_CMD_DESTROY g)"

definition onDestroy :: "glue \<Rightarrow> glue" where
  "onDestroy g = android_app_free g"

definition onStart :: "glue \<Rightarrow> glue" where
  "onStart g = android_app_set_activity_state APP_CMD_START g"

definition onResume :: "glue \<Rightarrow> glue" where
  "onResume g = android_app_set_activity_state APP_CMD_RESUME g"

definition onSaveInstanceState :: "glue \<Rightarrow> glue" where
  "onSaveInstanceState g =
     wait_loop StateSaved
       (android_app_write_cmd APP_CMD_SAVE_STATE (g\<lparr>app := (app g)\<lparr>stateSaved := False\<rparr>\<rparr>))"

definition onPause :: "glue \<Rightarrow> glue" where
  "onPause g = android_app_set_activity_state APP_CMD_PAUSE g"

definition onStop :: "glue \<Rightarrow> glue" where
  "onStop g = android_app_set_activity_state APP_CMD_STOP g"

definition onConfigurationChanged :: "glue \<Rightarrow> glue" where
  "onConfigurationChanged g = android_app_write_cmd APP_CMD_CONFIG_CHANGED g"

definition onLowMemory :: "glue \<Rightarrow> glue" where
  "onLowMemory g = android_app_write_cmd APP_CMD_LOW_MEMORY g"

definition onWindowFocusChanged :: "bool \<Rightarrow> glue \<Rightarrow> glue" where
  "onWindowFocusChanged focused g =
     android_app_write_cmd (if focused then APP_CMD_GAINED_FOCUS else APP_CMD_LOST_FOCUS) g"

definition onNativeWindowCreated :: "nat \<Rightarrow> glue \<Rightarrow> glue" where
  "onNativeWindowCreated w g = android_app_set_window (Some w) g"

definition onNativeWindowDestroyed :: "glue \<Rightarrow> glue" where
  "onNativeWindowDestroyed g = android_app_set_window None g"

definition onInputQueueCreated :: "nat \<Rightarrow> glue \<Rightarrow> glue" where
  "onInputQueueCreated queue g = android_app_set_input (Some queue) g"

definition onInputQueueDestroyed :: "glue \<Rightarrow> glue" where
  "onInputQueueDestroyed g = android_app_set_input None g"

text \<open>The table of callbacks that \<open>ANativeActivity_onCreate\<close> installs.\<close>

datatype callback = OnDestroy | OnStart | OnResume | OnSaveInstanceState | OnPause | OnStop
  | OnConfigurationChanged | OnLowMemory | OnWindowFocusChanged bool | OnNativeWindowCreated nat
  | OnNativeWindowDestroyed | OnInputQueueCreated nat | OnInputQueueDestroyed

fun callbacks :: "callback \<Rightarrow> glue \<Rightarrow> glue" where
  "callbacks OnDestroy = onDestroy"
| "callbacks OnStart = onStart"
| "callbacks OnResume = onResume"
| "callbacks OnSaveInstanceState = onSaveInstanceState"
| "callbacks OnPause = onPause"
| "callbacks OnStop = onStop"
| "callbacks OnConfigurationChanged = onConfigurationChanged"
| "callbacks OnLowMemory = onLowMemory"
| "callbacks (OnWindowFocusChanged focused) = onWindowFocusChanged focused"
| "callbacks (OnNativeWindowCreated w) = onNativeWindowCreated w"
| "callbacks OnNativeWindowDestroyed = onNativeWindowDestroyed"
| "callbacks (OnInputQueueCreated queue) = onInputQueueCreated queue"
| "callbacks OnInputQueueDestroyed = onInputQueueDestroyed"

lemmas callback_defs = onDestroy_def onStart_def onResume_def onSaveInstanceState_def onPause_def
  onStop_def onConfigurationChanged_def onLowMemory_def onWindowFocusChanged_def
  onNativeWindowCreated_def onNativeWindowDestroyed_def onInputQueueCreated_def
  onInputQueueDestroyed_def android_app_set_input_def android_app_set_window_def
  android_app_set_activity_state_def android_app_free_def android_app_write_cmd_def


section \<open>The two threads\<close>

text \<open>Where the application thread goes on after an operation that may fault.\<close>

definition continue_at :: "app_pc \<Rightarrow> glue \<Rightarrow> glue c_result \<Rightarrow> glue" where
  "continue_at pc g r = (case r of Inl f \<Rightarrow> g\<lparr>app_pc := AFault f\<rparr> | Inr g' \<Rightarrow> g'\<lparr>app_pc := pc\<rparr>)"

text \<open>
  The application thread.  Its code processes the commands one by one, allocates a new saved
  state in its handler when it is asked to save it, and returns from \<open>android_main\<close> when
  \<open>destroyRequested\<close> is set; with \<open>early\<close> it may return at any time.
\<close>

inductive app_step :: "bool \<Rightarrow> glue \<Rightarrow> glue \<Rightarrow> bool" for early :: bool where
  app_start: "app_pc g = AStart \<Longrightarrow> app_step early g ((entry_section g)\<lparr>app_pc := ALoop\<rparr>)"
| app_read: "app_pc g = ALoop \<Longrightarrow> read_byte g = Some (cmd, g') \<Longrightarrow> app_step early g (g'\<lparr>app_pc := ARead cmd\<rparr>)"
| app_switch: "app_pc g = ARead cmd \<Longrightarrow> app_step early g (continue_at (APre cmd) g (read_cmd_switch cmd g))"
| app_pre: "app_pc g = APre cmd \<Longrightarrow> app_step early g (continue_at (AUser cmd) g (android_app_pre_exec_cmd cmd g))"
| app_user: "app_pc g = AUser cmd \<Longrightarrow> app_step early g (g\<lparr>app_pc := APost cmd\<rparr>)"
| app_save: "app_pc g = AUser APP_CMD_SAVE_STATE \<Longrightarrow> p \<notin> heap g \<Longrightarrow> p \<notin> fst ` set (handed g) \<Longrightarrow>
    app_step early g (g\<lparr>app := (app g)\<lparr>savedState := Some (p, n)\<rparr>, heap := insert p (heap g),
                        app_pc := APost APP_CMD_SAVE_STATE\<rparr>)"
| app_post: "app_pc g = APost cmd \<Longrightarrow> app_step early g (continue_at ALoop g (android_app_post_exec_cmd cmd g))"
| app_exit: "app_pc g = ALoop \<Longrightarrow> destroyRequested (app g) \<or> early \<Longrightarrow> app_step early g (g\<lparr>app_pc := AExit\<rparr>)"
| app_destroy: "app_pc g = AExit \<Longrightarrow> app_step early g (continue_at AExitFreed g (free_saved_state g))"
| app_done: "app_pc g = AExitFreed \<Longrightarrow> app_step early g ((destroy_section g)\<lparr>app_pc := ADone\<rparr>)"

text \<open>The main thread: a callback of the framework, and the test after a wake-up.\<close>

inductive main_step :: "glue \<Rightarrow> glue \<Rightarrow> bool" where
  main_call: "main_pc g = MIdle \<Longrightarrow> main_step g (callbacks cb g)"
| main_wake: "main_pc g = MWait c woken \<Longrightarrow> main_step g (wait_loop c g)"

text \<open>Any interleaving of the two, and the changes of the device configuration.\<close>

inductive glue_step :: "bool \<Rightarrow> glue \<Rightarrow> glue \<Rightarrow> bool" for early :: bool where
  step_app: "app_step early g g' \<Longrightarrow> glue_step early g g'"
| step_main: "main_step g g' \<Longrightarrow> glue_step early g g'"
| step_assets: "glue_step early g (g\<lparr>assets := v\<rparr>)"

inductive reach :: "bool \<Rightarrow> glue \<Rightarrow> bool" for early :: bool where
  reach_create: "android_app_create True assets0 state = Some g \<Longrightarrow> reach early g"
| reach_step: "reach early g \<Longrightarrow> glue_step early g g' \<Longrightarrow> reach early g'"

inductive_cases app_stepE: "app_step early g g'"
inductive_cases main_stepE: "main_step g g'"
inductive_cases glue_stepE: "glue_step early g g'"

end
