(* ===== verification/GlueInvariants.thy ===== *)
theory GlueInvariants
  imports NativeAppGlue
begin

text \<open>
  The invariants of the two threads of \<open>NativeAppGlue\<close>, and that every step of the application
  thread keeps them.
\<close>

section \<open>Invariants\<close>

text \<open>
  The commands whose first part (before the handler), and whose last part (after it), is still
  to come.
\<close>

definition pre_cmds :: "glue \<Rightarrow> app_cmd list" where
  "pre_cmds g = (case app_pc g of ARead c \<Rightarrow> [c] | APre c \<Rightarrow> [c] | _ \<Rightarrow> []) @ msgpipe g"

definition post_cmds :: "glue \<Rightarrow> app_cmd list" where
  "post_cmds g =
     (case app_pc g of ARead c \<Rightarrow> [c] | APre c \<Rightarrow> [c] | AUser c \<Rightarrow> [c] | APost c \<Rightarrow> [c] | _ \<Rightarrow> []) @ msgpipe g"

text \<open>The input queue, the window and the activity state once these commands are processed.\<close>

definition final_input :: "glue \<Rightarrow> nat option" where
  "final_input g =
     (if APP_CMD_INPUT_CHANGED \<in> set (pre_cmds g) then pendingInputQueue (app g) else inputQueue (app g))"

fun window_after :: "nat option \<Rightarrow> nat option \<Rightarrow> app_cmd \<Rightarrow> nat option" where
  "window_after pending w APP_CMD_INIT_WINDOW = pending"
| "window_after pending w APP_CMD_TERM_WINDOW = None"
| "window_after pending w _ = w"

definition final_window :: "glue \<Rightarrow> nat option" where
  "final_window g =
     foldl (window_after (pendingWindow (app g)))
       (if app_pc g \<in> {AUser APP_CMD_TERM_WINDOW, APost APP_CMD_TERM_WINDOW} then None else window (app g))
       (pre_cmds g)"

abbreviation activity_cmd :: "app_cmd \<Rightarrow> bool" where
  "activity_cmd cmd \<equiv> cmd \<in> {APP_CMD_RESUME, APP_CMD_START, APP_CMD_PAUSE, APP_CMD_STOP}"

definition final_activity :: "glue \<Rightarrow> app_cmd" where
  "final_activity g = foldl (\<lambda>s c. if activity_cmd c then c else s) (activityState (app g)) (pre_cmds g)"

fun waits_for :: "main_pc \<Rightarrow> wait_cond \<Rightarrow> bool" where
  "waits_for (MWait c w) c' = (c = c')"
| "waits_for _ c' = False"

text \<open>The pending requests are what the application will have after its pending commands.\<close>

definition inv_sync :: "glue \<Rightarrow> bool" where
  "inv_sync g \<longleftrightarrow> final_input g = pendingInputQueue (app g) \<and> final_window g = pendingWindow (app g)
     \<and> (\<forall>c. waits_for (main_pc g) (ActivityIs c) \<longrightarrow> final_activity g = c)"

text \<open>A command to save the state is pending exactly while its sender waits for it.\<close>

definition inv_save :: "glue \<Rightarrow> bool" where
  "inv_save g \<longleftrightarrow>
     count_list (post_cmds g) APP_CMD_SAVE_STATE =
       (if waits_for (main_pc g) StateSaved \<and> \<not> stateSaved (app g) then 1 else 0)"

text \<open>The glue owns the block of the saved state and no other; what it gave away is gone.\<close>

fun blocks :: "(nat \<times> nat) option \<Rightarrow> nat set" where
  "blocks None = {}"
| "blocks (Some (p, n)) = {p}"

definition separate :: "nat set \<Rightarrow> (nat \<times> nat) list \<Rightarrow> bool" where
  "separate H given \<longleftrightarrow> distinct (map fst given) \<and> H \<inter> fst ` set given = {}"

definition inv_heap :: "glue \<Rightarrow> bool" where
  "inv_heap g \<longleftrightarrow>
     heap g = blocks (savedState (app g)) \<and> separate (blocks (savedState (app g))) (handed g)
     \<and> (app_pc g \<in> {APre APP_CMD_SAVE_STATE, AUser APP_CMD_SAVE_STATE, AExitFreed, ADone}
          \<longrightarrow> savedState (app g) = None)"

text \<open>No wake-up is lost: a thread that nobody woke still has to wait.\<close>

definition inv_wake :: "glue \<Rightarrow> bool" where
  "inv_wake g \<longleftrightarrow> (\<forall>c. main_pc g = MWait c False \<longrightarrow> \<not> cond_holds c (app g))"

text \<open>The life of the application thread.\<close>

definition inv_life :: "glue \<Rightarrow> bool" where
  "inv_life g \<longleftrightarrow>
     (app_pc g = AStart \<longleftrightarrow> \<not> running (app g))
     \<and> (app_pc g = AStart \<longrightarrow> waits_for (main_pc g) Running \<and> msgpipe g = [])
     \<and> (config (app g) = None \<longleftrightarrow> app_pc g \<in> {AStart, ADone})
     \<and> (destroyed (app g) \<longleftrightarrow> app_pc g = ADone)
     \<and> (\<forall>f. app_pc g \<noteq> AFault f)
     \<and> (main_pc g = MFreed \<longrightarrow> app_pc g = ADone)
     \<and> attached g = (if app_pc g = ADone then {} else set_option (inputQueue (app g)))"

text \<open>An application that does not return early ends only when it was asked to.\<close>

definition inv_destroy :: "glue \<Rightarrow> bool" where
  "inv_destroy g \<longleftrightarrow>
     (APP_CMD_DESTROY \<in> set (pre_cmds g) \<or> destroyRequested (app g)
        \<longleftrightarrow> waits_for (main_pc g) Destroyed \<or> main_pc g = MFreed)
     \<and> (app_pc g \<in> {AExit, AExitFreed, ADone} \<longrightarrow> destroyRequested (app g))"

lemmas app_defs = entry_section_def read_byte_def continue_at_def read_cmd_switch_def
  free_saved_state_def destroy_section_def attachLooper_def detachLooper_def

lemmas sync_defs = inv_sync_def final_input_def final_window_def final_activity_def pre_cmds_def

lemma broadcast_same [simp]:
  "app (broadcast g) = app g" "msgpipe (broadcast g) = msgpipe g" "heap (broadcast g) = heap g"
  "attached (broadcast g) = attached g" "handed (broadcast g) = handed g"
  "app_pc (broadcast g) = app_pc g" "assets (broadcast g) = assets g"
  "waits_for (main_pc (broadcast g)) c = waits_for (main_pc g) c"
  "main_pc (broadcast g) = MFreed \<longleftrightarrow> main_pc g = MFreed"
  "main_pc (broadcast g) \<noteq> MWait c False"
  by (simp_all add: broadcast_def split: main_pc.split)

lemma free_saved_state_heap:
  "inv_heap g \<Longrightarrow> free_saved_state g = Inr (g\<lparr>heap := {}, app := (app g)\<lparr>savedState := None\<rparr>\<rparr>)"
  by (cases "savedState (app g)") (auto simp: free_saved_state_def inv_heap_def)

lemma separate_less: "separate H given \<Longrightarrow> separate {} given"
  by (simp add: separate_def)

lemma separate_alloc: "separate H given \<Longrightarrow> p \<notin> fst ` set given \<Longrightarrow> separate (insert p H) given"
  by (simp add: separate_def)

lemma separate_give: "separate {p} given \<Longrightarrow> separate {} (given @ [(p, n)])"
  by (simp add: separate_def)

text \<open>What the attaching of a queue leaves alone.\<close>

lemma looper_same [simp]:
  "app (attachLooper q g) = app g" "msgpipe (attachLooper q g) = msgpipe g"
  "heap (attachLooper q g) = heap g" "handed (attachLooper q g) = handed g"
  "app_pc (attachLooper q g) = app_pc g" "main_pc (attachLooper q g) = main_pc g"
  "app (detachLooper q g) = app g" "msgpipe (detachLooper q g) = msgpipe g"
  "heap (detachLooper q g) = heap g" "handed (detachLooper q g) = handed g"
  "app_pc (detachLooper q g) = app_pc g" "main_pc (detachLooper q g) = main_pc g"
  "attached (attachLooper q g) = attached g \<union> set_option q"
  "attached (detachLooper q g) = attached g - set_option q"
  by (auto simp: attachLooper_def detachLooper_def split: option.split)

lemma inv_heap_pre:
  "inv_heap g \<Longrightarrow> app_pc g = APre cmd \<Longrightarrow> inv_heap (continue_at (AUser cmd) g (android_app_pre_exec_cmd cmd g))"
  by (cases cmd) (auto simp add: continue_at_def inv_heap_def Let_def split: option.split)

lemma inv_heap_post:
  "inv_heap g \<Longrightarrow> app_pc g = APost cmd \<Longrightarrow> inv_heap (continue_at ALoop g (android_app_post_exec_cmd cmd g))"
  using separate_less [of "blocks (savedState (app g))" "handed g"]
  by (cases cmd) (simp_all add: continue_at_def free_saved_state_heap, simp_all add: inv_heap_def)

lemma inv_heap_app:
  assumes "app_step early g g'" and "inv_heap g"
  shows "inv_heap g'"
  using assms(1)
proof cases
  case (app_switch cmd)
  with assms(2) separate_less [of "blocks (savedState (app g))" "handed g"] show ?thesis
    by (cases "cmd = APP_CMD_SAVE_STATE")
      (simp_all add: continue_at_def read_cmd_switch_def free_saved_state_heap, simp_all add: inv_heap_def)
next
  case app_destroy
  with assms(2) separate_less [of "blocks (savedState (app g))" "handed g"] show ?thesis
    by (simp add: continue_at_def free_saved_state_heap) (simp add: inv_heap_def)
next
  case (app_save p n)
  with assms(2) separate_alloc [of "{}" "handed g" p] show ?thesis
    by (auto simp: inv_heap_def)
qed (use assms(2) in \<open>simp_all add: inv_heap_pre inv_heap_post\<close>,
  use assms(2) in \<open>auto simp: inv_heap_def entry_section_def read_byte_def destroy_section_def Let_def split: list.splits\<close>)

text \<open>The lives of the two threads.\<close>

lemma inv_life_app:
  assumes "app_step early g g'" and "inv_heap g" and "inv_life g"
  shows "inv_life g'"
  using assms(1)
proof cases
  case (app_pre cmd)
  with assms(3) show ?thesis
    by (cases cmd) (auto simp: continue_at_def inv_life_def Let_def split: option.split)
next
  case (app_post cmd)
  with assms(2,3) show ?thesis
    by (cases cmd) (simp_all add: continue_at_def free_saved_state_heap inv_life_def)
qed (use assms(2,3) in \<open>auto simp: continue_at_def read_cmd_switch_def free_saved_state_heap inv_life_def
  entry_section_def read_byte_def destroy_section_def Let_def split: list.splits if_splits\<close>)

lemma inv_wake_app:
  assumes "app_step early g g'" and "inv_heap g" and "inv_wake g"
  shows "inv_wake g'"
  using assms(1)
proof cases
  case (app_pre cmd)
  with assms(3) show ?thesis
    by (cases cmd) (auto simp: continue_at_def inv_wake_def Let_def elim!: cond_holds.elims split: option.split)
next
  case (app_post cmd)
  with assms(2,3) show ?thesis
    by (cases cmd) (auto simp add: continue_at_def free_saved_state_heap inv_wake_def elim!: cond_holds.elims)
qed (use assms(2,3) in \<open>auto simp: continue_at_def read_cmd_switch_def free_saved_state_heap inv_wake_def
  entry_section_def read_byte_def destroy_section_def Let_def elim!: cond_holds.elims split: list.splits if_splits\<close>)

lemma inv_destroy_app:
  assumes "app_step False g g'" and "inv_heap g" and "inv_life g" and "inv_destroy g"
  shows "inv_destroy g'"
  using assms(1)
proof cases
  case (app_pre cmd)
  with assms(3,4) show ?thesis
    by (cases cmd) (auto simp: continue_at_def inv_life_def inv_destroy_def pre_cmds_def Let_def split: option.split)
next
  case (app_post cmd)
  with assms(2,4) show ?thesis
    by (cases cmd) (auto simp add: continue_at_def free_saved_state_heap inv_destroy_def pre_cmds_def)
qed (use assms(2,4) in \<open>auto simp: continue_at_def read_cmd_switch_def free_saved_state_heap inv_destroy_def
  pre_cmds_def entry_section_def read_byte_def destroy_section_def Let_def split: list.splits if_splits\<close>)

lemma inv_save_app:
  assumes "app_step early g g'" and "inv_heap g" and "inv_life g" and "inv_save g"
  shows "inv_save g'"
  using assms(1)
proof cases
  case (app_pre cmd)
  with assms(3,4) show ?thesis
    by (cases cmd) (auto simp: continue_at_def inv_life_def inv_save_def post_cmds_def Let_def split: option.split)
next
  case (app_post cmd)
  with assms(2,4) show ?thesis
    by (cases cmd) (auto simp add: continue_at_def free_saved_state_heap inv_save_def post_cmds_def split: if_splits)
qed (use assms(2,4) in \<open>auto simp: continue_at_def read_cmd_switch_def free_saved_state_heap inv_save_def
  post_cmds_def entry_section_def read_byte_def destroy_section_def Let_def split: list.splits if_splits\<close>)

lemma inv_sync_app:
  assumes "app_step early g g'" and "inv_heap g" and "inv_life g" and "inv_sync g"
  shows "inv_sync g'"
  using assms(1)
proof cases
  case (app_pre cmd)
  with assms(3,4) show ?thesis
    by (cases cmd) (auto simp: continue_at_def inv_life_def sync_defs Let_def split: option.split if_splits)
next
  case (app_post cmd)
  with assms(2,4) show ?thesis
    by (cases cmd) (auto simp add: continue_at_def free_saved_state_heap sync_defs split: if_splits)
qed (use assms(2,4) in \<open>auto simp: continue_at_def read_cmd_switch_def free_saved_state_heap sync_defs
  entry_section_def read_byte_def destroy_section_def Let_def split: list.splits if_splits\<close>)

end
