(* ===== verification/GlueSafety.thy ===== *)
theory GlueSafety
  imports GlueInvariants
begin

text \<open>
  The callbacks of the main thread keep the invariants of \<open>GlueInvariants\<close>; what this means for
  the callbacks of the framework: they return, nothing is freed twice or leaked, and the
  structure is freed only when the application thread has ended.
\<close>

text \<open>The parts of the invariant that hold for every application, and all of it.\<close>

definition glue_inv :: "bool \<Rightarrow> glue \<Rightarrow> bool" where
  "glue_inv early g \<longleftrightarrow> inv_sync g \<and> inv_save g \<and> inv_heap g \<and> inv_wake g \<and> inv_life g
     \<and> (early \<or> inv_destroy g)"

lemma glue_inv_app: "app_step early g g' \<Longrightarrow> glue_inv early g \<Longrightarrow> glue_inv early g'"
  unfolding glue_inv_def
  by (cases early) (simp_all add: inv_sync_app inv_save_app inv_heap_app inv_wake_app inv_life_app inv_destroy_app)

text \<open>The end of a wait, and the wait itself.\<close>

lemma cmds_same [simp]:
  "pre_cmds (g\<lparr>main_pc := m\<rparr>) = pre_cmds g" "post_cmds (g\<lparr>main_pc := m\<rparr>) = post_cmds g"
  "pre_cmds (g\<lparr>heap := h\<rparr>) = pre_cmds g" "post_cmds (g\<lparr>heap := h\<rparr>) = post_cmds g"
  "pre_cmds (g\<lparr>handed := l\<rparr>) = pre_cmds g" "post_cmds (g\<lparr>handed := l\<rparr>) = post_cmds g"
  "pre_cmds (g\<lparr>assets := v\<rparr>) = pre_cmds g" "post_cmds (g\<lparr>assets := v\<rparr>) = post_cmds g"
  "pre_cmds (g\<lparr>app := a\<rparr>) = pre_cmds g" "post_cmds (g\<lparr>app := a\<rparr>) = post_cmds g"
  by (simp_all add: pre_cmds_def post_cmds_def)

lemma cmds_write [simp]:
  "pre_cmds (g\<lparr>msgpipe := msgpipe g @ cmds\<rparr>) = pre_cmds g @ cmds"
  "post_cmds (g\<lparr>msgpipe := msgpipe g @ cmds\<rparr>) = post_cmds g @ cmds"
  "pre_cmds (g\<lparr>app := a, msgpipe := msgpipe g @ cmds\<rparr>) = pre_cmds g @ cmds"
  "post_cmds (g\<lparr>app := a, msgpipe := msgpipe g @ cmds\<rparr>) = post_cmds g @ cmds"
  by (simp_all add: pre_cmds_def post_cmds_def)

lemmas final_defs = inv_sync_def final_input_def final_window_def final_activity_def

lemma wait_loop_pc: "wait_loop c (g\<lparr>main_pc := m\<rparr>) = wait_loop c g"
  by (cases c) (simp_all add: wait_loop_def split: option.split)

lemma after_wait_cases:
  assumes "cond_holds c (app g)"
  obtains (idle) "c \<noteq> StateSaved" "c \<noteq> Destroyed" "after_wait c g = g\<lparr>main_pc := MIdle\<rparr>"
  | (none) "c = StateSaved" "savedState (app g) = None" "after_wait c g = g\<lparr>main_pc := MIdle\<rparr>"
  | (saved) p n where "c = StateSaved" "savedState (app g) = Some (p, n)"
      "after_wait c g = g\<lparr>app := (app g)\<lparr>savedState := None\<rparr>, heap := heap g - {p},
         handed := handed g @ [(p, n)], main_pc := MIdle\<rparr>"
  | (freed) "c = Destroyed" "after_wait c g = g\<lparr>main_pc := MFreed\<rparr>"
proof (cases c)
  case StateSaved
  then show thesis
    using none saved by (cases "savedState (app g)") auto
qed (use idle freed in simp_all)

lemma inv_sync_after: "inv_sync g \<Longrightarrow> cond_holds c (app g) \<Longrightarrow> inv_sync (after_wait c g)"
  by (rule after_wait_cases, assumption) (auto simp: final_defs)

lemma inv_save_after:
  "inv_save g \<Longrightarrow> main_pc g = MWait c w \<Longrightarrow> cond_holds c (app g) \<Longrightarrow> inv_save (after_wait c g)"
  by (rule after_wait_cases, assumption) (auto simp: inv_save_def)

lemma inv_heap_after: "inv_heap g \<Longrightarrow> cond_holds c (app g) \<Longrightarrow> inv_heap (after_wait c g)"
  by (rule after_wait_cases, assumption) (auto simp: inv_heap_def intro!: separate_give)

lemma inv_wake_after: "cond_holds c (app g) \<Longrightarrow> inv_wake (after_wait c g)"
  by (rule after_wait_cases, assumption) (auto simp: inv_wake_def)

lemma inv_life_after:
  "inv_life g \<Longrightarrow> main_pc g = MWait c w \<Longrightarrow> cond_holds c (app g) \<Longrightarrow> inv_life (after_wait c g)"
  by (rule after_wait_cases, assumption) (auto simp: inv_life_def)

lemma inv_destroy_after:
  "inv_destroy g \<Longrightarrow> main_pc g = MWait c w \<Longrightarrow> cond_holds c (app g) \<Longrightarrow> inv_destroy (after_wait c g)"
  by (rule after_wait_cases, assumption) (auto simp: inv_destroy_def)

lemma after_wait_inv:
  assumes "main_pc g = MWait c w" and "glue_inv early g" and "cond_holds c (app g)"
  shows "glue_inv early (after_wait c g)"
  using assms
  by (auto simp: glue_inv_def inv_sync_after inv_save_after inv_heap_after inv_wake_after inv_life_after
      inv_destroy_after)

lemma inv_wait_same:
  assumes "main_pc g = MWait c w"
  shows "inv_sync g \<Longrightarrow> inv_sync (g\<lparr>main_pc := MWait c w'\<rparr>)" "inv_save g \<Longrightarrow> inv_save (g\<lparr>main_pc := MWait c w'\<rparr>)"
    "inv_heap g \<Longrightarrow> inv_heap (g\<lparr>main_pc := MWait c w'\<rparr>)" "inv_life g \<Longrightarrow> inv_life (g\<lparr>main_pc := MWait c w'\<rparr>)"
    "inv_destroy g \<Longrightarrow> inv_destroy (g\<lparr>main_pc := MWait c w'\<rparr>)"
  using assms
  by (simp_all add: inv_sync_def final_input_def final_window_def final_activity_def inv_save_def inv_heap_def
      inv_life_def inv_destroy_def cong: if_cong)

lemma wait_loop_inv:
  assumes "main_pc g = MWait c w" and "glue_inv early g"
  shows "glue_inv early (wait_loop c g)"
proof (cases "cond_holds c (app g)")
  case True
  with assms show ?thesis
    by (simp add: wait_loop_def after_wait_inv)
next
  case False
  then have "inv_wake (g\<lparr>main_pc := MWait c False\<rparr>)"
    by (simp add: inv_wake_def)
  with False assms show ?thesis
    by (auto simp: wait_loop_def glue_inv_def inv_wait_same)
qed

lemma wait_from_idle: "glue_inv early (g\<lparr>main_pc := MWait c True\<rparr>) \<Longrightarrow> glue_inv early (wait_loop c g)"
  using wait_loop_inv [of "g\<lparr>main_pc := MWait c True\<rparr>" c True early] by (simp add: wait_loop_pc)

lemma idle_running: "main_pc g = MIdle \<Longrightarrow> inv_life g \<Longrightarrow> running (app g) \<and> app_pc g \<noteq> AStart"
  by (auto simp: inv_life_def)

text \<open>A request of the idle main thread: it changes the structure, writes commands and waits.\<close>

lemma inv_life_request:
  assumes "inv_life g" "main_pc g = MIdle" "m \<noteq> MFreed"
    and "running a = running (app g)" "config a = config (app g)" "destroyed a = destroyed (app g)"
      "inputQueue a = inputQueue (app g)"
  shows "inv_life (g\<lparr>app := a, msgpipe := p, main_pc := m\<rparr>)"
  using assms by (auto simp: inv_life_def)

lemma inv_heap_request:
  "inv_heap g \<Longrightarrow> savedState a = savedState (app g) \<Longrightarrow> inv_heap (g\<lparr>app := a, msgpipe := p, main_pc := m\<rparr>)"
  by (simp add: inv_heap_def)

lemma inv_save_request:
  assumes "inv_save g" "main_pc g = MIdle"
    and "count_list cmds APP_CMD_SAVE_STATE = (if waits_for m StateSaved \<and> \<not> stateSaved a then 1 else 0)"
  shows "inv_save (g\<lparr>app := a, msgpipe := msgpipe g @ cmds, main_pc := m\<rparr>)"
  using assms by (simp add: inv_save_def post_cmds_def)

lemma inv_destroy_request:
  assumes "inv_destroy g" "main_pc g = MIdle" "m \<noteq> MFreed" "destroyRequested a = destroyRequested (app g)"
    and "APP_CMD_DESTROY \<in> set cmds \<longleftrightarrow> waits_for m Destroyed"
  shows "inv_destroy (g\<lparr>app := a, msgpipe := msgpipe g @ cmds, main_pc := m\<rparr>)"
  using assms by (auto simp add: inv_destroy_def pre_cmds_def)

lemma window_fold_same:
  "APP_CMD_INIT_WINDOW \<notin> set cmds \<Longrightarrow> APP_CMD_TERM_WINDOW \<notin> set cmds \<Longrightarrow>
    foldl (window_after pending) w cmds = w"
proof (induction cmds)
  case (Cons cmd cmds)
  then have "window_after pending w cmd = w"
    by (cases cmd) auto
  with Cons show ?case
    by simp
qed simp

definition window_request :: "nat option \<Rightarrow> nat option \<Rightarrow> app_cmd list \<Rightarrow> bool" where
  "window_request old new cmds \<longleftrightarrow>
     (\<exists>cmds'. cmds = cmds' @ [APP_CMD_INIT_WINDOW]) \<or> cmds = [APP_CMD_TERM_WINDOW] \<and> new = None
     \<or> new = old \<and> APP_CMD_INIT_WINDOW \<notin> set cmds \<and> APP_CMD_TERM_WINDOW \<notin> set cmds"

lemma final_window_request:
  assumes "final_window g = pendingWindow (app g)" and "window a = window (app g)"
    and "window_request (pendingWindow (app g)) (pendingWindow a) cmds"
  shows "final_window (g\<lparr>app := a, msgpipe := msgpipe g @ cmds, main_pc := m\<rparr>) = pendingWindow a"
proof -
  from assms(3) consider cmds' where "cmds = cmds' @ [APP_CMD_INIT_WINDOW]"
    | "cmds = [APP_CMD_TERM_WINDOW]" "pendingWindow a = None"
    | "pendingWindow a = pendingWindow (app g)" "APP_CMD_INIT_WINDOW \<notin> set cmds" "APP_CMD_TERM_WINDOW \<notin> set cmds"
    by (auto simp: window_request_def)
  then show ?thesis
    using assms(1,2) by cases (auto simp: final_window_def window_fold_same split: if_splits)
qed

lemma inv_sync_request:
  assumes "inv_sync g" "main_pc g = MIdle"
    and "inputQueue a = inputQueue (app g)" "window a = window (app g)"
    and "APP_CMD_INPUT_CHANGED \<in> set cmds \<or> pendingInputQueue a = pendingInputQueue (app g)"
    and "window_request (pendingWindow (app g)) (pendingWindow a) cmds"
    and "\<And>c. waits_for m (ActivityIs c) \<Longrightarrow> activity_cmd c \<and> cmds = [c]"
  shows "inv_sync (g\<lparr>app := a, msgpipe := msgpipe g @ cmds, main_pc := m\<rparr>)"
    (is "inv_sync ?g")
proof -
  have "final_input ?g = pendingInputQueue a"
    using assms(1,3,5) by (auto simp: inv_sync_def final_input_def split: if_splits)
  moreover have "final_window ?g = pendingWindow a"
    using assms(1,4,6) by (intro final_window_request) (auto simp: inv_sync_def)
  moreover have "final_activity ?g = c" if "waits_for m (ActivityIs c)" for c
    using assms(7) [OF that] by (auto simp: final_activity_def)
  ultimately show ?thesis
    by (simp add: inv_sync_def)
qed

lemma request_inv:
  assumes "main_pc g = MIdle" and "glue_inv early g" and "m = MIdle \<or> m = MWait c True"
    and "running a = running (app g)" "config a = config (app g)" "destroyed a = destroyed (app g)"
      "inputQueue a = inputQueue (app g)" "savedState a = savedState (app g)"
      "destroyRequested a = destroyRequested (app g)" "window a = window (app g)"
    and "APP_CMD_INPUT_CHANGED \<in> set cmds \<or> pendingInputQueue a = pendingInputQueue (app g)"
    and "window_request (pendingWindow (app g)) (pendingWindow a) cmds"
    and "\<And>c. waits_for m (ActivityIs c) \<Longrightarrow> activity_cmd c \<and> cmds = [c]"
    and "count_list cmds APP_CMD_SAVE_STATE = (if waits_for m StateSaved \<and> \<not> stateSaved a then 1 else 0)"
    and "APP_CMD_DESTROY \<in> set cmds \<longleftrightarrow> waits_for m Destroyed"
  shows "glue_inv early (g\<lparr>app := a, msgpipe := msgpipe g @ cmds, main_pc := m\<rparr>)"
    (is "glue_inv early ?g")
proof -
  have "m \<noteq> MFreed"
    using assms(3) by auto
  from assms(2) have old: "inv_sync g" "inv_save g" "inv_heap g" "inv_life g" "early \<or> inv_destroy g"
    by (simp_all add: glue_inv_def)
  have "inv_wake ?g"
    using assms(3) by (auto simp: inv_wake_def)
  moreover have "early \<or> inv_destroy ?g"
    using old(5) inv_destroy_request [OF _ assms(1) \<open>m \<noteq> MFreed\<close> assms(9,15)] by auto
  ultimately show ?thesis
    using inv_sync_request [OF old(1) assms(1,7,10,11,12,13)] inv_save_request [OF old(2) assms(1,14)]
      inv_heap_request [OF old(3) assms(8)] inv_life_request [OF old(4) assms(1) \<open>m \<noteq> MFreed\<close> assms(4-7)]
    by (simp add: glue_inv_def)
qed

lemma write_inv:
  assumes "main_pc g = MIdle" and "glue_inv early g"
    and "cmd \<in> {APP_CMD_CONFIG_CHANGED, APP_CMD_LOW_MEMORY, APP_CMD_GAINED_FOCUS, APP_CMD_LOST_FOCUS}"
  shows "glue_inv early (android_app_write_cmd cmd g)"
proof -
  have "android_app_write_cmd cmd g = g\<lparr>app := app g, msgpipe := msgpipe g @ [cmd], main_pc := MIdle\<rparr>"
    by (rule glue.equality) (simp_all add: android_app_write_cmd_def assms(1))
  also have "glue_inv early \<dots>"
    using assms by (intro request_inv) (auto simp: window_request_def)
  finally show ?thesis .
qed

lemma set_input_inv:
  "main_pc g = MIdle \<Longrightarrow> glue_inv early g \<Longrightarrow> glue_inv early (android_app_set_input q g)"
  unfolding android_app_set_input_def android_app_write_cmd_def
  using request_inv [of g early "MWait InputSet True" InputSet "(app g)\<lparr>pendingInputQueue := q\<rparr>"
      "[APP_CMD_INPUT_CHANGED]"]
  by (intro wait_from_idle) (simp add: window_request_def)

lemma set_activity_inv:
  assumes "main_pc g = MIdle" and "glue_inv early g" and "activity_cmd cmd"
  shows "glue_inv early (android_app_set_activity_state cmd g)"
proof -
  have "glue_inv early (g\<lparr>app := app g, msgpipe := msgpipe g @ [cmd], main_pc := MWait (ActivityIs cmd) True\<rparr>)"
    by (rule request_inv) (use assms in \<open>auto simp: window_request_def\<close>)
  then show ?thesis
    unfolding android_app_set_activity_state_def android_app_write_cmd_def by (intro wait_from_idle) simp
qed

lemma free_inv:
  "main_pc g = MIdle \<Longrightarrow> glue_inv early g \<Longrightarrow> glue_inv early (android_app_free g)"
  unfolding android_app_free_def android_app_write_cmd_def
  using request_inv [of g early "MWait Destroyed True" Destroyed "app g" "[APP_CMD_DESTROY]"]
  by (intro wait_from_idle) (simp add: window_request_def)

lemma save_inv:
  "main_pc g = MIdle \<Longrightarrow> glue_inv early g \<Longrightarrow> glue_inv early (onSaveInstanceState g)"
  unfolding onSaveInstanceState_def android_app_write_cmd_def
  using request_inv [of g early "MWait StateSaved True" StateSaved "(app g)\<lparr>stateSaved := False\<rparr>"
      "[APP_CMD_SAVE_STATE]"]
  by (intro wait_from_idle) (simp add: window_request_def)

lemma update_swap: "g\<lparr>msgpipe := p, app := a\<rparr> = g\<lparr>app := a, msgpipe := p\<rparr>"
  by (cases g) simp

lemma set_window_inv:
  assumes "main_pc g = MIdle" and "glue_inv early g"
  shows "glue_inv early (android_app_set_window w g)"
proof -
  let ?cmds = "(if pendingWindow (app g) = None then [] else [APP_CMD_TERM_WINDOW])
    @ (if w = None then [] else [APP_CMD_INIT_WINDOW])"
  have "android_app_set_window w g =
      wait_loop WindowSet (g\<lparr>app := (app g)\<lparr>pendingWindow := w\<rparr>, msgpipe := msgpipe g @ ?cmds\<rparr>)"
    by (simp add: android_app_set_window_def android_app_write_cmd_def update_swap)
  also have "glue_inv early \<dots>"
    using assms request_inv [of g early "MWait WindowSet True" WindowSet "(app g)\<lparr>pendingWindow := w\<rparr>" ?cmds]
    by (intro wait_from_idle) (simp add: window_request_def)
  finally show ?thesis .
qed

lemma callbacks_inv:
  "main_pc g = MIdle \<Longrightarrow> glue_inv early g \<Longrightarrow> glue_inv early (callbacks cb g)"
  by (cases cb) (simp_all add: onDestroy_def onStart_def onResume_def onPause_def onStop_def
    onConfigurationChanged_def onLowMemory_def onWindowFocusChanged_def onNativeWindowCreated_def
    onNativeWindowDestroyed_def onInputQueueCreated_def onInputQueueDestroyed_def
    write_inv set_input_inv set_activity_inv free_inv save_inv set_window_inv)

definition initial :: "nat \<Rightarrow> (nat \<times> nat) option \<Rightarrow> glue" where
  "initial assets0 state =
     \<lparr>app = zero_app\<lparr>savedState := state\<rparr>, msgpipe = [], assets = assets0, attached = {}, heap = blocks state,
      handed = [], main_pc = MWait Running False, app_pc = AStart\<rparr>"

lemma create_initial: "android_app_create True assets0 state = Some (initial assets0 state)"
  by (cases state) (auto simp: android_app_create_def initial_def zero_app_def wait_loop_def)

lemma initial_inv: "glue_inv early (initial assets0 state)"
proof -
  have "inv_sync (initial assets0 state)"
    by (simp add: initial_def zero_app_def final_defs pre_cmds_def)
  moreover have "inv_save (initial assets0 state)"
    by (simp add: initial_def zero_app_def inv_save_def post_cmds_def)
  moreover have "inv_heap (initial assets0 state)" "inv_wake (initial assets0 state)"
    by (simp_all add: initial_def zero_app_def inv_heap_def separate_def inv_wake_def)
  moreover have "inv_life (initial assets0 state)" "inv_destroy (initial assets0 state)"
    by (simp_all add: initial_def zero_app_def inv_life_def inv_destroy_def pre_cmds_def)
  ultimately show ?thesis
    by (simp add: glue_inv_def)
qed

lemma assets_inv: "glue_inv early g \<Longrightarrow> glue_inv early (g\<lparr>assets := v\<rparr>)"
  by (simp add: glue_inv_def inv_sync_def final_input_def final_window_def final_activity_def inv_save_def
      inv_heap_def inv_wake_def inv_life_def inv_destroy_def cong: if_cong)

lemma reach_inv: "reach early g \<Longrightarrow> glue_inv early g"
proof (induction rule: reach.induct)
  case (reach_step g g')
  from \<open>glue_step early g g'\<close> show ?case
  proof cases
    case step_main
    from this reach_step.IH show ?thesis
      by cases (simp_all add: callbacks_inv wait_loop_inv)
  next
    case (step_assets v)
    with reach_step.IH show ?thesis
      by (simp add: assets_inv)
  qed (use reach_step.IH in \<open>simp add: glue_inv_app\<close>)
qed (auto simp: create_initial initial_inv)

section \<open>Progress of the application thread\<close>

text \<open>A bound on the steps that the application thread can make on its own.\<close>

fun pc_work :: "app_pc \<Rightarrow> nat" where
  "pc_work AStart = 8"
| "pc_work ALoop = 3"
| "pc_work (ARead cmd) = 7"
| "pc_work (APre cmd) = 6"
| "pc_work (AUser cmd) = 5"
| "pc_work (APost cmd) = 4"
| "pc_work AExit = 2"
| "pc_work AExitFreed = 1"
| "pc_work ADone = 0"
| "pc_work (AFault f) = 0"

definition work :: "glue \<Rightarrow> nat" where
  "work g = 5 * length (msgpipe g) + pc_work (app_pc g)"

lemma free_saved_state_same:
  "free_saved_state g = Inr g' \<Longrightarrow> msgpipe g' = msgpipe g \<and> main_pc g' = main_pc g"
  by (auto simp: free_saved_state_def split: option.splits if_splits)

lemma pre_exec_same:
  "android_app_pre_exec_cmd cmd g = Inr g' \<Longrightarrow> msgpipe g' = msgpipe g \<and> waits_for (main_pc g') = waits_for (main_pc g)"
  by (cases cmd) (auto simp: Let_def fun_eq_iff split: option.splits)

lemma post_exec_same:
  "android_app_post_exec_cmd cmd g = Inr g' \<Longrightarrow> msgpipe g' = msgpipe g \<and> waits_for (main_pc g') = waits_for (main_pc g)"
  by (cases cmd) (auto simp: fun_eq_iff dest: free_saved_state_same)

lemma read_cmd_switch_same:
  "read_cmd_switch cmd g = Inr g' \<Longrightarrow> msgpipe g' = msgpipe g \<and> main_pc g' = main_pc g"
  by (auto simp: read_cmd_switch_def dest: free_saved_state_same split: if_splits)

lemma continue_work:
  assumes "\<And>g'. r = Inr g' \<Longrightarrow> msgpipe g' = msgpipe g" and "pc_work pc < pc_work (app_pc g)"
  shows "work (continue_at pc g r) < work g"
  using assms by (cases r) (simp_all add: continue_at_def work_def)

lemma continue_waits:
  "(\<And>g'. r = Inr g' \<Longrightarrow> waits_for (main_pc g') = waits_for (main_pc g)) \<Longrightarrow>
    waits_for (main_pc (continue_at pc g r)) = waits_for (main_pc g)"
  by (cases r) (simp_all add: continue_at_def)

lemma app_step_work:
  assumes "app_step early g g'"
  shows "work g' < work g"
  using assms
proof cases
  case (app_switch cmd)
  then show ?thesis
    using read_cmd_switch_same by (simp add: continue_work)
next
  case (app_pre cmd)
  then show ?thesis
    using pre_exec_same by (simp add: continue_work)
next
  case (app_post cmd)
  then show ?thesis
    using post_exec_same by (simp add: continue_work)
next
  case app_destroy
  then show ?thesis
    using free_saved_state_same by (simp add: continue_work)
qed (auto simp: work_def entry_section_def read_byte_def destroy_section_def Let_def split: list.splits)

lemma app_step_waits:
  assumes "app_step early g g'"
  shows "waits_for (main_pc g') = waits_for (main_pc g)"
  using assms
proof cases
  case (app_switch cmd)
  then show ?thesis
    using read_cmd_switch_same by (simp add: continue_waits)
next
  case (app_pre cmd)
  then show ?thesis
    using pre_exec_same by (simp add: continue_waits)
next
  case (app_post cmd)
  then show ?thesis
    using post_exec_same by (simp add: continue_waits)
next
  case app_destroy
  then show ?thesis
    using free_saved_state_same by (simp add: continue_waits)
qed (auto simp: fun_eq_iff entry_section_def read_byte_def destroy_section_def Let_def split: list.splits)

lemma app_run_reach:
  "(app_step early ^^ n) g g' \<Longrightarrow> reach early g \<Longrightarrow>
    reach early g' \<and> n + work g' \<le> work g \<and> waits_for (main_pc g') = waits_for (main_pc g)"
proof (induction n arbitrary: g')
  case (Suc n)
  then obtain h where h: "(app_step early ^^ n) g h" "app_step early h g'"
    by auto
  with Suc have "reach early h" "n + work h \<le> work g" "waits_for (main_pc h) = waits_for (main_pc g)"
    by blast+
  with h(2) app_step_work [OF h(2)] show ?case
    by (auto intro: reach_step step_app simp: app_step_waits)
qed simp

text \<open>An application thread that cannot go on has processed everything, or has ended.\<close>

lemma app_stuck:
  assumes "\<nexists>g'. app_step early g g'" and "inv_life g"
  shows "app_pc g = ALoop \<and> msgpipe g = [] \<and> \<not> destroyRequested (app g) \<or> app_pc g = ADone"
proof (cases "app_pc g")
  case ALoop
  then have "msgpipe g = []"
    using assms(1) app_read [of g _ _ early] by (cases "msgpipe g") (auto simp: read_byte_def)
  moreover have "\<not> destroyRequested (app g)"
    using ALoop assms(1) app_exit by blast
  ultimately show ?thesis
    using ALoop by simp
next
  case (AFault f)
  then show ?thesis
    using assms(2) by (simp add: inv_life_def)
qed (use assms(1) app_start app_switch app_pre app_user app_post app_destroy app_done in blast)+

lemma stuck_cond:
  assumes "\<nexists>g'. app_step False g g'" and inv: "glue_inv False g" and "main_pc g = MWait c w"
  shows "cond_holds c (app g)"
proof -
  consider "app_pc g = ALoop" "msgpipe g = []" "\<not> destroyRequested (app g)" | "app_pc g = ADone"
    using app_stuck [OF assms(1)] inv unfolding glue_inv_def by blast
  then show ?thesis
  proof cases
    case 1
    then show ?thesis
      using inv assms(3)
      by (cases c) (simp_all add: glue_inv_def sync_defs inv_save_def post_cmds_def inv_life_def inv_destroy_def
        split: if_splits)
  next
    case 2
    then show ?thesis
      using inv assms(3) by (auto simp: glue_inv_def inv_life_def inv_destroy_def)
  qed
qed

section \<open>Whole commands\<close>

definition at_pc :: "app_pc \<Rightarrow> glue \<Rightarrow> glue" where
  "at_pc pc g = g\<lparr>app_pc := pc\<rparr>"

lemma free_saved_state_at: "free_saved_state (at_pc pc g) = map_sum id (at_pc pc) (free_saved_state g)"
  by (cases g) (simp add: free_saved_state_def at_pc_def split: option.split)

lemma pre_exec_at: "android_app_pre_exec_cmd cmd (at_pc pc g) = map_sum id (at_pc pc) (android_app_pre_exec_cmd cmd g)"
  by (cases cmd; cases g)
    (simp_all add: at_pc_def Let_def broadcast_def attachLooper_def detachLooper_def split: option.split main_pc.split)

lemma post_exec_at: "android_app_post_exec_cmd cmd (at_pc pc g) = map_sum id (at_pc pc) (android_app_post_exec_cmd cmd g)"
  by (cases cmd; cases g)
    (simp_all add: free_saved_state_at, simp_all add: at_pc_def broadcast_def split: main_pc.split)

lemma read_cmd_switch_at: "read_cmd_switch cmd (at_pc pc g) = map_sum id (at_pc pc) (read_cmd_switch cmd g)"
  by (simp add: read_cmd_switch_def free_saved_state_at)

lemma at_pc_at_pc [simp]: "at_pc pc (at_pc pc' g) = at_pc pc g"
  by (simp add: at_pc_def)

lemma process_cmd_run:
  assumes "app_pc g = ALoop" and "msgpipe g = cmd # cmds" and "process_cmd None g = Inr g'"
  shows "(app_step early ^^ 5) g (at_pc ALoop g')"
proof -
  let ?g1 = "g\<lparr>msgpipe := cmds\<rparr>"
  obtain g2 where g2: "read_cmd_switch cmd ?g1 = Inr g2"
    using assms(2,3) by (auto simp: process_cmd_def android_app_read_cmd_def read_byte_def split: sum.splits)
  obtain g3 where g3: "android_app_pre_exec_cmd cmd g2 = Inr g3"
    using assms(2,3) g2
    by (auto simp: process_cmd_def android_app_read_cmd_def read_byte_def split: sum.splits)
  have g4: "android_app_post_exec_cmd cmd g3 = Inr g'"
    using assms(2,3) g2 g3 by (simp add: process_cmd_def android_app_read_cmd_def read_byte_def)
  have "app_step early g (at_pc (ARead cmd) ?g1)"
    using app_read [of g cmd ?g1 early] assms(1,2) by (simp add: read_byte_def at_pc_def)
  moreover have "app_step early (at_pc (ARead cmd) ?g1) (at_pc (APre cmd) g2)"
    using app_switch [of "at_pc (ARead cmd) ?g1" cmd early] g2
    by (simp add: read_cmd_switch_at continue_at_def flip: at_pc_def) (simp add: at_pc_def)
  moreover have "app_step early (at_pc (APre cmd) g2) (at_pc (AUser cmd) g3)"
    using app_pre [of "at_pc (APre cmd) g2" cmd early] g3
    by (simp add: pre_exec_at continue_at_def flip: at_pc_def) (simp add: at_pc_def)
  moreover have "app_step early (at_pc (AUser cmd) g3) (at_pc (APost cmd) g3)"
    using app_user [of "at_pc (AUser cmd) g3" cmd early] by (simp add: at_pc_def)
  moreover have "app_step early (at_pc (APost cmd) g3) (at_pc ALoop g')"
    using app_post [of "at_pc (APost cmd) g3" cmd early] g4
    by (simp add: post_exec_at continue_at_def flip: at_pc_def) (simp add: at_pc_def)
  ultimately show ?thesis
    by (simp add: numeral_eq_Suc OO_def) blast
qed

section \<open>What the glue promises\<close>

text \<open>
  C4.  In every interleaving of the two threads, whatever callbacks the framework makes: the
  application thread never frees a block twice and never uses a configuration that is not there;
  the blocks that the glue has allocated are exactly the saved state, so that none is leaked; a
  block is given to the framework at most once; and the structure is freed only when the
  application thread has ended, with nothing left allocated and no input queue attached.
\<close>

theorem glue_memory_safe:
  assumes "reach early g"
  shows "(\<forall>f. app_pc g \<noteq> AFault f) \<and> heap g = blocks (savedState (app g))
    \<and> distinct (map fst (handed g)) \<and> heap g \<inter> fst ` set (handed g) = {}
    \<and> (main_pc g = MFreed \<longrightarrow> app_pc g = ADone \<and> heap g = {} \<and> attached g = {})"
  using reach_inv [OF assms] unfolding glue_inv_def inv_life_def inv_heap_def separate_def
  by simp

theorem glue_memory_safe_witness:
  "heap (initial 0 (Some (7, 32))) = blocks (savedState (app (initial 0 (Some (7, 32)))))"
  using glue_memory_safe [OF reach_create [OF create_initial [of 0 "Some (7, 32)"]]] by simp


definition started :: "glue" where
  "started = (entry_section (initial 0 None))\<lparr>app_pc := ALoop\<rparr>"

lemma started_step: "app_step early (initial 0 None) started"
  unfolding started_def by (rule app_start) (simp add: initial_def)

lemma reach_started: "reach early started"
  using started_step by (intro reach_step [OF reach_create [OF create_initial]] step_app)


text \<open>
  C3.  The callbacks of the framework return.  When the main thread waits, the application
  thread (which processes its commands, and returns from \<open>android_main\<close> only when it is asked
  to) makes at most \<open>work g\<close> steps on its own; and when it can make no more, the condition that
  the main thread waits for holds, the main thread has been woken, and its next step leaves
  the wait.
\<close>

theorem callback_returns:
  assumes "reach False g" and "main_pc g = MWait c w" and "(app_step False ^^ n) g g'"
  shows "n \<le> work g \<and>
    ((\<nexists>h. app_step False g' h) \<longrightarrow>
      cond_holds c (app g') \<and> main_pc g' = MWait c True
      \<and> main_step g' (after_wait c g') \<and> main_pc (after_wait c g') \<in> {MIdle, MFreed})"
proof -
  from app_run_reach [OF assms(3,1)] have run: "reach False g'" "n \<le> work g"
    "waits_for (main_pc g') = waits_for (MWait c w)"
    using assms(2) by simp_all
  obtain w' where w': "main_pc g' = MWait c w'"
    using run(3) by (cases "main_pc g'") (auto simp: fun_eq_iff)
  have "main_pc g' = MWait c True \<and> cond_holds c (app g') \<and> main_step g' (after_wait c g')"
    if "\<nexists>h. app_step False g' h"
  proof -
    have cond: "cond_holds c (app g')"
      by (rule stuck_cond [OF that reach_inv [OF run(1)] w'])
    with reach_inv [OF run(1)] w' have "w' = True"
      by (cases w') (auto simp: glue_inv_def inv_wake_def)
    with main_wake [OF w'] w' cond show ?thesis
      by (simp add: wait_loop_def)
  qed
  moreover have "main_pc (after_wait c g') \<in> {MIdle, MFreed}"
    by (cases c) (simp_all split: option.split)
  ultimately show ?thesis
    using run(2) by blast
qed

theorem callback_returns_witness:
  "cond_holds Running (app started) \<and> main_pc started = MWait Running True"
proof -
  have "app_step False h h' \<Longrightarrow> h = started \<Longrightarrow> False" for h h'
    by (erule app_step.cases)
      (simp_all add: started_def entry_section_def initial_def read_byte_def zero_app_def)
  then have "\<nexists>h. app_step False started h"
    by blast
  moreover have "main_pc (initial 0 None) = MWait Running False"
    by (simp add: initial_def)
  ultimately show ?thesis
    using callback_returns [OF reach_create [OF create_initial], of 0 None Running False 1 started]
      started_step by (simp add: eq_OO)
qed

text \<open>Runs that reach a given state.\<close>

definition idle :: glue where
  "idle = started\<lparr>main_pc := MIdle\<rparr>"

lemma reach_idle: "reach early idle"
proof -
  have "main_step started idle"
    using main_wake [of started Running True]
    by (simp add: idle_def started_def entry_section_def initial_def broadcast_def wait_loop_def)
  then show ?thesis
    by (rule reach_step [OF reach_started step_main])
qed

lemma reach_call: "reach early g \<Longrightarrow> main_pc g = MIdle \<Longrightarrow> reach early (callbacks cb g)"
  by (auto intro: reach_step step_main main_call)

lemma reach_wake: "reach early g \<Longrightarrow> main_pc g = MWait c w \<Longrightarrow> reach early (wait_loop c g)"
  by (auto intro: reach_step step_main main_wake)

lemma reach_process:
  "reach early g \<Longrightarrow> app_pc g = ALoop \<Longrightarrow> msgpipe g = cmd # cmds \<Longrightarrow> process_cmd None g = Inr g' \<Longrightarrow>
    app_pc g' = ALoop \<Longrightarrow> reach early g'"
  using app_run_reach [OF process_cmd_run] by (metis at_pc_def glue.surjective glue.update_convs(8))

lemmas idle_eval = idle_def started_def entry_section_def initial_def zero_app_def android_app_set_window_def
  android_app_write_cmd_def wait_loop_def broadcast_def Let_def process_cmd_def android_app_read_cmd_def
  read_byte_def read_cmd_switch_def onNativeWindowCreated_def onStart_def android_app_set_activity_state_def

definition window_ready :: glue where
  "window_ready = idle\<lparr>app := (app idle)\<lparr>window := Some 1, pendingWindow := Some 1\<rparr>\<rparr>"

lemma reach_window_ready: "reach early window_ready"
proof -
  define asked1 where "asked1 = callbacks (OnNativeWindowCreated 1) idle"
  have reach1: "reach early asked1"
    unfolding asked1_def by (rule reach_call [OF reach_idle]) (simp add: idle_def)
  have "process_cmd None asked1 = Inr (window_ready\<lparr>main_pc := MWait WindowSet True\<rparr>)"
    by (simp add: asked1_def window_ready_def idle_eval)
  then have "reach early (window_ready\<lparr>main_pc := MWait WindowSet True\<rparr>)"
    by (rule reach_process [OF reach1, rotated 2]) (simp_all add: asked1_def window_ready_def idle_eval)
  from reach_wake [OF this, of WindowSet True] show ?thesis
    by (simp add: window_ready_def idle_eval)
qed

text \<open>
  C38.  A defect: \<open>android_app_set_window\<close> waits until the window is the pending one, which
  already holds when the framework announces the same window again.  Whenever the threads are
  at rest with a window, the second announcement of that window returns at once, with both of
  its commands unprocessed; and after the application thread has processed the first of them,
  the application is without a window while the main thread, idle, has the window as pending.
\<close>

theorem same_window_returns_early:
  assumes "reach early g" and "main_pc g = MIdle" and "app_pc g = ALoop" and "msgpipe g = []"
    and "pendingWindow (app g) = Some w"
  shows "window (app g) = Some w
    \<and> main_pc (onNativeWindowCreated w g) = MIdle
    \<and> msgpipe (onNativeWindowCreated w g) = [APP_CMD_TERM_WINDOW, APP_CMD_INIT_WINDOW]
    \<and> (\<exists>g'. (app_step early ^^ 5) (onNativeWindowCreated w g) g' \<and> reach early g' \<and> main_pc g' = MIdle
         \<and> pendingWindow (app g') = Some w \<and> window (app g') = None)"
proof -
  have window: "window (app g) = Some w"
    using reach_inv [OF assms(1)] assms(3-5) by (simp add: glue_inv_def sync_defs)
  define again where "again = onNativeWindowCreated w g"
  have again: "again = g\<lparr>msgpipe := [APP_CMD_TERM_WINDOW, APP_CMD_INIT_WINDOW]\<rparr>"
    using assms(2,4,5) window
    by (cases g; cases "app g") (simp add: again_def onNativeWindowCreated_def android_app_set_window_def
        android_app_write_cmd_def wait_loop_def Let_def)
  define closed where "closed = g\<lparr>msgpipe := [APP_CMD_INIT_WINDOW], app := (app g)\<lparr>window := None\<rparr>\<rparr>"
  have "process_cmd None again = Inr closed"
    using assms(2) by (simp add: again closed_def process_cmd_def android_app_read_cmd_def read_byte_def
        read_cmd_switch_def broadcast_def)
  from process_cmd_run [OF _ _ this, of APP_CMD_TERM_WINDOW "[APP_CMD_INIT_WINDOW]" early]
  have run: "(app_step early ^^ 5) again closed"
    using assms(3) by (cases g) (simp add: again at_pc_def closed_def)
  have "reach early again"
    using reach_call [OF assms(1,2), of "OnNativeWindowCreated w"] by (simp add: again_def)
  with app_run_reach [OF run] have "reach early closed" by simp
  with run window assms(2,5) show ?thesis
    unfolding again_def [symmetric] by (intro conjI exI [of _ closed]) (simp_all add: again closed_def)
qed

theorem same_window_returns_early_witness:
  "main_pc (onNativeWindowCreated 1 window_ready) = MIdle \<and>
   (\<exists>g'. (app_step False ^^ 5) (onNativeWindowCreated 1 window_ready) g' \<and> reach False g' \<and> main_pc g' = MIdle
      \<and> pendingWindow (app g') = Some 1 \<and> window (app g') = None)"
  using same_window_returns_early [OF reach_window_ready, of 1 False]
  by (simp add: window_ready_def idle_def started_def entry_section_def initial_def)

text \<open>
  C39.  A limit of the design: when the application returns from \<open>android_main\<close> before it was
  asked to, a later callback that waits blocks the main thread for ever; no step of either
  thread ends the wait.
\<close>

theorem early_return_blocks:
  "\<exists>g. reach True g \<and> main_pc g = MWait (ActivityIs APP_CMD_START) False
    \<and> {g'. (glue_step True)\<^sup>*\<^sup>* g g'} \<subseteq> {g'. waits_for (main_pc g') (ActivityIs APP_CMD_START)}"
proof -
  have "app_step True idle (idle\<lparr>app_pc := AExit\<rparr>)"
    by (rule app_exit) (simp_all add: idle_eval)
  moreover have "app_step True (idle\<lparr>app_pc := AExit\<rparr>) (idle\<lparr>app_pc := AExitFreed\<rparr>)"
    using app_destroy [of "idle\<lparr>app_pc := AExit\<rparr>" True]
    by (simp add: idle_eval continue_at_def free_saved_state_def)
  moreover define ended where "ended = (destroy_section (idle\<lparr>app_pc := AExitFreed\<rparr>))\<lparr>app_pc := ADone\<rparr>"
  then have "app_step True (idle\<lparr>app_pc := AExitFreed\<rparr>) ended"
    using app_done [of "idle\<lparr>app_pc := AExitFreed\<rparr>" True] by simp
  ultimately have "reach True ended"
    using reach_idle by (meson reach_step step_app)
  define g where "g = callbacks OnStart ended"
  have g: "main_pc g = MWait (ActivityIs APP_CMD_START) False" "app_pc g = ADone"
    "activityState (app g) \<noteq> APP_CMD_START"
    by (simp_all add: g_def ended_def idle_eval destroy_section_def detachLooper_def)
  have "reach True g"
    unfolding g_def by (rule reach_call [OF \<open>reach True ended\<close>])
      (simp add: ended_def idle_eval destroy_section_def detachLooper_def)
  moreover have "waits_for (main_pc g') (ActivityIs APP_CMD_START)" if "(glue_step True)\<^sup>*\<^sup>* g g'" for g'
  proof -
    from that have "app_pc g' = ADone \<and> activityState (app g') \<noteq> APP_CMD_START
      \<and> waits_for (main_pc g') (ActivityIs APP_CMD_START)"
    proof (induction rule: rtranclp_induct)
      case base
      with g show ?case
        by simp
    next
      case (step h h')
      from step.hyps(2) step.IH show ?case
        by (auto elim!: glue_stepE app_stepE main_stepE simp: wait_loop_def)
    qed
    then show ?thesis
      by simp
  qed
  ultimately show ?thesis
    using g(1) by blast
qed

end
