(* ===== verification/NdkStack.thy ===== *)
theory NdkStack
  imports NdkPrelude
begin

text \<open>
  \<open>ndk-stack\<close> (\<open>sources/host-tools/ndk-stack\<close>): the parser of crash dumps
  (\<open>ndk-stack-parser.c\<close>), a state machine over the lines of a log, and the program around it
  (\<open>ndk-stack.c\<close>).

  A pointer into a line is an index.  A buffer that was not written is \<open>None\<close>; reading it is a
  fault.  The matcher of regular expressions, the file system and \<open>addr2line\<close> are arguments.
\<close>

section \<open>The parser\<close>

datatype NDK_CRASH_PARSER_STATE =
    EXPECTS_CRASH_DUMP | EXPECTS_BUILD_FINGREPRINT_OR_PID | EXPECTS_PID
  | EXPECTS_SIGNAL_OR_FRAME | EXPECTS_FRAME

text \<open>
  The parser, whose output handle is the standard output, with the text written there and the
  number of files that are open.
\<close>

record NdkCrashParser =
  out_handle :: string
  sym_root :: string
  state :: NDK_CRASH_PARSER_STATE
  open_files :: nat

text \<open>
  What the program calls: \<open>regcomp\<close> tells whether a pattern compiles, \<open>regexec\<close> gives the offset of a match of a pattern, \<open>fopen\<close> gives the
  content of a file or the number and the text of an error (it may depend on the number of
  open files), \<open>addr2line_main\<close> the status and the text it prints for its arguments.
\<close>

record stack_host =
  regcomp :: "string \<Rightarrow> bool"
  regexec :: "string \<Rightarrow> string \<Rightarrow> nat option"
  fopen_read :: "nat \<Rightarrow> string \<Rightarrow> (int \<times> string) + string"
  addr2line_main :: "string list \<Rightarrow> int \<times> string"

definition ENOENT :: int where
  "ENOENT = 2"

definition crash_dump_header :: string where
  "crash_dump_header = ''*** *** *** *** *** *** *** *** *** *** *** *** *** *** *** ***''"

definition build_fingerprint_header :: string where
  "build_fingerprint_header = ''Build fingerprint:''"

definition pid_header :: string where
  "pid_header = ''pid: [0-9]+, tid: [0-9]+.*''"

definition sig_header :: string where
  "sig_header = ''signal*[ '' @ [tab] @ ''][0-9]+''"

definition frame_header :: string where
  "frame_header =
     [CHR 0x5C] @ ''#[0-9]+[ |'' @ [tab] @ '']+[pc|eip]+:*[ |'' @ [tab] @ '']+([0-9a-f]{8})*''"

definition fprintf :: "string \<Rightarrow> NdkCrashParser \<Rightarrow> NdkCrashParser" where
  "fprintf text parser = parser\<lparr>out_handle := out_handle parser @ text\<rparr>"

subsection \<open>Tokens\<close>

definition separators :: string where
  "separators = [CHR '' '', tab]"

definition next_separator :: "string \<Rightarrow> nat" where
  "next_separator str = strcspn str separators"

definition next_token :: "string \<Rightarrow> nat" where
  "next_token str = (let i = next_separator str in i + strspn (drop i str) separators)"

text \<open>The index of the token and its copy; \<open>None\<close>, and no copy, when there is no token.\<close>

definition get_next_token :: "string \<Rightarrow> nat \<Rightarrow> (nat \<times> string) option" where
  "get_next_token str buf_size =
     (let start = next_token str;
          n = next_separator (drop start str)
      in if n \<noteq> 0 then Some (start, take (min n (buf_size - 1)) (drop start str)) else None)"

text \<open>The character at an index of a C string, the NUL at its end included.\<close>

definition char_at :: "string \<Rightarrow> nat \<Rightarrow> char" where
  "char_at str i = (if i < length str then str ! i else CHR 0x00)"

definition pcstrs :: "string list" where
  "pcstrs = [''pc'', ''eip'', ''ip'']"

fun find_pc_from :: "string list \<Rightarrow> string \<Rightarrow> nat option" where
  "find_pc_from [] frame = None"
| "find_pc_from (word # words) frame =
     (case memmem frame word of
        Some p \<Rightarrow>
          if p \<noteq> 0 \<and> frame ! (p - 1) \<in> set separators \<and> char_at frame (p + length word) \<in> set separators
          then Some p
          else find_pc_from words frame
      | None \<Rightarrow> find_pc_from words frame)"

definition find_pc :: "string \<Rightarrow> nat option" where
  "find_pc frame = find_pc_from pcstrs frame"

subsection \<open>Lines\<close>

definition module_basename :: "string \<Rightarrow> string" where
  "module_basename module_path =
     (case strrchr (CHR ''/'') module_path of
        None \<Rightarrow> module_path
      | Some i \<Rightarrow> let module_name = drop (i + 1) module_path
                  in if module_name = [] then module_path else module_name)"

definition sym_file_path :: "string \<Rightarrow> string \<Rightarrow> string" where
  "sym_file_path root module_name = take 2047 (root @ ''/'' @ module_name)"

text \<open>What follows the two tokens: the symbol file is looked up and \<open>addr2line\<close> is called.\<close>

definition lookup_symbol :: "stack_host \<Rightarrow> string \<Rightarrow> string \<Rightarrow> NdkCrashParser \<Rightarrow> int \<times> NdkCrashParser" where
  "lookup_symbol h pc_address module_path parser =
     (let sym_file = sym_file_path (sym_root parser) (module_basename module_path)
      in case fopen_read h (open_files parser) sym_file of
           Inl (err, text) \<Rightarrow>
             (-1, fprintf (if err = ENOENT then [newline]
                           else '': Unable to open symbol file '' @ sym_file @ ''. Error ('' @ int_digits err
                                  @ ''): '' @ text @ [newline]) parser)
         | Inr _ \<Rightarrow>
             (let (status, text) = addr2line_main h [''ndk-stack'', ''-fpC'', ''-e'', sym_file, pc_address]
              in (status, fprintf ('': Routine '' @ text) (parser\<lparr>open_files := open_files parser + 1\<rparr>))))"

definition ParseFrame :: "stack_host \<Rightarrow> string \<Rightarrow> NdkCrashParser \<Rightarrow> (int \<times> NdkCrashParser) c_result" where
  "ParseFrame h frame parser0 =
     (let parser = fprintf (''Stack frame '' @ frame) parser0
      in case find_pc frame of
           None \<Rightarrow> Inr (-1, fprintf (''Parser is unable to locate instruction pointer token.'' @ [newline]) parser)
         | Some p \<Rightarrow>
             (case get_next_token (drop p frame) 17 of
                None \<Rightarrow> Inl Uninitialised
              | Some (wrk, pc_address) \<Rightarrow>
                  (case get_next_token (drop (p + wrk) frame) 2048 of
                     None \<Rightarrow> Inl Uninitialised
                   | Some (_, module_path) \<Rightarrow> Inr (lookup_symbol h pc_address module_path parser))))"

definition MatchRegex :: "stack_host \<Rightarrow> string \<Rightarrow> string \<Rightarrow> nat option" where
  "MatchRegex h line regex = regexec h regex line"

text \<open>The last two cases of the switch, and the two cases before them.\<close>

definition expects_frame :: "stack_host \<Rightarrow> string \<Rightarrow> bool \<Rightarrow> NdkCrashParser \<Rightarrow> (int \<times> NdkCrashParser) c_result" where
  "expects_frame h line found parser =
     (case MatchRegex h line frame_header of
        None \<Rightarrow> Inr (if found then 0 else 1, parser)
      | Some so \<Rightarrow>
          if find_pc line = None then Inr (if found then 0 else 1, parser)
          else ParseFrame h (drop so line) (parser\<lparr>state := EXPECTS_FRAME\<rparr>))"

definition expects_signal_or_frame :: "stack_host \<Rightarrow> string \<Rightarrow> NdkCrashParser \<Rightarrow> (int \<times> NdkCrashParser) c_result" where
  "expects_signal_or_frame h line parser =
     (case MatchRegex h line sig_header of
        Some so \<Rightarrow>
          expects_frame h line True ((fprintf (drop so line @ [newline]) parser)\<lparr>state := EXPECTS_FRAME\<rparr>)
      | None \<Rightarrow> expects_frame h line False parser)"

definition expects_pid :: "stack_host \<Rightarrow> string \<Rightarrow> bool \<Rightarrow> NdkCrashParser \<Rightarrow> (int \<times> NdkCrashParser) c_result" where
  "expects_pid h line found parser =
     (case MatchRegex h line pid_header of
        Some so \<Rightarrow> Inr (0, (fprintf (drop so line @ [newline]) parser)\<lparr>state := EXPECTS_SIGNAL_OR_FRAME\<rparr>)
      | None \<Rightarrow> Inr (if found then 0 else 1, parser))"

definition expects_fingerprint_or_pid :: "stack_host \<Rightarrow> string \<Rightarrow> NdkCrashParser \<Rightarrow> (int \<times> NdkCrashParser) c_result" where
  "expects_fingerprint_or_pid h line parser =
     (case memmem line build_fingerprint_header of
        Some i \<Rightarrow> expects_pid h line True ((fprintf (drop i line @ [newline]) parser)\<lparr>state := EXPECTS_PID\<rparr>)
      | None \<Rightarrow> expects_pid h line False parser)"

definition ParseLine :: "stack_host \<Rightarrow> string \<Rightarrow> NdkCrashParser \<Rightarrow> (int \<times> NdkCrashParser) c_result" where
  "ParseLine h line parser =
     (if line = [] then Inr (1, parser)
      else if memmem line crash_dump_header \<noteq> None then
        (let parser1 = (if state parser \<noteq> EXPECTS_CRASH_DUMP
                        then fprintf (''Crash dump is completed'' @ [newline, newline]) parser else parser);
             parser2 = fprintf (''********** Crash dump: **********'' @ [newline]) parser1
         in Inr (0, parser2\<lparr>state := EXPECTS_BUILD_FINGREPRINT_OR_PID\<rparr>))
      else
        (case state parser of
           EXPECTS_BUILD_FINGREPRINT_OR_PID \<Rightarrow> expects_fingerprint_or_pid h line parser
         | EXPECTS_PID \<Rightarrow> expects_pid h line False parser
         | EXPECTS_SIGNAL_OR_FRAME \<Rightarrow> expects_signal_or_frame h line parser
         | EXPECTS_FRAME \<Rightarrow> expects_frame h line False parser
         | EXPECTS_CRASH_DUMP \<Rightarrow> Inr (1, parser)))"

section \<open>The program\<close>

definition usage_str :: string where
  "usage_str =
     ''Usage: ndk-stack -sym PATH [-dump PATH]'' @ [newline]
     @ ''Symbolizes the stack trace from an Android native crash.'' @ [newline] @ [newline]
     @ ''  -sym PATH   sets the root directory for symbols'' @ [newline]
     @ ''  -dump PATH  sets the file containing the crash dump (default stdin)'' @ [newline] @ [newline]
     @ ''See <https://developer.android.com/ndk/guides/ndk-stack.html>.'' @ [newline]"

text \<open>The options: \<open>None\<close> when the usage is shown, otherwise the symbol path and the dump file.\<close>

fun stack_options :: "string list \<Rightarrow> string option \<Rightarrow> string option \<Rightarrow> (string option \<times> string option) option" where
  "stack_options [] root dump = Some (root, dump)"
| "stack_options [arg] root dump = (if arg = ''-dump'' \<or> arg = ''-sym'' then Some (root, dump) else None)"
| "stack_options (arg # val # args) root dump =
     (if arg = ''-dump'' then stack_options args root (Some val)
      else if arg = ''-sym'' then stack_options args (Some val) dump
      else None)"

text \<open>The lines that \<open>fgets\<close> reads into a buffer of 2048 bytes, cut at a line end.\<close>

function stack_lines :: "char list \<Rightarrow> char list list" where
  "stack_lines [] = []"
| "stack_lines (c # cs) =
     (let n = fgets_length 2047 (c # cs) in take n (c # cs) # stack_lines (drop n (c # cs)))"
  by pat_completeness auto
termination
  by (relation "measure length") (auto simp: Let_def)

definition cut_line :: "char list \<Rightarrow> string" where
  "cut_line line = take (strcspn (c_string line) [carriage_return, newline]) (c_string line)"

fun ParseLines :: "stack_host \<Rightarrow> string list \<Rightarrow> NdkCrashParser \<Rightarrow> NdkCrashParser c_result" where
  "ParseLines h [] parser = Inr parser"
| "ParseLines h (line # lines) parser =
     (case ParseLine h line parser of
        Inl f \<Rightarrow> Inl f
      | Inr (_, parser') \<Rightarrow> ParseLines h lines parser')"

text \<open>No parser when there is no memory for it or a pattern does not compile.\<close>

definition CreateNdkCrashParser :: "stack_host \<Rightarrow> bool \<Rightarrow> string \<Rightarrow> NdkCrashParser option" where
  "CreateNdkCrashParser h alloc_ok root =
     (if alloc_ok \<and> regcomp h pid_header \<and> regcomp h sig_header \<and> regcomp h frame_header
      then Some \<lparr>out_handle = [], sym_root = root, state = EXPECTS_CRASH_DUMP, open_files = 0\<rparr>
      else None)"

text \<open>
  The program: the standard input, the opening of the dump file and the outcome of the
  allocation, with the text of its error, are arguments.  The result is the status with the standard output and error, or a fault.
\<close>

definition ndk_stack :: "stack_host \<Rightarrow> bool \<Rightarrow> string \<Rightarrow> char list \<Rightarrow> (string \<Rightarrow> string + char list)
    \<Rightarrow> string list \<Rightarrow> (int \<times> string \<times> string) c_result" where
  "ndk_stack h alloc_ok strerror stdin fopen_dump args =
     (case stack_options args None None of
        None \<Rightarrow> Inr (-1, usage_str, [])
      | Some (None, _) \<Rightarrow> Inr (-1, usage_str, [])
      | Some (Some sym_path, dump_file) \<Rightarrow>
          (case CreateNdkCrashParser h alloc_ok sym_path of
             None \<Rightarrow> Inr (0, [], ''Unable to create NDK stack parser: '' @ strerror @ [newline])
           | Some parser0 \<Rightarrow>
               (case (case dump_file of None \<Rightarrow> Inr stdin | Some path \<Rightarrow> fopen_dump path) of
                  Inl text \<Rightarrow>
                    Inr (0, [], ''Unable to open dump file '' @ the dump_file @ '': '' @ text @ [newline])
                | Inr input \<Rightarrow>
                    (case ParseLines h (map cut_line (stack_lines input)) parser0 of
                       Inl f \<Rightarrow> Inl f
                     | Inr parser \<Rightarrow> Inr (0, out_handle parser, [])))))"

section \<open>Tokens and words\<close>

abbreviation sep :: "char \<Rightarrow> bool" where
  "sep c \<equiv> c \<in> set separators"

text \<open>The words of a line: what stands between the separators.\<close>

function words :: "string \<Rightarrow> string list" where
  "words s =
     (let t = dropWhile sep s
      in if t = [] then [] else takeWhile (\<lambda>c. \<not> sep c) t # words (dropWhile (\<lambda>c. \<not> sep c) t))"
  by pat_completeness auto
termination
proof (relation "measure length")
  fix s t :: string
  assume t: "t = dropWhile sep s" "t \<noteq> []"
  then have "\<not> sep (hd t)"
    using hd_dropWhile by blast
  with t(2) have "length (dropWhile (\<lambda>c. \<not> sep c) t) < length t"
    by (cases t) (auto simp: le_imp_less_Suc length_dropWhile_le)
  also have "length t \<le> length s"
    by (simp add: t(1) length_dropWhile_le)
  finally show "(dropWhile (\<lambda>c. \<not> sep c) t, s) \<in> measure length"
    by simp
qed simp

declare words.simps [simp del]

lemma words_Nil: "words [] = []"
  by (subst words.simps) simp

lemma words_drop: "words s = words (dropWhile sep s)"
  by (subst (1 2) words.simps) simp

lemma words_token:
  "s \<noteq> [] \<Longrightarrow> \<not> sep (hd s) \<Longrightarrow> words s = takeWhile (\<lambda>c. \<not> sep c) s # words (dropWhile (\<lambda>c. \<not> sep c) s)"
  by (subst words.simps) (cases s; simp)

lemma strcspn_drop: "drop (strcspn s set') s = dropWhile (\<lambda>c. c \<notin> set set') s"
  by (simp add: strcspn_def dropWhile_eq_drop)

lemma strspn_drop: "drop (strspn s set') s = dropWhile (\<lambda>c. c \<in> set set') s"
  by (simp add: strspn_def dropWhile_eq_drop)

lemma next_token_drop: "drop (next_token s) s = dropWhile sep (dropWhile (\<lambda>c. \<not> sep c) s)"
proof -
  have "drop (next_token s) s = drop (strspn (drop (next_separator s) s) separators) (drop (next_separator s) s)"
    by (simp add: next_token_def Let_def add.commute)
  then show ?thesis
    by (simp add: next_separator_def strspn_drop strcspn_drop)
qed

text \<open>The token after the first word of a string that starts with one is its second word.\<close>

lemma get_next_token_words:
  assumes "s \<noteq> []" and "\<not> sep (hd s)"
  shows "get_next_token s n =
    (case words s of
       w # v # ws \<Rightarrow> Some (next_token s, take (n - 1) v)
     | _ \<Rightarrow> None)"
    and "\<And>start v. get_next_token s n = Some (start, v) \<Longrightarrow>
      drop start s \<noteq> [] \<and> \<not> sep (hd (drop start s)) \<and> words (drop start s) = tl (words s)"
proof -
  define t where "t = drop (next_token s) s"
  have t: "t = dropWhile sep (dropWhile (\<lambda>c. \<not> sep c) s)"
    by (simp add: t_def next_token_drop)
  have words: "words s = takeWhile (\<lambda>c. \<not> sep c) s # words t"
    by (simp add: t words_token [OF assms] flip: words_drop)
  have hd: "t = [] \<or> \<not> sep (hd t)"
    using hd_dropWhile [of sep "dropWhile (\<lambda>c. \<not> sep c) s"] by (auto simp: t)
  have n: "next_separator t = length (takeWhile (\<lambda>c. \<not> sep c) t)"
    by (simp add: next_separator_def strcspn_def)
  show "get_next_token s n = (case words s of w # v # ws \<Rightarrow> Some (next_token s, take (n - 1) v) | _ \<Rightarrow> None)"
  proof (cases "t = []")
    case True
    then show ?thesis
      using n by (simp add: get_next_token_def words words_Nil Let_def flip: t_def)
  next
    case False
    with hd have wt: "words t = takeWhile (\<lambda>c. \<not> sep c) t # words (dropWhile (\<lambda>c. \<not> sep c) t)"
      by (simp add: words_token)
    have "takeWhile (\<lambda>c. \<not> sep c) t \<noteq> []"
      using False hd by (cases t) auto
    moreover have "take (min (length (takeWhile (\<lambda>c. \<not> sep c) t)) k) t = take k (takeWhile (\<lambda>c. \<not> sep c) t)" for k
      by (metis min.commute take_take takeWhile_eq_take)
    ultimately show ?thesis
      by (simp add: get_next_token_def words wt n Let_def flip: t_def)
  qed
  show "drop start s \<noteq> [] \<and> \<not> sep (hd (drop start s)) \<and> words (drop start s) = tl (words s)"
    if "get_next_token s n = Some (start, v)" for start v
  proof -
    from that have "start = next_token s" "t \<noteq> []"
      by (auto simp: get_next_token_def Let_def n split: if_splits simp flip: t_def)
    with hd show ?thesis
      by (simp add: words flip: t_def)
  qed
qed

lemma find_pc_from_word:
  "find_pc_from ws frame = Some p \<Longrightarrow>
    \<exists>w\<in>set ws. starts_with (drop p frame) w \<and> p \<noteq> 0 \<and> sep (frame ! (p - 1)) \<and> sep (char_at frame (p + length w))"
  by (induction ws) (auto dest: memmem_Some_starts split: option.splits if_splits)

lemma find_pc_start:
  assumes "find_pc frame = Some p"
  shows "drop p frame \<noteq> [] \<and> \<not> sep (hd (drop p frame))"
proof -
  from find_pc_from_word [OF assms [unfolded find_pc_def]]
  obtain w where w: "w \<in> set pcstrs" "starts_with (drop p frame) w"
    by blast
  then obtain zs where zs: "drop p frame = w @ zs"
    by (auto simp: starts_with_iff)
  have "w \<noteq> []" "\<not> sep (hd w)"
    using w(1) by (auto simp: pcstrs_def separators_def tab_def)
  with zs show ?thesis
    by simp
qed

section \<open>Frames\<close>

text \<open>
  What a frame line means: the two words after the word for the instruction pointer are the
  address and the path of the module.
\<close>

definition spec_frame :: "stack_host \<Rightarrow> string \<Rightarrow> NdkCrashParser \<Rightarrow> (int \<times> NdkCrashParser) c_result" where
  "spec_frame h frame parser =
     (case find_pc frame of
        None \<Rightarrow> Inr (-1, fprintf (''Stack frame '' @ frame
                       @ ''Parser is unable to locate instruction pointer token.'' @ [newline]) parser)
      | Some p \<Rightarrow>
          (case words (drop p frame) of
             pc # address # module # rest \<Rightarrow>
               Inr (lookup_symbol h (take 16 address) (take 2047 module) (fprintf (''Stack frame '' @ frame) parser))
           | _ \<Rightarrow> Inl Uninitialised))"

text \<open>
  C14.  The parser of a frame line takes the address and the module path from the two words
  that follow the instruction pointer, cut to the sizes of its buffers, and looks the symbol
  up with them.  When one of the words is missing it goes on with a buffer that was never
  written and with a null pointer.
\<close>

theorem parse_frame_words: "ParseFrame h frame parser = spec_frame h frame parser"
proof (cases "find_pc frame")
  case (Some p)
  define s where "s = drop p frame"
  have s: "s \<noteq> []" "\<not> sep (hd s)"
    using find_pc_start [OF Some] by (simp_all add: s_def)
  show ?thesis
  proof (cases "get_next_token s 17")
    case None
    then show ?thesis
      using get_next_token_words(1) [OF s, of 17] Some
      by (auto simp: ParseFrame_def spec_frame_def Let_def simp flip: s_def split: list.splits)
  next
    case (Some r)
    then obtain start v where r: "get_next_token s 17 = Some (start, v)"
      by (cases r) simp
    from get_next_token_words(2) [OF s r]
    have t: "drop start s \<noteq> []" "\<not> sep (hd (drop start s))" "words (drop start s) = tl (words s)"
      by auto
    obtain w a ws where w: "words s = w # a # ws" "v = take 16 a"
      using r get_next_token_words(1) [OF s, of 17] by (auto split: list.splits)
    have "drop (p + start) frame = drop start s"
      by (simp add: s_def add.commute)
    then show ?thesis
      using \<open>find_pc frame = Some p\<close> r w t get_next_token_words(1) [OF t(1,2), of 2048]
      by (auto simp: ParseFrame_def spec_frame_def fprintf_def Let_def simp flip: s_def split: list.splits)
  qed
qed (simp add: ParseFrame_def spec_frame_def fprintf_def Let_def)

text \<open>
  A frame line that ends after the address, as in a truncated log, makes the parser
  read an uninitialised buffer.
\<close>

theorem truncated_frame_faults:
  "ParseFrame h ''#00 pc 0000f00d'' parser = Inl Uninitialised"
  by code_simp

text \<open>
  The search for the word that marks the instruction pointer looks only at the first
  occurrence of each name: when that one is part of another word, a later proper one is
  not found.
\<close>

theorem find_pc_misses_later_word:
  "find_pc ''libpc.so pc 0000f00d'' = None \<and> ''pc'' \<in> set (words ''libpc.so pc 0000f00d'')"
  by code_simp

section \<open>Dumps\<close>

text \<open>The kinds of lines.\<close>

definition is_header :: "string \<Rightarrow> bool" where
  "is_header line \<longleftrightarrow> memmem line crash_dump_header \<noteq> None"

definition is_fingerprint :: "string \<Rightarrow> bool" where
  "is_fingerprint line \<longleftrightarrow> memmem line build_fingerprint_header \<noteq> None"

definition is_pid :: "stack_host \<Rightarrow> string \<Rightarrow> bool" where
  "is_pid h line \<longleftrightarrow> line \<noteq> [] \<and> regexec h pid_header line \<noteq> None"

definition is_signal :: "stack_host \<Rightarrow> string \<Rightarrow> bool" where
  "is_signal h line \<longleftrightarrow> line \<noteq> [] \<and> regexec h sig_header line \<noteq> None"

definition is_frame :: "stack_host \<Rightarrow> string \<Rightarrow> bool" where
  "is_frame h line \<longleftrightarrow> line \<noteq> [] \<and> regexec h frame_header line \<noteq> None \<and> find_pc line \<noteq> None"

lemma is_header_nonempty: "is_header line \<Longrightarrow> line \<noteq> []"
  by (auto simp: is_header_def crash_dump_header_def)

lemma is_fingerprint_nonempty: "is_fingerprint line \<Longrightarrow> line \<noteq> []"
  by (auto simp: is_fingerprint_def build_fingerprint_header_def)

text \<open>
  The state of the parser in terms of the lines it has seen: the lines after the last header
  make up the dump, which has a process line, and after it signal and frame lines.
\<close>

definition dump_state :: "stack_host \<Rightarrow> string list \<Rightarrow> NDK_CRASH_PARSER_STATE" where
  "dump_state h dump =
     (case dropWhile (\<lambda>l. \<not> is_pid h l) dump of
        [] \<Rightarrow> if list_ex is_fingerprint dump then EXPECTS_PID else EXPECTS_BUILD_FINGREPRINT_OR_PID
      | _ # rest \<Rightarrow>
          if list_ex (\<lambda>l. is_signal h l \<or> is_frame h l) rest then EXPECTS_FRAME else EXPECTS_SIGNAL_OR_FRAME)"

definition spec_state :: "stack_host \<Rightarrow> string list \<Rightarrow> NDK_CRASH_PARSER_STATE" where
  "spec_state h lines =
     (if list_ex is_header lines then dump_state h (rev (takeWhile (\<lambda>l. \<not> is_header l) (rev lines)))
      else EXPECTS_CRASH_DUMP)"

lemma fprintf_same [simp]:
  "state (fprintf text p) = state p" "sym_root (fprintf text p) = sym_root p"
  "open_files (fprintf text p) = open_files p"
  by (simp_all add: fprintf_def)

lemma lookup_symbol_state [simp]:
  "state (snd (lookup_symbol h a m p)) = state p" "sym_root (snd (lookup_symbol h a m p)) = sym_root p"
  by (simp_all add: lookup_symbol_def Let_def split: sum.split prod.split)

lemma lookup_symbol_result:
  "lookup_symbol h a m p = (r, p') \<Longrightarrow> state p' = state p \<and> sym_root p' = sym_root p"
  using lookup_symbol_state [of h a m p] by simp

lemma ParseFrame_state: "ParseFrame h frame p = Inr (r, p') \<Longrightarrow> state p' = state p"
  by (auto simp: ParseFrame_def Let_def split: option.splits dest!: lookup_symbol_result)

text \<open>How a line changes the state.\<close>

definition next_state :: "stack_host \<Rightarrow> string \<Rightarrow> NDK_CRASH_PARSER_STATE \<Rightarrow> NDK_CRASH_PARSER_STATE" where
  "next_state h line st =
     (if is_header line then EXPECTS_BUILD_FINGREPRINT_OR_PID
      else case st of
        EXPECTS_CRASH_DUMP \<Rightarrow> EXPECTS_CRASH_DUMP
      | EXPECTS_BUILD_FINGREPRINT_OR_PID \<Rightarrow>
          if is_pid h line then EXPECTS_SIGNAL_OR_FRAME else if is_fingerprint line then EXPECTS_PID else st
      | EXPECTS_PID \<Rightarrow> if is_pid h line then EXPECTS_SIGNAL_OR_FRAME else st
      | EXPECTS_SIGNAL_OR_FRAME \<Rightarrow> if is_signal h line \<or> is_frame h line then EXPECTS_FRAME else st
      | EXPECTS_FRAME \<Rightarrow> EXPECTS_FRAME)"

lemma expects_frame_state:
  "line \<noteq> [] \<Longrightarrow> expects_frame h line found p = Inr (r, p') \<Longrightarrow>
    state p' = (if is_frame h line then EXPECTS_FRAME else state p)"
  by (auto simp: expects_frame_def MatchRegex_def is_frame_def split: option.splits if_splits dest: ParseFrame_state)

lemma next_state_Nil: "next_state h [] st = st"
proof -
  have "\<not> is_header []" "\<not> is_fingerprint []"
    using is_header_nonempty is_fingerprint_nonempty by blast+
  then show ?thesis
    by (cases st) (simp_all add: next_state_def is_pid_def is_signal_def is_frame_def)
qed

lemma expects_pid_state:
  "line \<noteq> [] \<Longrightarrow> expects_pid h line found p = Inr (r, p') \<Longrightarrow>
    state p' = (if is_pid h line then EXPECTS_SIGNAL_OR_FRAME else state p)"
  by (auto simp: expects_pid_def MatchRegex_def is_pid_def split: option.splits)

lemma expects_fingerprint_state:
  assumes "line \<noteq> []" and "expects_fingerprint_or_pid h line p = Inr (r, p')"
  shows "state p' = (if is_pid h line then EXPECTS_SIGNAL_OR_FRAME else if is_fingerprint line then EXPECTS_PID
    else state p)"
proof (cases "memmem line build_fingerprint_header")
  case None
  then show ?thesis
    using assms(2) expects_pid_state [OF assms(1)] by (simp add: expects_fingerprint_or_pid_def is_fingerprint_def)
next
  case (Some i)
  then show ?thesis
    using assms(2) expects_pid_state [OF assms(1)] by (simp add: expects_fingerprint_or_pid_def is_fingerprint_def)
qed

lemma expects_signal_state:
  assumes "line \<noteq> []" and "expects_signal_or_frame h line p = Inr (r, p')"
  shows "state p' = (if is_signal h line \<or> is_frame h line then EXPECTS_FRAME else state p)"
proof (cases "regexec h sig_header line")
  case None
  then show ?thesis
    using assms(2) expects_frame_state [OF assms(1)]
    by (simp add: expects_signal_or_frame_def MatchRegex_def is_signal_def)
next
  case (Some i)
  then show ?thesis
    using assms expects_frame_state [OF assms(1)]
    by (simp add: expects_signal_or_frame_def MatchRegex_def is_signal_def split: if_splits)
qed

lemma ParseLine_state:
  assumes "ParseLine h line p = Inr (r, p')"
  shows "state p' = next_state h line (state p)"
proof -
  consider "line = []" | "line \<noteq> []" "is_header line" | "line \<noteq> []" "\<not> is_header line"
    by blast
  then show ?thesis
  proof cases
    case 1
    with assms show ?thesis
      by (simp add: ParseLine_def next_state_Nil)
  next
    case 2
    with assms show ?thesis
      by (auto simp: ParseLine_def is_header_def next_state_def Let_def)
  next
    case 3
    with assms expects_pid_state [OF 3(1)] expects_fingerprint_state [OF 3(1)] expects_signal_state [OF 3(1)]
      expects_frame_state [OF 3(1)]
    show ?thesis
      by (cases "state p") (simp_all add: ParseLine_def is_header_def next_state_def split: if_splits)
  qed
qed

lemma ParseLines_state:
  "ParseLines h lines p = Inr p' \<Longrightarrow> state p' = foldl (\<lambda>st line. next_state h line st) (state p) lines"
  by (induction lines arbitrary: p) (auto simp: ParseLine_state split: sum.splits)

lemma dropWhile_snoc:
  "dropWhile P (xs @ [x]) = (if dropWhile P xs = [] then dropWhile P [x] else dropWhile P xs @ [x])"
  by (auto simp: dropWhile_append)

lemma dump_state_snoc:
  assumes "\<not> is_header line"
  shows "dump_state h (dump @ [line]) = next_state h line (dump_state h dump)"
proof (cases "dropWhile (\<lambda>l. \<not> is_pid h l) dump")
  case Nil
  with assms show ?thesis
    by (simp add: dump_state_def next_state_def dropWhile_snoc del: dropWhile_eq_Nil_conv)
next
  case (Cons l rest)
  with assms show ?thesis
    by (simp add: dump_state_def next_state_def dropWhile_snoc)
qed

lemma spec_state_snoc: "spec_state h (lines @ [line]) = next_state h line (spec_state h lines)"
proof (cases "is_header line")
  case True
  then show ?thesis
    by (simp add: spec_state_def next_state_def dump_state_def)
next
  case False
  then show ?thesis
    by (cases "list_ex is_header lines") (simp_all add: spec_state_def dump_state_snoc, simp add: next_state_def)
qed

lemma spec_state_fold: "foldl (\<lambda>st line. next_state h line st) EXPECTS_CRASH_DUMP lines = spec_state h lines"
  by (induction lines rule: rev_induct) (simp_all add: spec_state_snoc, simp add: spec_state_def)

text \<open>
  C13.  The state of the parser, after any lines, is what the lines since the last header
  mean: a process line is expected until there was one, a signal or frame line after it.  In
  particular a frame is only looked up when the header and the process line of its dump have
  been seen.
\<close>

theorem parser_state_is_dump_state:
  assumes "CreateNdkCrashParser h True root = Some parser0" and "ParseLines h lines parser0 = Inr parser"
  shows "state parser = spec_state h lines"
  using ParseLines_state [OF assms(2)] assms(1)
  by (auto simp: CreateNdkCrashParser_def spec_state_fold split: if_splits)

definition example_stack_host :: stack_host where
  "example_stack_host =
     \<lparr>regcomp = (\<lambda>_. True),
      regexec = (\<lambda>re line. if re = pid_header then memmem line ''pid: ''
                            else if re = sig_header then memmem line ''signal '' else memmem line ''#0''),
      fopen_read = (\<lambda>n path. if path = ''sym/libx.so'' then Inr [] else Inl (2, ''No such file'')),
      addr2line_main = (\<lambda>args. (0, ''f at x.c:1''))\<rparr>"

definition example_dump :: "string list" where
  "example_dump =
     [''I/DEBUG: '' @ crash_dump_header, ''Build fingerprint: x'', ''pid: 1, tid: 1'', ''#00 pc 0000f00d /lib/libx.so'']"

definition example_parser :: "NdkCrashParser" where
  "example_parser = the (CreateNdkCrashParser example_stack_host True ''sym'')"

lemma example_parse:
  "map_sum id (\<lambda>p. (state p, out_handle p)) (ParseLines example_stack_host example_dump example_parser) =
     Inr (EXPECTS_FRAME, ''********** Crash dump: **********'' @ [newline] @ ''Build fingerprint: x'' @ [newline]
       @ ''pid: 1, tid: 1'' @ [newline] @ ''Stack frame #00 pc 0000f00d /lib/libx.so: Routine f at x.c:1'')"
  by code_simp

theorem parser_state_is_dump_state_witness:
  "spec_state example_stack_host example_dump = EXPECTS_FRAME"
proof -
  obtain p where p: "ParseLines example_stack_host example_dump example_parser = Inr p" "state p = EXPECTS_FRAME"
    using example_parse by (cases "ParseLines example_stack_host example_dump example_parser") auto
  have "CreateNdkCrashParser example_stack_host True ''sym'' = Some example_parser"
    by (simp add: example_parser_def CreateNdkCrashParser_def example_stack_host_def)
  from parser_state_is_dump_state [OF this p(1)] p(2) show ?thesis
    by simp
qed

end
