(* ===== verification/RegStrip.thy ===== *)
theory RegStrip
  imports NdkPrelude
begin

text \<open>
  The compiled form of a regular expression (\<open>regex2.h\<close> of
  \<open>sources/host-tools/ndk-stack/regex\<close>): the strip of operators, the character sets and the
  structure that holds them, with the flags of \<open>regex.h\<close>.
\<close>

text \<open>
  An operator with its operand.  The source packs both into a word; operands below
  \<open>2 ^ 27\<close> are kept apart here.  \<open>OPLUS\<close> is the prefix \<open>OPLUS_\<close> of the source, and so on.
\<close>

datatype sop =
    OEND | OCHAR char | OBOL | OEOL | OANY | OANYOF nat | OBACK nat | O_BACK nat
  | OPLUS nat | O_PLUS nat | OQUEST nat | O_QUEST nat | OLPAREN nat | ORPAREN nat
  | OCH nat | OOR1 nat | OOR2 nat | O_CH nat | OBOW | OEOW

text \<open>The operand, as a number.\<close>

fun OPND :: "sop \<Rightarrow> nat" where
  "OPND (OCHAR c) = of_char c"
| "OPND (OANYOF n) = n"
| "OPND (OBACK n) = n"
| "OPND (O_BACK n) = n"
| "OPND (OPLUS n) = n"
| "OPND (O_PLUS n) = n"
| "OPND (OQUEST n) = n"
| "OPND (O_QUEST n) = n"
| "OPND (OLPAREN n) = n"
| "OPND (ORPAREN n) = n"
| "OPND (OCH n) = n"
| "OPND (OOR1 n) = n"
| "OPND (OOR2 n) = n"
| "OPND (O_CH n) = n"
| "OPND _ = 0"

text \<open>Completing a forward reference keeps the operator and sets the operand.\<close>

fun with_operand :: "sop \<Rightarrow> nat \<Rightarrow> sop" where
  "with_operand (OCHAR c) v = OCHAR (char_of v)"
| "with_operand (OANYOF n) v = OANYOF v"
| "with_operand (OBACK n) v = OBACK v"
| "with_operand (O_BACK n) v = O_BACK v"
| "with_operand (OPLUS n) v = OPLUS v"
| "with_operand (O_PLUS n) v = O_PLUS v"
| "with_operand (OQUEST n) v = OQUEST v"
| "with_operand (O_QUEST n) v = O_QUEST v"
| "with_operand (OLPAREN n) v = OLPAREN v"
| "with_operand (ORPAREN n) v = ORPAREN v"
| "with_operand (OCH n) v = OCH v"
| "with_operand (OOR1 n) v = OOR1 v"
| "with_operand (OOR2 n) v = OOR2 v"
| "with_operand (O_CH n) v = O_CH v"
| "with_operand s v = s"

text \<open>
  A character set is a bit vector over the 256 characters with a hash code that is summed up
  from the characters.  No class has multi-character elements.
\<close>

record cset =
  bits :: "256 word"
  hash :: u8

definition empty_cset :: cset where
  "empty_cset = \<lparr>bits = 0, hash = 0\<rparr>"

definition uch :: "char \<Rightarrow> nat" where
  "uch c = of_char c"

definition CHadd :: "cset \<Rightarrow> char \<Rightarrow> cset" where
  "CHadd cs c = \<lparr>bits = set_bit (uch c) (bits cs), hash = hash cs + word_of_nat (uch c)\<rparr>"

definition CHsub :: "cset \<Rightarrow> char \<Rightarrow> cset" where
  "CHsub cs c = \<lparr>bits = unset_bit (uch c) (bits cs), hash = hash cs - word_of_nat (uch c)\<rparr>"

definition CHIN :: "cset \<Rightarrow> char \<Rightarrow> bool" where
  "CHIN cs c = bit (bits cs) (uch c)"

record re_guts =
  strip :: "sop list"
  sets :: "cset list"
  cflags :: u32
  nstates :: nat
  firststate :: nat
  laststate :: nat
  usebol :: bool
  useeol :: bool
  bad :: bool
  nbol :: nat
  neol :: nat
  ncategories :: nat
  categories :: "u8 list"
  must :: "string option"
  nsub :: nat
  backrefs :: bool
  nplus :: nat

abbreviation REG_EXTENDED :: u32 where "REG_EXTENDED \<equiv> 0x01"
abbreviation REG_ICASE :: u32 where "REG_ICASE \<equiv> 0x02"
abbreviation REG_NOSUB :: u32 where "REG_NOSUB \<equiv> 0x04"
abbreviation REG_NEWLINE :: u32 where "REG_NEWLINE \<equiv> 0x08"
abbreviation REG_NOSPEC :: u32 where "REG_NOSPEC \<equiv> 0x10"
abbreviation REG_PEND :: u32 where "REG_PEND \<equiv> 0x20"
abbreviation REG_DUMP :: u32 where "REG_DUMP \<equiv> 0x80"

abbreviation REG_NOTBOL :: u32 where "REG_NOTBOL \<equiv> 0x01"
abbreviation REG_NOTEOL :: u32 where "REG_NOTEOL \<equiv> 0x02"
abbreviation REG_STARTEND :: u32 where "REG_STARTEND \<equiv> 0x04"
abbreviation REG_LARGE :: u32 where "REG_LARGE \<equiv> 0x200"
abbreviation REG_BACKR :: u32 where "REG_BACKR \<equiv> 0x400"

text \<open>The error codes.\<close>

datatype reg_error =
    REG_NOMATCH | REG_BADPAT | REG_ECOLLATE | REG_ECTYPE | REG_EESCAPE | REG_ESUBREG | REG_EBRACK
  | REG_EPAREN | REG_EBRACE | REG_BADBR | REG_ERANGE | REG_ESPACE | REG_BADRPT | REG_EMPTY
  | REG_ASSERT | REG_INVARG

text \<open>What a character set contains after an addition or a removal.\<close>

lemma uch_less: "uch c < 256"
  by (simp add: uch_def)

lemma uch_eq: "uch c = uch d \<longleftrightarrow> c = d"
  by (simp add: uch_def)

lemma CHIN_empty [simp]: "\<not> CHIN empty_cset c"
  by (simp add: CHIN_def empty_cset_def)

lemma CHIN_add [simp]: "CHIN (CHadd cs c) d \<longleftrightarrow> d = c \<or> CHIN cs d"
  using uch_less [of c] uch_less [of d] by (auto simp: CHIN_def CHadd_def bit_set_bit_iff uch_eq)

lemma CHIN_sub [simp]: "CHIN (CHsub cs c) d \<longleftrightarrow> d \<noteq> c \<and> CHIN cs d"
  by (auto simp: CHIN_def CHsub_def bit_unset_bit_iff uch_eq)

end
