(* ===== verification/RegEngine.thy ===== *)
theory RegEngine
  imports RegStrip "HOL-Library.Monad_Syntax"
begin

text \<open>
  The matching engine (\<open>engine.c\<close>, included twice by \<open>regexec.c\<close> with two representations of
  sets of states).  The macros that the engine is written with are a record of operations;
  the engine takes it as an argument, and \<open>regexec\<close> chooses between words and arrays.

  Positions in the string are indices.  A loop that need not end is a partial function, with
  \<open>None\<close> when it does not.  Allocations succeed.
\<close>

section \<open>Sets of states\<close>

text \<open>
  \<open>FWD pc dst src n\<close> sets state \<open>pc + n\<close> in \<open>dst\<close> when \<open>pc\<close> is in \<open>src\<close>; \<open>BACK\<close> goes the other
  way.  \<open>shared\<close>: two variables are the same array after a call with one array for both.
\<close>

record 'st state_ops =
  CLEAR :: "nat \<Rightarrow> 'st"
  SET1 :: "'st \<Rightarrow> nat \<Rightarrow> 'st"
  ISSET :: "'st \<Rightarrow> nat \<Rightarrow> bool"
  EQ :: "'st \<Rightarrow> 'st \<Rightarrow> bool"
  FWD :: "nat \<Rightarrow> 'st \<Rightarrow> 'st \<Rightarrow> nat \<Rightarrow> 'st"
  BACK :: "nat \<Rightarrow> 'st \<Rightarrow> 'st \<Rightarrow> nat \<Rightarrow> 'st"
  ISSETBACK :: "nat \<Rightarrow> 'st \<Rightarrow> nat \<Rightarrow> bool"
  shared :: bool

text \<open>The small version: bits of a \<open>long\<close>.\<close>

definition small_ops :: "'a::len word state_ops" where
  "small_ops =
     \<lparr>CLEAR = (\<lambda>n. 0),
      SET1 = (\<lambda>v n. or v (push_bit n 1)),
      ISSET = (\<lambda>v n. and v (push_bit n 1) \<noteq> 0),
      EQ = (=),
      FWD = (\<lambda>pc dst src n. or dst (push_bit n (and src (push_bit pc 1)))),
      BACK = (\<lambda>pc dst src n. or dst (drop_bit n (and src (push_bit pc 1)))),
      ISSETBACK = (\<lambda>pc v n. and v (drop_bit n (push_bit pc 1)) \<noteq> 0),
      shared = False\<rparr>"

text \<open>The large version: an array with a byte for each state.\<close>

definition large_ops :: "bool list state_ops" where
  "large_ops =
     \<lparr>CLEAR = (\<lambda>n. replicate n False),
      SET1 = (\<lambda>v n. v[n := True]),
      ISSET = (\<lambda>v n. v ! n),
      EQ = (=),
      FWD = (\<lambda>pc dst src n. dst[pc + n := dst ! (pc + n) \<or> src ! pc]),
      BACK = (\<lambda>pc dst src n. dst[pc - n := dst ! (pc - n) \<or> src ! pc]),
      ISSETBACK = (\<lambda>pc v n. v ! (pc - n)),
      shared = True\<rparr>"

section \<open>One character\<close>

text \<open>A character, or one of the codes above \<open>OUT\<close>.\<close>

datatype code = Ch char | BOL | EOL | BOLEOL | NOTHING | BOW | EOW

fun NONCHAR :: "code \<Rightarrow> bool" where
  "NONCHAR (Ch c) = False"
| "NONCHAR _ = True"

text \<open>
  The end of a choice, from an \<open>OOR2\<close> on; \<open>None\<close> when the search leaves the strip or does not
  advance.
\<close>

function find_O_CH :: "sop list \<Rightarrow> nat \<Rightarrow> nat option" where
  "find_O_CH ops pos =
     (if pos < length ops then
        (case ops ! pos of
           O_CH _ \<Rightarrow> Some pos
         | s \<Rightarrow> if OPND s = 0 then None else find_O_CH ops (pos + OPND s))
      else None)"
  by pat_completeness auto
termination
  by (relation "measure (\<lambda>(ops, pos). length ops - pos)") auto

declare find_O_CH.simps [simp del]

definition in_set :: "re_guts \<Rightarrow> nat \<Rightarrow> char \<Rightarrow> bool" where
  "in_set g n c = CHIN (sets g ! n) c"

text \<open>Whether an operator accepts a character or a code.\<close>

fun accepts :: "re_guts \<Rightarrow> sop \<Rightarrow> code \<Rightarrow> bool" where
  "accepts g (OCHAR c) ch = (ch = Ch c)"
| "accepts g OBOL ch = (ch = BOL \<or> ch = BOLEOL)"
| "accepts g OEOL ch = (ch = EOL \<or> ch = BOLEOL)"
| "accepts g OBOW ch = (ch = BOW)"
| "accepts g OEOW ch = (ch = EOW)"
| "accepts g OANY ch = (\<not> NONCHAR ch)"
| "accepts g (OANYOF n) ch = (case ch of Ch c \<Rightarrow> in_set g n c | _ \<Rightarrow> False)"
| "accepts g _ ch = False"

text \<open>
  What the loop of \<open>step\<close> does at one operator: the new set of states after the character, and
  the operator to go on with.  \<open>bef\<close> is \<open>None\<close> when it is the same array as \<open>aft\<close>.
\<close>

definition step_op :: "'st state_ops \<Rightarrow> re_guts \<Rightarrow> nat \<Rightarrow> 'st option \<Rightarrow> code \<Rightarrow> 'st \<Rightarrow> 'st \<times> nat" where
  "step_op ops g pc bef ch aft =
     (let prior = (case bef of None \<Rightarrow> aft | Some b \<Rightarrow> b);
          s = strip g ! pc;
          empty = FWD ops pc aft aft 1
      in case s of
           OEND \<Rightarrow> (aft, pc + 1)
         | O_PLUS n \<Rightarrow>
             (let i = ISSETBACK ops pc empty n;
                  aft' = BACK ops pc empty empty n
              in if \<not> i \<and> ISSETBACK ops pc aft' n then (aft', pc - n) else (aft', pc + 1))
         | OQUEST n \<Rightarrow> (FWD ops pc empty empty n, pc + 1)
         | OCH n \<Rightarrow> (FWD ops pc empty empty n, pc + 1)
         | OOR1 _ \<Rightarrow>
             (if ISSET ops aft pc
              then (case find_O_CH (strip g) (pc + 1) of
                      None \<Rightarrow> (aft, pc + 1)
                    | Some q \<Rightarrow> (FWD ops pc aft aft (q - pc), pc + 1))
              else (aft, pc + 1))
         | OOR2 n \<Rightarrow>
             (case strip g ! (pc + n) of
                O_CH _ \<Rightarrow> (empty, pc + 1)
              | _ \<Rightarrow> (FWD ops pc empty empty n, pc + 1))
         | OBACK _ \<Rightarrow> (empty, pc + 1)
         | O_BACK _ \<Rightarrow> (empty, pc + 1)
         | OPLUS _ \<Rightarrow> (empty, pc + 1)
         | O_QUEST _ \<Rightarrow> (empty, pc + 1)
         | OLPAREN _ \<Rightarrow> (empty, pc + 1)
         | ORPAREN _ \<Rightarrow> (empty, pc + 1)
         | O_CH _ \<Rightarrow> (empty, pc + 1)
         | _ \<Rightarrow> (if accepts g s ch then FWD ops pc aft prior 1 else aft, pc + 1))"

partial_function (option) step_loop ::
    "'st state_ops \<Rightarrow> re_guts \<Rightarrow> nat \<Rightarrow> 'st option \<Rightarrow> code \<Rightarrow> nat \<Rightarrow> 'st \<Rightarrow> 'st option" where
  "step_loop ops g stop bef ch pc aft =
     (if pc = stop then Some aft
      else step_loop ops g stop bef ch (snd (step_op ops g pc bef ch aft)) (fst (step_op ops g pc bef ch aft)))"

definition step ::
    "'st state_ops \<Rightarrow> re_guts \<Rightarrow> nat \<Rightarrow> nat \<Rightarrow> 'st option \<Rightarrow> code \<Rightarrow> 'st \<Rightarrow> 'st option" where
  "step ops g start stop bef ch aft = step_loop ops g stop bef ch start aft"

text \<open>A call with one variable for the sets before and after.\<close>

definition step_same :: "'st state_ops \<Rightarrow> re_guts \<Rightarrow> nat \<Rightarrow> nat \<Rightarrow> code \<Rightarrow> 'st \<Rightarrow> 'st option" where
  "step_same ops g start stop ch st = step ops g start stop (if shared ops then None else Some st) ch st"

primrec step_times :: "'st state_ops \<Rightarrow> re_guts \<Rightarrow> nat \<Rightarrow> nat \<Rightarrow> code \<Rightarrow> nat \<Rightarrow> 'st \<Rightarrow> 'st option" where
  "step_times ops g start stop ch 0 st = Some st"
| "step_times ops g start stop ch (Suc i) st =
     do { st' \<leftarrow> step_same ops g start stop ch st; step_times ops g start stop ch i st' }"

section \<open>Strings\<close>

text \<open>The string, where it begins and ends, and the flags.\<close>

record re_match =
  guts :: re_guts
  eflags :: u32
  str :: string
  beginp :: nat
  endp :: nat

text \<open>The character at a position, and the one before it; \<open>None\<close> is \<open>OUT\<close>.\<close>

definition char_here :: "re_match \<Rightarrow> nat \<Rightarrow> char option" where
  "char_here m p = (if p = endp m then None else Some (str m ! p))"

definition char_before :: "re_match \<Rightarrow> nat \<Rightarrow> char option" where
  "char_before m p = (if p = beginp m then None else Some (str m ! (p - 1)))"

definition ISWORD :: "char \<Rightarrow> bool" where
  "ISWORD c \<longleftrightarrow> (let n = uch c in 48 \<le> n \<and> n \<le> 57 \<or> 65 \<le> n \<and> n \<le> 90 \<or> 97 \<le> n \<and> n \<le> 122 \<or> n = 95)"

definition at_bol :: "re_match \<Rightarrow> char option \<Rightarrow> bool" where
  "at_bol m lastc =
     (case lastc of
        None \<Rightarrow> \<not> has_flag (eflags m) REG_NOTBOL
      | Some c \<Rightarrow> c = newline \<and> has_flag (cflags (guts m)) REG_NEWLINE)"

definition at_eol :: "re_match \<Rightarrow> char option \<Rightarrow> bool" where
  "at_eol m c =
     (case c of
        None \<Rightarrow> \<not> has_flag (eflags m) REG_NOTEOL
      | Some c' \<Rightarrow> c' = newline \<and> has_flag (cflags (guts m)) REG_NEWLINE)"

definition bol_eol_flag :: "re_match \<Rightarrow> char option \<Rightarrow> char option \<Rightarrow> code option \<times> nat" where
  "bol_eol_flag m lastc c =
     (let b = at_bol m lastc; e = at_eol m c
      in (if b \<and> e then Some BOLEOL else if b then Some BOL else if e then Some EOL else None,
          (if b then nbol (guts m) else 0) + (if e then neol (guts m) else 0)))"

definition word_flag :: "char option \<Rightarrow> char option \<Rightarrow> code option \<Rightarrow> code option" where
  "word_flag lastc c flagch =
     (let is_word = (\<lambda>x. case x of None \<Rightarrow> False | Some d \<Rightarrow> ISWORD d);
          no_word = (\<lambda>x. case x of None \<Rightarrow> False | Some d \<Rightarrow> \<not> ISWORD d);
          flag1 = (if (flagch = Some BOL \<or> no_word lastc) \<and> is_word c then Some BOW else flagch)
      in if is_word lastc \<and> (flag1 = Some EOL \<or> no_word c) then Some EOW else flag1)"

text \<open>The steps over what stands between two characters.\<close>

definition step_between ::
    "'st state_ops \<Rightarrow> re_match \<Rightarrow> nat \<Rightarrow> nat \<Rightarrow> char option \<Rightarrow> char option \<Rightarrow> 'st \<Rightarrow> 'st option" where
  "step_between ops m startst stopst lastc c st =
     (let (flagch, i) = bol_eol_flag m lastc c
      in do {
        st1 \<leftarrow> (case flagch of None \<Rightarrow> Some st | Some f \<Rightarrow> step_times ops (guts m) startst stopst f i st);
        case word_flag lastc c flagch of
          Some BOW \<Rightarrow> step_same ops (guts m) startst stopst BOW st1
        | Some EOW \<Rightarrow> step_same ops (guts m) startst stopst EOW st1
        | _ \<Rightarrow> Some st1
      })"

text \<open>
  \<open>fast\<close>: the end of a tentative match and the last position where nothing was under way.
  The number \<open>n\<close> is the distance to \<open>stop\<close>.
\<close>

fun fast_loop ::
    "'st state_ops \<Rightarrow> re_match \<Rightarrow> nat \<Rightarrow> nat \<Rightarrow> 'st \<Rightarrow> nat \<Rightarrow> nat \<Rightarrow> char option \<Rightarrow> 'st \<Rightarrow> nat option
     \<Rightarrow> (nat option \<times> nat option) option" where
  "fast_loop ops m startst stopst fresh n p lastc st coldp =
     (let c = char_here m p;
          coldp' = (if EQ ops st fresh then Some p else coldp)
      in do {
        st1 \<leftarrow> step_between ops m startst stopst lastc c st;
        if ISSET ops st1 stopst then Some (Some (p + 1), coldp')
        else case n of
          0 \<Rightarrow> Some (None, coldp')
        | Suc n' \<Rightarrow>
            do {
              st2 \<leftarrow> step ops (guts m) startst stopst (Some st1) (Ch (the c)) fresh;
              fast_loop ops m startst stopst fresh n' (p + 1) c st2 coldp'
            }
      })"

definition fast ::
    "'st state_ops \<Rightarrow> re_match \<Rightarrow> nat \<Rightarrow> nat \<Rightarrow> nat \<Rightarrow> nat \<Rightarrow> (nat option \<times> nat option) option" where
  "fast ops m start stop startst stopst =
     do {
       st \<leftarrow> step_same ops (guts m) startst stopst NOTHING (SET1 ops (CLEAR ops (nstates (guts m))) startst);
       fast_loop ops m startst stopst st (stop - start) start (char_before m start) st None
     }"

text \<open>\<open>slow\<close>: the end of the longest match, or \<open>None\<close>.\<close>

fun slow_loop ::
    "'st state_ops \<Rightarrow> re_match \<Rightarrow> nat \<Rightarrow> nat \<Rightarrow> nat \<Rightarrow> nat \<Rightarrow> char option \<Rightarrow> 'st \<Rightarrow> nat option \<Rightarrow> nat option option" where
  "slow_loop ops m startst stopst n p lastc st matchp =
     (let c = char_here m p; empty = CLEAR ops (nstates (guts m))
      in do {
        st1 \<leftarrow> step_between ops m startst stopst lastc c st;
        let matchp' = (if ISSET ops st1 stopst then Some p else matchp);
        if EQ ops st1 empty then Some matchp'
        else case n of
          0 \<Rightarrow> Some matchp'
        | Suc n' \<Rightarrow>
            do {
              st2 \<leftarrow> step ops (guts m) startst stopst (Some st1) (Ch (the c)) empty;
              slow_loop ops m startst stopst n' (p + 1) c st2 matchp'
            }
      })"

definition slow :: "'st state_ops \<Rightarrow> re_match \<Rightarrow> nat \<Rightarrow> nat \<Rightarrow> nat \<Rightarrow> nat \<Rightarrow> nat option option" where
  "slow ops m start stop startst stopst =
     do {
       st \<leftarrow> step_same ops (guts m) startst stopst NOTHING (SET1 ops (CLEAR ops (nstates (guts m))) startst);
       slow_loop ops m startst stopst (stop - start) start (char_before m start) st None
     }"

declare fast_loop.simps [simp del] slow_loop.simps [simp del]

section \<open>Subexpressions\<close>

type_synonym regmatch = "int \<times> int"

definition set_so :: "nat \<Rightarrow> nat \<Rightarrow> regmatch list \<Rightarrow> regmatch list" where
  "set_so i p pm = pm[i := (int p, snd (pm ! i))]"

definition set_eo :: "nat \<Rightarrow> nat \<Rightarrow> regmatch list \<Rightarrow> regmatch list" where
  "set_eo i p pm = pm[i := (fst (pm ! i), int p)]"

text \<open>The end of the subexpression that starts at an operator.\<close>

definition end_of_sub :: "sop list \<Rightarrow> nat \<Rightarrow> nat option" where
  "end_of_sub ops ss =
     (case ops ! ss of
        OPLUS n \<Rightarrow> Some (ss + n + 1)
      | OQUEST n \<Rightarrow> Some (ss + n + 1)
      | OCH n \<Rightarrow> map_option Suc (find_O_CH ops (ss + n))
      | _ \<Rightarrow> Some (ss + 1))"

text \<open>
  How much of the string a subexpression takes so that the rest matches the rest: the longest
  part is tried first.
\<close>

partial_function (option) longest_rest ::
    "'st state_ops \<Rightarrow> re_match \<Rightarrow> nat \<Rightarrow> nat \<Rightarrow> nat \<Rightarrow> nat \<Rightarrow> nat \<Rightarrow> nat \<Rightarrow> nat option" where
  "longest_rest ops m sp stp stop ss es stopst =
     do {
       r \<leftarrow> slow ops m sp stp ss es;
       rest \<leftarrow> r;
       tail \<leftarrow> slow ops m rest stop es stopst;
       if tail = Some stop then Some rest
       else longest_rest ops m sp (rest - 1) stop ss es stopst
     }"

text \<open>The last pass of a loop: where it starts and ends.\<close>

partial_function (option) last_pass ::
    "'st state_ops \<Rightarrow> re_match \<Rightarrow> nat \<Rightarrow> nat \<Rightarrow> nat \<Rightarrow> nat \<Rightarrow> nat \<Rightarrow> (nat \<times> nat) option" where
  "last_pass ops m ssp oldssp rest ssub esub =
     do {
       sep \<leftarrow> slow ops m ssp rest ssub esub;
       case sep of
         None \<Rightarrow> Some (oldssp, ssp)
       | Some e \<Rightarrow> if e = ssp then Some (ssp, e) else last_pass ops m e ssp rest ssub esub
     }"

text \<open>The first branch of a choice that matches everything.\<close>

partial_function (option) matching_branch ::
    "'st state_ops \<Rightarrow> re_match \<Rightarrow> nat \<Rightarrow> nat \<Rightarrow> nat \<Rightarrow> nat \<Rightarrow> (nat \<times> nat) option" where
  "matching_branch ops m sp rest ssub esub =
     do {
       r \<leftarrow> slow ops m sp rest ssub esub;
       if r = Some rest then Some (ssub, esub)
       else
         (let or2 = esub + 1;
              e = or2 + OPND (strip (guts m) ! or2)
          in matching_branch ops m sp rest (or2 + 1)
               (case strip (guts m) ! e of OOR2 _ \<Rightarrow> e - 1 | _ \<Rightarrow> e))
     }"

text \<open>\<open>dissect\<close>: the positions of the subexpressions, and the end of what was matched.\<close>

partial_function (option) dissect ::
    "'st state_ops \<Rightarrow> re_match \<Rightarrow> nat \<Rightarrow> nat \<Rightarrow> nat \<Rightarrow> nat \<Rightarrow> regmatch list \<Rightarrow> (nat \<times> regmatch list) option" where
  "dissect ops m sp stop ss stopst pm =
     (if \<not> ss < stopst then Some (sp, pm)
      else
        do {
          es \<leftarrow> end_of_sub (strip (guts m)) ss;
          (sp', pm') \<leftarrow>
            (case strip (guts m) ! ss of
               OCHAR _ \<Rightarrow> Some (sp + 1, pm)
             | OANY \<Rightarrow> Some (sp + 1, pm)
             | OANYOF _ \<Rightarrow> Some (sp + 1, pm)
             | OQUEST _ \<Rightarrow>
                 do {
                   rest \<leftarrow> longest_rest ops m sp stop stop ss es stopst;
                   r \<leftarrow> slow ops m sp rest (ss + 1) (es - 1);
                   (case r of
                      Some _ \<Rightarrow>
                        do { (e, pm1) \<leftarrow> dissect ops m sp rest (ss + 1) (es - 1) pm; Some (rest, pm1) }
                    | None \<Rightarrow> Some (rest, pm))
                 }
             | OPLUS _ \<Rightarrow>
                 do {
                   rest \<leftarrow> longest_rest ops m sp stop stop ss es stopst;
                   (ssp, sep) \<leftarrow> last_pass ops m sp sp rest (ss + 1) (es - 1);
                   (e, pm1) \<leftarrow> dissect ops m ssp sep (ss + 1) (es - 1) pm;
                   Some (rest, pm1)
                 }
             | OCH n \<Rightarrow>
                 do {
                   rest \<leftarrow> longest_rest ops m sp stop stop ss es stopst;
                   (ssub, esub) \<leftarrow> matching_branch ops m sp rest (ss + 1) (ss + n - 1);
                   (e, pm1) \<leftarrow> dissect ops m sp rest ssub esub pm;
                   Some (rest, pm1)
                 }
             | OLPAREN i \<Rightarrow> Some (sp, set_so i sp pm)
             | ORPAREN i \<Rightarrow> Some (sp, set_eo i sp pm)
             | _ \<Rightarrow> Some (sp, pm));
          dissect ops m sp' stop es stopst pm'
        })"

section \<open>Back references\<close>

text \<open>The easy part: how far one gets without a choice.\<close>

datatype easy = Fails | Finished nat | Hard nat nat

text \<open>
  The test for the beginning of a line also reads the character before the first one when it is
  told that no line begins there; at the start of the string there is none, and no newline.
\<close>

definition anchored :: "re_match \<Rightarrow> sop \<Rightarrow> nat \<Rightarrow> bool" where
  "anchored m s sp =
     (let prior = (if sp = 0 then None else Some (str m ! (sp - 1)));
          here = (if sp < endp m then Some (str m ! sp) else None);
          newlines = has_flag (cflags (guts m)) REG_NEWLINE;
          bol = (sp = beginp m \<and> \<not> has_flag (eflags m) REG_NOTBOL \<or> sp < endp m \<and> prior = Some newline \<and> newlines);
          eol = (sp = endp m \<and> \<not> has_flag (eflags m) REG_NOTEOL \<or> here = Some newline \<and> newlines);
          word = (\<lambda>c. case c of None \<Rightarrow> False | Some d \<Rightarrow> ISWORD d)
      in case s of
           OBOL \<Rightarrow> bol
         | OEOL \<Rightarrow> eol
         | OBOW \<Rightarrow> (bol \<or> sp > beginp m \<and> \<not> word prior) \<and> word here
         | OEOW \<Rightarrow> (eol \<or> sp < endp m \<and> \<not> word here) \<and> (sp > beginp m \<and> word prior)
         | _ \<Rightarrow> False)"

partial_function (option) backref_easy :: "re_match \<Rightarrow> nat \<Rightarrow> nat \<Rightarrow> nat \<Rightarrow> nat \<Rightarrow> easy option" where
  "backref_easy m sp stop ss stopst =
     (if \<not> ss < stopst then Some (Finished sp)
      else case strip (guts m) ! ss of
        OCHAR c \<Rightarrow>
          if sp = stop \<or> str m ! sp \<noteq> c then Some Fails else backref_easy m (sp + 1) stop (ss + 1) stopst
      | OANY \<Rightarrow> if sp = stop then Some Fails else backref_easy m (sp + 1) stop (ss + 1) stopst
      | OANYOF n \<Rightarrow>
          if sp = stop \<or> \<not> in_set (guts m) n (str m ! sp) then Some Fails
          else backref_easy m (sp + 1) stop (ss + 1) stopst
      | OBOL \<Rightarrow> if anchored m OBOL sp then backref_easy m sp stop (ss + 1) stopst else Some Fails
      | OEOL \<Rightarrow> if anchored m OEOL sp then backref_easy m sp stop (ss + 1) stopst else Some Fails
      | OBOW \<Rightarrow> if anchored m OBOW sp then backref_easy m sp stop (ss + 1) stopst else Some Fails
      | OEOW \<Rightarrow> if anchored m OEOW sp then backref_easy m sp stop (ss + 1) stopst else Some Fails
      | O_QUEST _ \<Rightarrow> backref_easy m sp stop (ss + 1) stopst
      | OOR1 _ \<Rightarrow> do { e \<leftarrow> find_O_CH (strip (guts m)) (ss + 1); backref_easy m sp stop (e + 1) stopst }
      | _ \<Rightarrow> Some (Hard ss sp))"

text \<open>The position of the end of a back reference.\<close>

function find_O_BACK :: "sop list \<Rightarrow> nat \<Rightarrow> nat \<Rightarrow> nat option" where
  "find_O_BACK ops i ss =
     (if ss < length ops then (if ops ! ss = O_BACK i then Some ss else find_O_BACK ops i (ss + 1)) else None)"
  by pat_completeness auto
termination
  by (relation "measure (\<lambda>(ops, i, ss). length ops - ss)") auto

declare find_O_BACK.simps [simp del]

definition MAX_RECURSION :: nat where
  "MAX_RECURSION = 100"

text \<open>What the matching of subexpressions changes.\<close>

record back_state =
  pmatch :: "regmatch list"
  lastpos :: "nat list"

text \<open>
  \<open>backref\<close>: the end of the match, or \<open>None\<close>.  The goal is a part of the strip, or the branch that
  the loop over the branches of a choice tries next.
\<close>

datatype goal = Part nat nat | Branch nat nat

partial_function (option) backref ::
    "re_match \<times> nat \<times> nat \<times> goal \<times> nat \<times> nat \<times> back_state \<Rightarrow> (nat option \<times> back_state) option" where
  "backref a =
     (let (m, start, stop, g, lev, rec, b) = a; ops = strip (guts m)
      in case g of
           Branch ssub esub \<Rightarrow>
             do {
               (dp, b1) \<leftarrow> backref (m, start, stop, Part ssub esub, lev, rec, b);
               (if dp \<noteq> None then Some (dp, b1)
                else case ops ! esub of
                  O_CH _ \<Rightarrow> Some (None, b1)
                | _ \<Rightarrow>
                    (let or2 = esub + 1; e = or2 + OPND (ops ! or2)
                     in backref (m, start, stop, Branch (or2 + 1) (case ops ! e of OOR2 _ \<Rightarrow> e - 1 | _ \<Rightarrow> e), lev, rec, b1)))
             }
         | Part startst stopst \<Rightarrow>
             do {
               e \<leftarrow> backref_easy m start stop startst stopst;
               (case e of
                  Fails \<Rightarrow> Some (None, b)
                | Finished sp \<Rightarrow> Some (if sp \<noteq> stop then None else Some sp, b)
                | Hard ss sp \<Rightarrow>
                    (case ops ! ss of
                       OBACK i \<Rightarrow>
                         (let (so, eo) = pmatch b ! i; len = nat (eo - so)
                          in if eo = -1 then Some (None, b)
                             else if eo < so then None
                             else if len = 0 \<and> rec > MAX_RECURSION then Some (None, b)
                             else if stop < sp + len then Some (None, b)
                             else if take len (drop sp (str m)) \<noteq> take len (drop (nat so) (str m)) then Some (None, b)
                             else
                               do {
                                 q \<leftarrow> find_O_BACK ops i ss;
                                 backref (m, sp + len, stop, Part (q + 1) stopst, lev, (if len = 0 then rec + 1 else rec), b)
                               })
                     | OQUEST n \<Rightarrow>
                         do {
                           (dp, b1) \<leftarrow> backref (m, sp, stop, Part (ss + 1) stopst, lev, rec, b);
                           (if dp \<noteq> None then Some (dp, b1)
                            else backref (m, sp, stop, Part (ss + n + 1) stopst, lev, rec, b1))
                         }
                     | OPLUS _ \<Rightarrow>
                         backref (m, sp, stop, Part (ss + 1) stopst, lev + 1, rec, b\<lparr>lastpos := (lastpos b)[lev + 1 := sp]\<rparr>)
                     | O_PLUS n \<Rightarrow>
                         (if sp = lastpos b ! lev then backref (m, sp, stop, Part (ss + 1) stopst, lev - 1, rec, b)
                          else
                            do {
                              (dp, b1) \<leftarrow>
                                backref (m, sp, stop, Part (ss - n + 1) stopst, lev, rec, b\<lparr>lastpos := (lastpos b)[lev := sp]\<rparr>);
                              (if dp \<noteq> None then Some (dp, b1)
                               else backref (m, sp, stop, Part (ss + 1) stopst, lev - 1, rec, b1))
                            })
                     | OCH n \<Rightarrow> backref (m, sp, stop, Branch (ss + 1) (ss + n - 1), lev, rec, b)
                     | OLPAREN i \<Rightarrow>
                         do {
                           (dp, b1) \<leftarrow>
                             backref (m, sp, stop, Part (ss + 1) stopst, lev, rec, b\<lparr>pmatch := set_so i sp (pmatch b)\<rparr>);
                           Some (if dp \<noteq> None then (dp, b1)
                                 else (None, b1\<lparr>pmatch := (pmatch b1)[i := (fst (pmatch b ! i), snd (pmatch b1 ! i))]\<rparr>))
                         }
                     | ORPAREN i \<Rightarrow>
                         do {
                           (dp, b1) \<leftarrow>
                             backref (m, sp, stop, Part (ss + 1) stopst, lev, rec, b\<lparr>pmatch := set_eo i sp (pmatch b)\<rparr>);
                           Some (if dp \<noteq> None then (dp, b1)
                                 else (None, b1\<lparr>pmatch := (pmatch b1)[i := (fst (pmatch b1 ! i), snd (pmatch b ! i))]\<rparr>))
                         }
                     | _ \<Rightarrow> Some (None, b)))
             })"

section \<open>The matcher\<close>

text \<open>The first and the last state of the expression.\<close>

definition gf :: "re_guts \<Rightarrow> nat" where
  "gf g = firststate g + 1"

definition gl :: "re_guts \<Rightarrow> nat" where
  "gl g = laststate g"

text \<open>Whether the string that every match contains is found.\<close>

fun has_must :: "string \<Rightarrow> string \<Rightarrow> bool" where
  "has_must mu [] = False"
| "has_must mu (c # s) = (take (length mu) (c # s) = mu \<or> has_must mu s)"

definition prescreen :: "re_guts \<Rightarrow> string \<Rightarrow> nat \<Rightarrow> nat \<Rightarrow> bool" where
  "prescreen g s start stop =
     (case must g of None \<Rightarrow> True | Some mu \<Rightarrow> has_must mu (take (stop - start) (drop start s)))"

text \<open>Where the match starts, given a position that is not after it.\<close>

partial_function (option) find_start :: "'st state_ops \<Rightarrow> re_match \<Rightarrow> nat \<Rightarrow> nat \<Rightarrow> (nat \<times> nat) option" where
  "find_start ops m stop coldp =
     do {
       e \<leftarrow> slow ops m coldp stop (gf (guts m)) (gl (guts m));
       (case e of
          Some ep \<Rightarrow> Some (coldp, ep)
        | None \<Rightarrow> if coldp < stop then find_start ops m stop (coldp + 1) else None)
     }"

text \<open>Shorter and shorter matches, until one agrees with the back references.\<close>

partial_function (option) back_off ::
    "'st state_ops \<Rightarrow> re_match \<Rightarrow> nat \<Rightarrow> nat \<Rightarrow> back_state \<Rightarrow> (nat option \<times> nat option \<times> back_state) option" where
  "back_off ops m coldp ep b =
     (if ep \<le> coldp then Some (None, Some ep, b)
      else
        do {
          e \<leftarrow> slow ops m coldp (ep - 1) (gf (guts m)) (gl (guts m));
          (case e of
             None \<Rightarrow> Some (None, None, b)
           | Some ep' \<Rightarrow>
               do {
                 (dp, b') \<leftarrow> backref (m, coldp, ep', Part (gf (guts m)) (gl (guts m)), 0, 0, b);
                 (if dp \<noteq> None then Some (dp, Some ep', b') else back_off ops m coldp ep' b')
               })
        })"

definition no_matches :: "re_guts \<Rightarrow> back_state" where
  "no_matches g = \<lparr>pmatch = replicate (nsub g + 1) (-1, -1), lastpos = replicate (nplus g + 1) 0\<rparr>"

text \<open>What matched what, for a match from \<open>coldp\<close> to \<open>ep\<close>.\<close>

definition subexpressions ::
    "'st state_ops \<Rightarrow> re_match \<Rightarrow> nat \<Rightarrow> nat \<Rightarrow> (nat option \<times> back_state) option" where
  "subexpressions ops m coldp ep =
     (let g = guts m
      in if \<not> backrefs g \<and> \<not> has_flag (eflags m) REG_BACKR then
           do {
             (dp, pm) \<leftarrow> dissect ops m coldp ep (gf g) (gl g) (pmatch (no_matches g));
             Some (Some dp, no_matches g\<lparr>pmatch := pm\<rparr>)
           }
         else backref (m, coldp, ep, Part (gf g) (gl g), 0, 0, no_matches g))"

text \<open>The loop of \<open>matcher\<close>: start, end and subexpressions of a match, or \<open>None\<close>.\<close>

partial_function (option) matcher_loop ::
    "'st state_ops \<Rightarrow> re_match \<Rightarrow> nat \<Rightarrow> nat \<Rightarrow> nat \<Rightarrow> (nat \<times> nat \<times> regmatch list) option option" where
  "matcher_loop ops m nmatch start stop =
     (let g = guts m
      in do {
        (e, cold) \<leftarrow> fast ops m start stop (gf g) (gl g);
        (case e of
           None \<Rightarrow> Some None
         | Some ep0 \<Rightarrow>
             do {
               coldp0 \<leftarrow> cold;
               (if nmatch = 0 \<and> \<not> backrefs g then Some (Some (coldp0, ep0, pmatch (no_matches g)))
                else
                  do {
                    (coldp, ep) \<leftarrow> find_start ops m stop coldp0;
                    (if nmatch = 1 \<and> \<not> backrefs g then Some (Some (coldp, ep, pmatch (no_matches g)))
                     else
                       do {
                         (dp, b) \<leftarrow> subexpressions ops m coldp ep;
                         (if dp \<noteq> None then Some (Some (coldp, ep, pmatch b))
                          else
                            do {
                              (dp', e', b') \<leftarrow> back_off ops m coldp ep b;
                              (if dp' \<noteq> None \<or> coldp = stop
                               then do { ep' \<leftarrow> e'; Some (Some (coldp, ep', pmatch b')) }
                               else matcher_loop ops m nmatch (coldp + 1) stop)
                            })
                       })
                  })
             })
      })"

text \<open>Filling in the details the caller wants.\<close>

definition fill_in ::
    "re_guts \<Rightarrow> nat \<Rightarrow> nat \<Rightarrow> nat \<Rightarrow> regmatch list \<Rightarrow> regmatch list \<Rightarrow> regmatch list" where
  "fill_in g nmatch coldp ep found pm =
     map (\<lambda>i. if nmatch \<le> i then pm ! i
              else if i = 0 then (int coldp, int ep)
              else if i \<le> nsub g then found ! i else (-1, -1))
       [0..<length pm]"

text \<open>
  \<open>matcher\<close>: the error code, \<open>None\<close> for 0, and the array of matches.  With \<open>REG_STARTEND\<close> the
  first element of that array says which part of the string to look at, and without it the string is
  one without NUL characters, whose length is that of the list.  The offsets of \<open>REG_STARTEND\<close>
  are positions in the string: a negative one, which the code would use to read before
  the string, counts as 0.
\<close>

definition matcher ::
    "'st state_ops \<Rightarrow> re_guts \<Rightarrow> string \<Rightarrow> nat \<Rightarrow> regmatch list \<Rightarrow> u32 \<Rightarrow> (reg_error option \<times> regmatch list) option" where
  "matcher ops g s nmatch0 pm flags =
     (let nmatch = (if has_flag (cflags g) REG_NOSUB then 0 else nmatch0);
          (start, stop) =
            (if has_flag flags REG_STARTEND then (nat (fst (pm ! 0)), nat (snd (pm ! 0))) else (0, length s));
          m = \<lparr>guts = g, eflags = flags, str = s, beginp = start, endp = stop\<rparr>
      in if stop < start then Some (Some REG_INVARG, pm)
         else if \<not> prescreen g s start stop then Some (Some REG_NOMATCH, pm)
         else
           do {
             r \<leftarrow> matcher_loop ops m nmatch start stop;
             Some (case r of
                     None \<Rightarrow> (Some REG_NOMATCH, pm)
                   | Some (coldp, ep, found) \<Rightarrow> (None, fill_in g nmatch coldp ep found pm))
           })"

text \<open>
  What \<open>regcomp\<close> leaves in the caller's structure.  The marks that make it valid are the two
  numbers \<open>MAGIC1\<close> and \<open>MAGIC2\<close>, the second in the compiled expression itself.
\<close>

record regex =
  re_magic :: int
  re_nsub :: nat
  re_endp :: int
  re_g :: re_guts
  g_magic :: int

definition MAGIC1 :: int where
  "MAGIC1 = 62053"

definition MAGIC2 :: int where
  "MAGIC2 = 53829"

definition GOODFLAGS :: "u32 \<Rightarrow> u32" where
  "GOODFLAGS f = and f (or REG_NOTBOL (or REG_NOTEOL REG_STARTEND))"

text \<open>\<open>regexec\<close>, where a \<open>long\<close> is a word of the given type.\<close>

definition regexec ::
    "'w::len itself \<Rightarrow> regex \<Rightarrow> string \<Rightarrow> nat \<Rightarrow> regmatch list \<Rightarrow> u32 \<Rightarrow> (reg_error option \<times> regmatch list) option" where
  "regexec long preg s nmatch pm flags0 =
     (let g = re_g preg; flags = GOODFLAGS flags0
      in if re_magic preg \<noteq> MAGIC1 \<or> g_magic preg \<noteq> MAGIC2 then Some (Some REG_BADPAT, pm)
         else if bad g then Some (Some REG_BADPAT, pm)
         else if nstates g \<le> LENGTH('w) \<and> \<not> has_flag flags REG_LARGE
         then matcher (small_ops :: 'w word state_ops) g s nmatch pm flags
         else matcher large_ops g s nmatch pm flags)"

text \<open>\<open>regfree\<close> makes the structure invalid.\<close>

definition regfree :: "regex \<Rightarrow> regex" where
  "regfree preg =
     (if re_magic preg \<noteq> MAGIC1 then preg
      else if g_magic preg \<noteq> MAGIC2 then preg
      else preg\<lparr>re_magic := 0, g_magic := 0\<rparr>)"

declare step_loop.simps [code] longest_rest.simps [code] last_pass.simps [code] matching_branch.simps [code]
  dissect.simps [code] backref_easy.simps [code] backref.simps [code] find_start.simps [code]
  back_off.simps [code] matcher_loop.simps [code]

end
