(* ===== verification/RegStep.thy ===== *)
theory RegStep
  imports RegEngine
begin

text \<open>
  What \<open>step\<close> computes: the states that the character leads to, closed under the moves that need
  no character.  This holds for every representation of sets of states that keeps the laws of
  the locale \<open>state_set\<close>; the words and the arrays of \<open>regexec.c\<close> both do.
\<close>

section \<open>Sets of states\<close>

definition states_of :: "'st state_ops \<Rightarrow> nat \<Rightarrow> 'st \<Rightarrow> nat set" where
  "states_of ops n v = {i. i < n \<and> ISSET ops v i}"

locale state_set =
  fixes ops :: "'st state_ops" and n :: nat and ok :: "'st \<Rightarrow> bool"
  assumes clear_ok [simp]: "ok (CLEAR ops n)"
    and clear_states [simp]: "states_of ops n (CLEAR ops n) = {}"
    and set1_ok [simp]: "\<lbrakk>ok v; i < n\<rbrakk> \<Longrightarrow> ok (SET1 ops v i)"
    and set1_states [simp]: "\<lbrakk>ok v; i < n\<rbrakk> \<Longrightarrow> states_of ops n (SET1 ops v i) = insert i (states_of ops n v)"
    and eq_states: "\<lbrakk>ok v; ok w\<rbrakk> \<Longrightarrow> EQ ops v w \<longleftrightarrow> states_of ops n v = states_of ops n w"
    and fwd_ok: "\<lbrakk>ok d; ok s; pc + k < n\<rbrakk> \<Longrightarrow> ok (FWD ops pc d s k)"
    and fwd_states:
      "\<lbrakk>ok d; ok s; pc + k < n\<rbrakk> \<Longrightarrow>
       states_of ops n (FWD ops pc d s k) =
       states_of ops n d \<union> (if pc \<in> states_of ops n s then {pc + k} else {})"
    and back_ok: "\<lbrakk>ok d; ok s; pc < n; k \<le> pc\<rbrakk> \<Longrightarrow> ok (BACK ops pc d s k)"
    and back_states:
      "\<lbrakk>ok d; ok s; pc < n; k \<le> pc\<rbrakk> \<Longrightarrow>
       states_of ops n (BACK ops pc d s k) =
       states_of ops n d \<union> (if pc \<in> states_of ops n s then {pc - k} else {})"
    and issetback_states:
      "\<lbrakk>ok v; pc < n; k \<le> pc\<rbrakk> \<Longrightarrow> ISSETBACK ops pc v k \<longleftrightarrow> pc - k \<in> states_of ops n v"

section \<open>Moves\<close>

text \<open>The operators that can be passed without a character, and where they lead.\<close>

definition eps :: "re_guts \<Rightarrow> nat \<Rightarrow> nat set" where
  "eps g pc =
     (case strip g ! pc of
        O_PLUS k \<Rightarrow> {pc + 1, pc - k}
      | OQUEST k \<Rightarrow> {pc + 1, pc + k}
      | OCH k \<Rightarrow> {pc + 1, pc + k}
      | OOR1 _ \<Rightarrow> set_option (find_O_CH (strip g) (pc + 1))
      | OOR2 k \<Rightarrow> (case strip g ! (pc + k) of O_CH _ \<Rightarrow> {pc + 1} | _ \<Rightarrow> {pc + 1, pc + k})
      | OBACK _ \<Rightarrow> {pc + 1} | O_BACK _ \<Rightarrow> {pc + 1}
      | OPLUS _ \<Rightarrow> {pc + 1} | O_QUEST _ \<Rightarrow> {pc + 1}
      | OLPAREN _ \<Rightarrow> {pc + 1} | ORPAREN _ \<Rightarrow> {pc + 1}
      | O_CH _ \<Rightarrow> {pc + 1}
      | _ \<Rightarrow> {})"

text \<open>The states that a character or a code leads to.\<close>

definition moves :: "re_guts \<Rightarrow> nat \<Rightarrow> nat \<Rightarrow> code \<Rightarrow> nat set \<Rightarrow> nat set" where
  "moves g start stop ch b = {pc + 1 | pc. pc \<in> b \<and> start \<le> pc \<and> pc < stop \<and> accepts g (strip g ! pc) ch}"

inductive_set closure :: "re_guts \<Rightarrow> nat \<Rightarrow> nat \<Rightarrow> nat set \<Rightarrow> nat set"
  for g :: re_guts and start stop :: nat and X :: "nat set" where
  base: "q \<in> X \<Longrightarrow> q \<in> closure g start stop X"
| move: "\<lbrakk>pc \<in> closure g start stop X; start \<le> pc; pc < stop; q \<in> eps g pc\<rbrakk> \<Longrightarrow> q \<in> closure g start stop X"

text \<open>
  A part of a strip that can be run by itself: no move leaves it, and only the end of a loop leads
  back.
\<close>

definition seg_ok :: "re_guts \<Rightarrow> nat \<Rightarrow> nat \<Rightarrow> bool" where
  "seg_ok g start stop \<longleftrightarrow>
     start \<le> stop \<and>
     (\<forall>pc. start \<le> pc \<longrightarrow> pc < stop \<longrightarrow>
        (\<forall>q\<in>eps g pc. q \<le> stop \<and> (pc < q \<or> (\<exists>k. strip g ! pc = O_PLUS k \<and> start + k \<le> pc))) \<and>
        (\<forall>k. strip g ! pc = OOR1 k \<longrightarrow> eps g pc \<noteq> {}))"

lemma closure_closed: "pc \<in> closure g start stop X \<Longrightarrow> start \<le> pc \<Longrightarrow> pc < stop \<Longrightarrow> eps g pc \<subseteq> closure g start stop X"
  by (auto intro: closure.move)

lemma closure_least:
  assumes "X \<subseteq> A" and "\<And>pc. \<lbrakk>pc \<in> A; start \<le> pc; pc < stop\<rbrakk> \<Longrightarrow> eps g pc \<subseteq> A"
  shows "closure g start stop X \<subseteq> A"
proof
  fix q
  assume "q \<in> closure g start stop X"
  then show "q \<in> A" by induction (use assms in auto)
qed

lemma closure_mono: "X \<subseteq> Y \<Longrightarrow> closure g start stop X \<subseteq> closure g start stop Y"
  by (rule closure_least) (auto intro: closure.intros)

lemma closure_idem [simp]: "closure g start stop (closure g start stop X) = closure g start stop X"
proof
  show "closure g start stop (closure g start stop X) \<subseteq> closure g start stop X"
    by (rule closure_least) (auto intro: closure.move)
qed (auto intro: closure.base)

lemma closure_extensive: "X \<subseteq> closure g start stop X"
  by (auto intro: closure.base)

lemma closure_union_closed:
  "closure g start stop (closure g start stop X \<union> Y) = closure g start stop (X \<union> Y)"
proof
  have "closure g start stop X \<union> Y \<subseteq> closure g start stop (X \<union> Y)"
    using closure_mono [of X "X \<union> Y"] closure_extensive [of "X \<union> Y"] by blast
  then show "closure g start stop (closure g start stop X \<union> Y) \<subseteq> closure g start stop (X \<union> Y)"
    using closure_mono closure_idem by metis
qed (use closure_extensive in \<open>intro closure_mono, blast\<close>)

section \<open>The loop\<close>

text \<open>What one operator does to the set of states, and where the loop goes on.\<close>

definition op_states :: "re_guts \<Rightarrow> nat \<Rightarrow> nat set \<Rightarrow> code \<Rightarrow> nat set \<Rightarrow> nat set" where
  "op_states g pc B ch A =
     A \<union> (if pc \<in> A then eps g pc else {}) \<union> (if pc \<in> B \<and> accepts g (strip g ! pc) ch then {pc + 1} else {})"

definition op_next :: "re_guts \<Rightarrow> nat \<Rightarrow> nat set \<Rightarrow> nat" where
  "op_next g pc A =
     (case strip g ! pc of
        O_PLUS k \<Rightarrow> if pc \<in> A \<and> pc - k \<notin> A then pc - k else pc + 1
      | _ \<Rightarrow> pc + 1)"

lemma seg_okD:
  assumes "seg_ok g start stop" "start \<le> pc" "pc < stop" "q \<in> eps g pc"
  shows "q \<le> stop" "start \<le> q" "pc < q \<or> (\<exists>k. strip g ! pc = O_PLUS k)"
proof -
  have *: "q \<le> stop" "pc < q \<or> (\<exists>k. strip g ! pc = O_PLUS k \<and> start + k \<le> pc)"
    using assms unfolding seg_ok_def by blast+
  then show "q \<le> stop" "pc < q \<or> (\<exists>k. strip g ! pc = O_PLUS k)"
    by blast+
  from *(2) show "start \<le> q"
  proof
    assume "\<exists>k. strip g ! pc = O_PLUS k \<and> start + k \<le> pc"
    then obtain k where "strip g ! pc = O_PLUS k" "start + k \<le> pc"
      by blast
    then show ?thesis
      using assms(4) by (auto simp: eps_def)
  qed (use assms(2) in simp)
qed

lemma seg_ok_plus:
  assumes "seg_ok g start stop" "start \<le> pc" "pc < stop" "strip g ! pc = O_PLUS k"
  shows "start + k \<le> pc"
proof -
  have "pc - k \<in> eps g pc"
    by (simp add: eps_def assms(4))
  then have "pc < pc - k \<or> (\<exists>k. strip g ! pc = O_PLUS k \<and> start + k \<le> pc)"
    using assms(1-3) unfolding seg_ok_def by blast
  then show ?thesis
    using assms(4) by auto
qed

lemma seg_ok_or1:
  assumes "seg_ok g start stop" "start \<le> pc" "pc < stop" "strip g ! pc = OOR1 k"
  obtains q where "find_O_CH (strip g) (pc + 1) = Some q" "pc < q" "q \<le> stop"
proof -
  have "eps g pc = set_option (find_O_CH (strip g) (pc + 1))" "eps g pc \<noteq> {}"
    using assms unfolding seg_ok_def by (auto simp: eps_def)
  then obtain q where q: "find_O_CH (strip g) (pc + 1) = Some q" "q \<in> eps g pc"
    by (metis option.set_sel option.exhaust_sel option.set(1))
  then show ?thesis
    using that seg_okD [OF assms(1-3) q(2)] assms(4) by auto
qed

text \<open>Moving forward from an operator in its own array.\<close>

context state_set
begin

lemma fwd_self:
  assumes "ok a" "pc + k < n"
  shows "ok (FWD ops pc a a k)"
    and "states_of ops n (FWD ops pc a a k) = states_of ops n a \<union> (if pc \<in> states_of ops n a then {pc + k} else {})"
  using assms by (simp_all add: fwd_ok fwd_states)

lemma fwd_two:
  assumes "ok a" "pc + 1 < n" "pc + k < n"
  shows "ok (FWD ops pc (FWD ops pc a a 1) (FWD ops pc a a 1) k)"
    and "states_of ops n (FWD ops pc (FWD ops pc a a 1) (FWD ops pc a a 1) k) =
         states_of ops n a \<union> (if pc \<in> states_of ops n a then {pc + 1, pc + k} else {})"
proof -
  have one: "ok (FWD ops pc a a 1)"
    "states_of ops n (FWD ops pc a a 1) = states_of ops n a \<union> (if pc \<in> states_of ops n a then {pc + 1} else {})"
    using fwd_self [of a pc 1] assms by auto
  show "ok (FWD ops pc (FWD ops pc a a 1) (FWD ops pc a a 1) k)"
    using fwd_self(1) [OF one(1) assms(3)] .
  show "states_of ops n (FWD ops pc (FWD ops pc a a 1) (FWD ops pc a a 1) k) =
         states_of ops n a \<union> (if pc \<in> states_of ops n a then {pc + 1, pc + k} else {})"
    using fwd_self(2) [OF one(1) assms(3)] one(2) by auto
qed

lemma step_op_plus:
  assumes "ok a" "pc + 1 < n" "k \<le> pc" "strip g ! pc = O_PLUS k"
  shows "ok (fst (step_op ops g pc bef ch a))"
    and "states_of ops n (fst (step_op ops g pc bef ch a)) =
         states_of ops n a \<union> (if pc \<in> states_of ops n a then {pc + 1, pc - k} else {})"
    and "snd (step_op ops g pc bef ch a) =
         (if pc \<in> states_of ops n a \<and> pc - k \<notin> states_of ops n a then pc - k else pc + 1)"
proof -
  define e where "e = FWD ops pc a a 1"
  define r where "r = BACK ops pc e e k"
  have e: "ok e" "states_of ops n e = states_of ops n a \<union> (if pc \<in> states_of ops n a then {pc + 1} else {})"
    unfolding e_def using fwd_self [of a pc 1] assms by auto
  have r: "ok r" "states_of ops n r = states_of ops n e \<union> (if pc \<in> states_of ops n e then {pc - k} else {})"
    unfolding r_def using back_ok [of e e pc k] back_states [of e e pc k] e(1) assms by auto
  have "step_op ops g pc bef ch a =
        (if \<not> ISSETBACK ops pc e k \<and> ISSETBACK ops pc r k then (r, pc - k) else (r, pc + 1))"
    by (simp add: step_op_def assms(4) Let_def e_def r_def)
  moreover have "ISSETBACK ops pc e k \<longleftrightarrow> pc - k \<in> states_of ops n e"
    "ISSETBACK ops pc r k \<longleftrightarrow> pc - k \<in> states_of ops n r"
    using issetback_states [of e pc k] issetback_states [of r pc k] e(1) r(1) assms by auto
  ultimately show "ok (fst (step_op ops g pc bef ch a))"
    "states_of ops n (fst (step_op ops g pc bef ch a)) =
         states_of ops n a \<union> (if pc \<in> states_of ops n a then {pc + 1, pc - k} else {})"
    "snd (step_op ops g pc bef ch a) =
         (if pc \<in> states_of ops n a \<and> pc - k \<notin> states_of ops n a then pc - k else pc + 1)"
    using e r by auto
qed

end

definition before_states :: "'st state_ops \<Rightarrow> nat \<Rightarrow> 'st option \<Rightarrow> nat set \<Rightarrow> nat set" where
  "before_states ops n bef A = (case bef of None \<Rightarrow> A | Some b \<Rightarrow> states_of ops n b)"

context state_set
begin

lemma step_op_char:
  assumes "ok a" "\<forall>b. bef = Some b \<longrightarrow> ok b" "pc + 1 < n"
    "step_op ops g pc bef ch a =
     (if accepts g (strip g ! pc) ch then FWD ops pc a (case bef of None \<Rightarrow> a | Some b \<Rightarrow> b) 1 else a, pc + 1)"
    "eps g pc = {}"
  shows "ok (fst (step_op ops g pc bef ch a))"
    and "states_of ops n (fst (step_op ops g pc bef ch a)) =
         op_states g pc (before_states ops n bef (states_of ops n a)) ch (states_of ops n a)"
proof -
  define b where "b = (case bef of None \<Rightarrow> a | Some b \<Rightarrow> b)"
  have b: "ok b" "before_states ops n bef (states_of ops n a) = states_of ops n b"
    using assms(1,2) by (auto simp: b_def before_states_def split: option.splits)
  have "ok (FWD ops pc a b 1)"
    "states_of ops n (FWD ops pc a b 1) = states_of ops n a \<union> (if pc \<in> states_of ops n b then {pc + 1} else {})"
    using fwd_ok fwd_states b(1) assms(1,3) by auto
  then show "ok (fst (step_op ops g pc bef ch a))"
    "states_of ops n (fst (step_op ops g pc bef ch a)) =
         op_states g pc (before_states ops n bef (states_of ops n a)) ch (states_of ops n a)"
    using assms(1) unfolding assms(4) b(2) op_states_def assms(5) b_def [symmetric] by auto
qed

lemma step_op_eps:
  assumes "ok a" "pc + 1 < n" "step_op ops g pc bef ch a = (FWD ops pc a a 1, pc + 1)"
    "eps g pc = {pc + 1}" "\<not> accepts g (strip g ! pc) ch"
  shows "ok (fst (step_op ops g pc bef ch a)) \<and>
         states_of ops n (fst (step_op ops g pc bef ch a)) = op_states g pc B ch (states_of ops n a)"
  using fwd_self [of a pc 1] assms by (auto simp: op_states_def)

lemma step_op_eps2:
  assumes "ok a" "pc + 1 < n" "pc + k < n"
    "step_op ops g pc bef ch a = (FWD ops pc (FWD ops pc a a 1) (FWD ops pc a a 1) k, pc + 1)"
    "eps g pc = {pc + 1, pc + k}" "\<not> accepts g (strip g ! pc) ch"
  shows "ok (fst (step_op ops g pc bef ch a)) \<and>
         states_of ops n (fst (step_op ops g pc bef ch a)) = op_states g pc B ch (states_of ops n a)"
  using fwd_two [of a pc k] assms by (auto simp: op_states_def)

lemma step_op_or1:
  assumes "seg_ok g start stop" "start \<le> pc" "pc < stop" "stop < n" "ok a" "strip g ! pc = OOR1 k"
  shows "ok (fst (step_op ops g pc bef ch a)) \<and>
         states_of ops n (fst (step_op ops g pc bef ch a)) = op_states g pc B ch (states_of ops n a)"
proof -
  obtain q where q: "find_O_CH (strip g) (pc + 1) = Some q" "pc < q" "q \<le> stop"
    using seg_ok_or1 [OF assms(1-3,6)] .
  have isset: "ISSET ops a pc \<longleftrightarrow> pc \<in> states_of ops n a"
    using assms by (simp add: states_of_def)
  have "ok (FWD ops pc a a (q - pc))"
    "states_of ops n (FWD ops pc a a (q - pc)) = states_of ops n a \<union> (if pc \<in> states_of ops n a then {q} else {})"
    using fwd_self [of a pc "q - pc"] q assms by auto
  then show ?thesis
    using assms q by (auto simp: step_op_def isset Let_def op_states_def eps_def)
qed

lemma step_op_states:
  assumes "seg_ok g start stop" "start \<le> pc" "pc < stop" "stop < n" "ok a" "\<forall>b. bef = Some b \<longrightarrow> ok b"
  shows "ok (fst (step_op ops g pc bef ch a)) \<and>
         states_of ops n (fst (step_op ops g pc bef ch a)) =
           op_states g pc (before_states ops n bef (states_of ops n a)) ch (states_of ops n a) \<and>
         snd (step_op ops g pc bef ch a) = op_next g pc (states_of ops n a)"
proof -
  let ?B = "before_states ops n bef (states_of ops n a)"
  have n: "pc + 1 < n" and q: "\<And>q. q \<in> eps g pc \<Longrightarrow> q < n"
    using assms seg_okD [OF assms(1-3)] by (simp, fastforce)
  note char = step_op_char [OF assms(5,6) n]
  note eps = step_op_eps [OF assms(5) n, where B = ?B]
  note eps2 = step_op_eps2 [OF assms(5) n, where B = ?B]
  show ?thesis
  proof (cases "strip g ! pc")
    case (O_PLUS k)
    then have "k \<le> pc" using seg_ok_plus [OF assms(1-3)] by simp
    from step_op_plus [OF assms(5) n this O_PLUS] show ?thesis
      using O_PLUS by (simp add: op_states_def op_next_def eps_def)
  next
    case (OOR1 k)
    then show ?thesis
      using step_op_or1 [OF assms(1-5) OOR1, where B = ?B]
      by (simp add: op_next_def step_op_def Let_def split: option.splits)
  next
    case (OQUEST k)
    then show ?thesis using eps2 [of k g bef ch] q [of "pc + k"] by (simp add: op_next_def eps_def step_op_def Let_def)
  next
    case (OCH k)
    then show ?thesis using eps2 [of k g bef ch] q [of "pc + k"] by (simp add: op_next_def eps_def step_op_def Let_def)
  next
    case (OOR2 k)
    then show ?thesis
      using eps2 [of k g bef ch] eps [of g bef ch] q [of "pc + k"]
      by (cases "strip g ! (pc + k)") (simp_all add: op_next_def eps_def step_op_def Let_def)
  next
    case OEND
    then show ?thesis using assms(5) by (simp add: step_op_def op_states_def op_next_def eps_def)
  qed (use eps [of g bef ch] char [of g ch] in
       \<open>simp_all add: op_next_def eps_def step_op_def Let_def del: accepts.simps(2,3,4,5,6,7)\<close>)
qed

end

lemma lex_weight:
  fixes u u' p p' s :: nat
  assumes "u' < u \<or> u' = u \<and> s - p' < s - p"
  shows "u' * (s + 1) + (s - p') < u * (s + 1) + (s - p)"
  using assms
proof
  assume "u' < u"
  then have "(u' + 1) * (s + 1) \<le> u * (s + 1)"
    by (intro mult_le_mono) auto
  then show ?thesis by simp
qed simp

text \<open>
  The part before the current operator is finished, and nothing outside of a closed set \<open>U\<close> was
  added.
\<close>

definition loop_inv :: "re_guts \<Rightarrow> nat \<Rightarrow> nat \<Rightarrow> nat set \<Rightarrow> code \<Rightarrow> nat set \<Rightarrow> nat set \<Rightarrow> nat \<Rightarrow> nat set \<Rightarrow> bool" where
  "loop_inv g start stop B ch A0 U pc A \<longleftrightarrow>
     start \<le> pc \<and> pc \<le> stop \<and> A0 \<subseteq> A \<and> A \<subseteq> U \<and>
     (\<forall>q. start \<le> q \<longrightarrow> q < pc \<longrightarrow>
        (q \<in> A \<longrightarrow> eps g q \<subseteq> A) \<and> (q \<in> B \<longrightarrow> accepts g (strip g ! q) ch \<longrightarrow> q + 1 \<in> A))"

definition closed :: "re_guts \<Rightarrow> nat \<Rightarrow> nat \<Rightarrow> nat set \<Rightarrow> bool" where
  "closed g start stop A \<longleftrightarrow> closure g start stop A = A"

lemma closedI: "(\<And>pc. \<lbrakk>pc \<in> A; start \<le> pc; pc < stop\<rbrakk> \<Longrightarrow> eps g pc \<subseteq> A) \<Longrightarrow> closed g start stop A"
  unfolding closed_def using closure_least [of A A start stop g] closure_extensive [of A g start stop] by blast

lemma closedD: "\<lbrakk>closed g start stop A; pc \<in> A; start \<le> pc; pc < stop\<rbrakk> \<Longrightarrow> eps g pc \<subseteq> A"
  unfolding closed_def using closure_closed [of pc g start stop A] by simp

lemma closed_closure [simp]: "closed g start stop (closure g start stop X)"
  by (simp add: closed_def)

lemma loop_inv_done:
  assumes "loop_inv g start stop B ch A0 U stop A"
  shows "closed g start stop A" "A0 \<union> moves g start stop ch B \<subseteq> A" "A \<subseteq> U"
  using assms by (auto simp: loop_inv_def moves_def intro!: closedI)

lemma op_next_cases:
  assumes "seg_ok g start stop" "start \<le> pc" "pc < stop"
  shows "op_next g pc A = pc + 1 \<or>
         (\<exists>k. strip g ! pc = O_PLUS k \<and> op_next g pc A = pc - k \<and> start + k \<le> pc \<and> pc \<in> A \<and> pc - k \<notin> A)"
  using seg_ok_plus [OF assms] by (auto simp: op_next_def split: sop.splits if_splits)

lemma loop_inv_op:
  assumes ok: "seg_ok g start stop" and inv: "loop_inv g start stop B ch A0 U pc A" and "pc < stop"
    and U: "closed g start stop U" "pc \<in> B' \<Longrightarrow> accepts g (strip g ! pc) ch \<Longrightarrow> pc + 1 \<in> U"
    and B: "pc \<in> B \<Longrightarrow> accepts g (strip g ! pc) ch \<Longrightarrow> pc \<in> B'"
  shows "loop_inv g start stop B ch A0 U (op_next g pc A) (op_states g pc B' ch A)"
proof -
  let ?A = "op_states g pc B' ch A"
  have pc: "start \<le> pc" and A: "A0 \<subseteq> A" "A \<subseteq> U"
    using inv by (auto simp: loop_inv_def)
  note eps = seg_okD [OF ok pc \<open>pc < stop\<close>]
  have fin: "eps g q \<subseteq> A" if "start \<le> q" "q < pc" "q \<in> A" for q
    using that inv unfolding loop_inv_def by blast
  have acc: "q + 1 \<in> A" if "start \<le> q" "q < pc" "q \<in> B" "accepts g (strip g ! q) ch" for q
    using that inv unfolding loop_inv_def by blast
  have ext: "A \<subseteq> ?A"
    unfolding op_states_def by blast
  have "eps g pc \<subseteq> U" if "pc \<in> A"
    using closedD [OF U(1) _ pc \<open>pc < stop\<close>] that A(2) by blast
  then have sub: "?A \<subseteq> U" and A0: "A0 \<subseteq> ?A"
    using A U(2) by (auto simp: op_states_def)
  from op_next_cases [OF ok pc \<open>pc < stop\<close>, of A] show ?thesis
  proof
    assume onward: "op_next g pc A = pc + 1"
    have new: "q \<in> A" if qA: "q \<in> ?A" "q \<le> pc" for q
    proof (cases "q \<in> A \<or> q \<notin> eps g pc")
      case False
      then obtain k where k: "strip g ! pc = O_PLUS k"
        using eps(3) [of q] qA by auto
      then have "q = pc - k" "pc \<in> A"
        using False qA by (auto simp: eps_def op_states_def split: if_splits)
      then show ?thesis
        using onward k qA(2) by (auto simp: op_next_def split: if_splits)
    qed (use qA in \<open>auto simp: op_states_def split: if_splits\<close>)
    have "eps g q \<subseteq> ?A" if "start \<le> q" "q < pc + 1" "q \<in> ?A" for q
    proof (cases "q = pc")
      case True
      then show ?thesis using new [of q] that(3) by (auto simp: op_states_def)
    next
      case False
      then show ?thesis using fin [of q] new [of q] that ext by auto
    qed
    moreover have "q + 1 \<in> ?A" if "start \<le> q" "q < pc + 1" "q \<in> B" "accepts g (strip g ! q) ch" for q
    proof (cases "q = pc")
      case True
      then show ?thesis using that(3,4) B by (simp add: op_states_def)
    next
      case False
      then show ?thesis using acc [of q] that ext by auto
    qed
    ultimately show ?thesis
      unfolding loop_inv_def onward using pc \<open>pc < stop\<close> A0 sub by simp
  next
    assume "\<exists>k. strip g ! pc = O_PLUS k \<and> op_next g pc A = pc - k \<and> start + k \<le> pc \<and> pc \<in> A \<and> pc - k \<notin> A"
    then obtain k where k: "strip g ! pc = O_PLUS k" "op_next g pc A = pc - k" "start + k \<le> pc" "pc \<in> A"
      by blast
    then have A': "?A = insert (pc + 1) (insert (pc - k) A)"
      by (auto simp: op_states_def eps_def)
    have "eps g q \<subseteq> ?A" if "start \<le> q" "q < pc - k" "q \<in> ?A" for q
    proof -
      have "q < pc" "q \<in> A" using that unfolding A' by auto
      then show ?thesis using fin [of q] that(1) ext by blast
    qed
    moreover have "q + 1 \<in> ?A" if "start \<le> q" "q < pc - k" "q \<in> B" "accepts g (strip g ! q) ch" for q
      using acc [of q] that unfolding A' by auto
    moreover have "start \<le> pc - k" "pc - k \<le> stop"
      using k(3) \<open>pc < stop\<close> by auto
    ultimately show ?thesis
      unfolding loop_inv_def k(2) using A0 sub by simp
  qed
qed

definition unset :: "nat \<Rightarrow> nat \<Rightarrow> nat set \<Rightarrow> nat" where
  "unset start stop A = card ({start..stop} - A)"

lemma op_decreases:
  assumes "seg_ok g start stop" "start \<le> pc" "pc < stop"
  shows "unset start stop (op_states g pc B ch A) < unset start stop A \<or>
         unset start stop (op_states g pc B ch A) = unset start stop A \<and> stop - op_next g pc A < stop - pc"
proof -
  have sub: "{start..stop} - op_states g pc B ch A \<subseteq> {start..stop} - A"
    by (auto simp: op_states_def)
  then have le: "unset start stop (op_states g pc B ch A) \<le> unset start stop A"
    unfolding unset_def by (intro card_mono) auto
  from op_next_cases [OF assms, of A] show ?thesis
  proof
    assume "op_next g pc A = pc + 1"
    then have "stop - op_next g pc A < stop - pc"
      using assms by simp
    then show ?thesis using le by linarith
  next
    assume "\<exists>k. strip g ! pc = O_PLUS k \<and> op_next g pc A = pc - k \<and> start + k \<le> pc \<and> pc \<in> A \<and> pc - k \<notin> A"
    then obtain k where k: "strip g ! pc = O_PLUS k" "start + k \<le> pc" "pc \<in> A" "pc - k \<notin> A"
      by blast
    then have "pc - k \<in> {start..stop} - A" "pc - k \<notin> {start..stop} - op_states g pc B ch A"
      using assms by (auto simp: op_states_def eps_def)
    with sub have "{start..stop} - op_states g pc B ch A \<subset> {start..stop} - A"
      by blast
    then show ?thesis
      unfolding unset_def by (simp add: psubset_card_mono)
  qed
qed

context state_set
begin

text \<open>
  The loop ends, with a closed set that contains what was there and what the character leads to.
  When the set before is the one that is being built, the moves of states that were added may have
  been made as well.
\<close>

lemma step_loop_states:
  assumes seg: "seg_ok g start stop" "stop < n" and bef: "\<forall>b. bef = Some b \<longrightarrow> ok b"
    and U: "closed g start stop U"
      "\<And>pc A. \<lbrakk>A0 \<subseteq> A; A \<subseteq> U; pc \<in> before_states ops n bef A; start \<le> pc; pc < stop; accepts g (strip g ! pc) ch\<rbrakk>
              \<Longrightarrow> pc + 1 \<in> U"
    and B: "\<And>pc A. \<lbrakk>A0 \<subseteq> A; A \<subseteq> U; pc \<in> B; start \<le> pc; pc < stop; accepts g (strip g ! pc) ch\<rbrakk>
                   \<Longrightarrow> pc \<in> before_states ops n bef A"
  shows "\<lbrakk>ok a; loop_inv g start stop B ch A0 U pc (states_of ops n a)\<rbrakk> \<Longrightarrow>
         \<exists>r. step_loop ops g stop bef ch pc a = Some r \<and> ok r \<and> loop_inv g start stop B ch A0 U stop (states_of ops n r)"
proof (induction "unset start stop (states_of ops n a) * (stop + 1) + (stop - pc)" arbitrary: a pc
         rule: less_induct)
  case (less a pc)
  let ?A = "states_of ops n a" and ?s = "step_op ops g pc bef ch a"
  show ?case
  proof (cases "pc = stop")
    case True
    then show ?thesis using less by (simp add: step_loop.simps)
  next
    case False
    then have pc: "start \<le> pc" "pc < stop" and A: "A0 \<subseteq> ?A" "?A \<subseteq> U"
      using less(3) by (auto simp: loop_inv_def)
    let ?B = "before_states ops n bef ?A"
    have s: "ok (fst ?s)" "states_of ops n (fst ?s) = op_states g pc ?B ch ?A" "snd ?s = op_next g pc ?A"
      using step_op_states [OF seg(1) pc seg(2) less(2) bef] by auto
    have "unset start stop (states_of ops n (fst ?s)) * (stop + 1) + (stop - snd ?s) <
          unset start stop ?A * (stop + 1) + (stop - pc)"
      unfolding s by (rule lex_weight [OF op_decreases [OF seg(1) pc]])
    moreover have "loop_inv g start stop B ch A0 U (op_next g pc ?A) (op_states g pc ?B ch ?A)"
      by (rule loop_inv_op [OF seg(1) less(3) pc(2) U(1) U(2) [OF A _ pc] B [OF A _ pc]])
    ultimately show ?thesis
      using less(1) [of "fst ?s" "snd ?s"] False by (subst step_loop.simps) (simp add: s)
  qed
qed

lemma loop_inv_start: "seg_ok g start stop \<Longrightarrow> A \<subseteq> U \<Longrightarrow> loop_inv g start stop B ch A U start A"
  by (simp add: loop_inv_def seg_ok_def)

lemma step_states:
  assumes "seg_ok g start stop" "stop < n" "ok b" "ok a"
  obtains r where "step ops g start stop (Some b) ch a = Some r" "ok r"
    "states_of ops n r = closure g start stop (states_of ops n a \<union> moves g start stop ch (states_of ops n b))"
proof -
  let ?A = "states_of ops n a" and ?B = "states_of ops n b"
  let ?X = "?A \<union> moves g start stop ch ?B"
  have X: "?X \<subseteq> closure g start stop ?X"
    by (rule closure_extensive)
  then have inv: "loop_inv g start stop ?B ch ?A (closure g start stop ?X) start ?A"
    by (intro loop_inv_start [OF assms(1)]) blast
  have "\<exists>r. step_loop ops g stop (Some b) ch start a = Some r \<and> ok r \<and>
            loop_inv g start stop ?B ch ?A (closure g start stop ?X) stop (states_of ops n r)"
  proof (rule step_loop_states [OF assms(1,2) _ closed_closure _ _ assms(4) inv])
    fix pc A
    assume pc: "start \<le> pc" "pc < stop" "accepts g (strip g ! pc) ch"
    show "pc + 1 \<in> closure g start stop ?X" if "pc \<in> before_states ops n (Some b) A"
      using that X pc unfolding moves_def before_states_def by auto
  qed (use assms(3) in \<open>simp_all add: before_states_def\<close>)
  then obtain r where r: "step ops g start stop (Some b) ch a = Some r" "ok r"
    "loop_inv g start stop ?B ch ?A (closure g start stop ?X) stop (states_of ops n r)"
    unfolding step_def by blast
  note fin = loop_inv_done [OF r(3)]
  have "closure g start stop ?X \<subseteq> states_of ops n r"
    using closure_mono [OF fin(2), of g start stop] fin(1) by (simp add: closed_def)
  with fin(3) have "states_of ops n r = closure g start stop ?X"
    by (rule equalityI)
  then show ?thesis
    by (rule that [OF r(1,2)])
qed

text \<open>A call with one variable for both sets.\<close>

lemma step_same_states:
  assumes "seg_ok g start stop" "stop < n" "ok a" "states_of ops n a \<subseteq> U" "closed g start stop U"
    "\<And>pc. \<lbrakk>pc \<in> U; start \<le> pc; pc < stop; accepts g (strip g ! pc) ch\<rbrakk> \<Longrightarrow> pc + 1 \<in> U"
  obtains r where "step_same ops g start stop ch a = Some r" "ok r" "closed g start stop (states_of ops n r)"
    "states_of ops n a \<union> moves g start stop ch (states_of ops n a) \<subseteq> states_of ops n r" "states_of ops n r \<subseteq> U"
proof -
  let ?A = "states_of ops n a" and ?b = "if shared ops then None else Some a"
  have before: "?A \<subseteq> before_states ops n ?b A \<and> before_states ops n ?b A \<subseteq> U" if "?A \<subseteq> A" "A \<subseteq> U" for A
    using that assms(4) by (auto simp: before_states_def)
  have "\<exists>r. step_loop ops g stop ?b ch start a = Some r \<and> ok r \<and> loop_inv g start stop ?A ch ?A U stop (states_of ops n r)"
  proof (rule step_loop_states [OF assms(1,2) _ assms(5) _ _ assms(3) loop_inv_start [OF assms(1,4)]])
    show "\<forall>b. ?b = Some b \<longrightarrow> ok b" using assms(3) by simp
  next
    fix pc A
    assume A: "?A \<subseteq> A" "A \<subseteq> U" and pc: "start \<le> pc" "pc < stop" "accepts g (strip g ! pc) ch"
    show "pc + 1 \<in> U" if "pc \<in> before_states ops n ?b A"
      using that before [OF A] assms(6) pc by blast
    show "pc \<in> before_states ops n ?b A" if "pc \<in> ?A"
      using that before [OF A] by blast
  qed
  then obtain r where "step_same ops g start stop ch a = Some r" "ok r"
    and inv: "loop_inv g start stop ?A ch ?A U stop (states_of ops n r)"
    by (auto simp: step_same_def step_def)
  then show ?thesis
    using that loop_inv_done [OF inv] by simp
qed

lemma step_same_nothing:
  assumes "seg_ok g start stop" "stop < n" "ok a"
    "\<And>pc. \<lbrakk>start \<le> pc; pc < stop\<rbrakk> \<Longrightarrow> \<not> accepts g (strip g ! pc) ch"
  obtains r where "step_same ops g start stop ch a = Some r" "ok r"
    "states_of ops n r = closure g start stop (states_of ops n a)"
proof -
  let ?A = "states_of ops n a"
  have acc: "pc + 1 \<in> closure g start stop ?A" if "start \<le> pc" "pc < stop" "accepts g (strip g ! pc) ch" for pc
    using that assms(4) by simp
  obtain r where r: "step_same ops g start stop ch a = Some r" "ok r" "closed g start stop (states_of ops n r)"
    and sub: "?A \<union> moves g start stop ch ?A \<subseteq> states_of ops n r" "states_of ops n r \<subseteq> closure g start stop ?A"
    by (rule step_same_states [OF assms(1-3) closure_extensive closed_closure acc])
  have "?A \<subseteq> states_of ops n r"
    using sub(1) by blast
  then have "closure g start stop ?A \<subseteq> states_of ops n r"
    using closure_mono [of ?A "states_of ops n r" g start stop] r(3) by (simp add: closed_def)
  with sub(2) have "states_of ops n r = closure g start stop ?A"
    by (rule equalityI)
  then show ?thesis
    by (rule that [OF r(1,2)])
qed

end

section \<open>Words and arrays\<close>

text \<open>The small version keeps the states in the bits of a word, as long as they fit.\<close>

definition small_ok :: "nat \<Rightarrow> 'a::len word \<Rightarrow> bool" where
  "small_ok n v \<longleftrightarrow> (\<forall>i. bit v i \<longrightarrow> i < n)"

lemma and_bit_iff: "and v (2 ^ n) \<noteq> 0 \<longleftrightarrow> bit v n" for v :: "'a::len word"
  by (metis and_exp_eq_0_iff_not_bit)

lemma small_isset: "ISSET small_ops v i \<longleftrightarrow> bit v i"
  by (simp add: small_ops_def and_bit_iff)

lemma small_fwd_bit: "bit (FWD small_ops pc d s k) i \<longleftrightarrow> bit d i \<or> i = pc + k \<and> i < LENGTH('a) \<and> bit s pc"
  for d s :: "'a::len word"
  by (auto simp: small_ops_def bit_simps dest: bit_imp_le_length)

lemma small_back_bit: "k \<le> pc \<Longrightarrow> bit (BACK small_ops pc d s k) i \<longleftrightarrow> bit d i \<or> i = pc - k \<and> bit s pc"
  for d s :: "'a::len word"
  by (auto simp: small_ops_def bit_simps dest: bit_imp_le_length)

lemma small_issetback: "k \<le> pc \<Longrightarrow> pc < LENGTH('a) \<Longrightarrow> ISSETBACK small_ops pc v k \<longleftrightarrow> bit v (pc - k)"
  for v :: "'a::len word"
proof -
  assume "k \<le> pc" "pc < LENGTH('a)"
  then have "drop_bit k (push_bit pc (1 :: 'a word)) = push_bit (pc - k) 1"
    by (intro bit_word_eqI) (auto simp: bit_simps)
  then show ?thesis by (simp add: small_ops_def and_bit_iff)
qed

interpretation small: state_set "small_ops :: 'a::len word state_ops" "min k LENGTH('a)" "small_ok (min k LENGTH('a))"
  for k
proof (unfold_locales, goal_cases)
  case (5 v w)
  have "v = w \<longleftrightarrow> (\<forall>i < LENGTH('a). bit v i = bit w i)"
    by (auto intro: bit_word_eqI)
  then show ?case
    using 5 unfolding small_ok_def states_of_def small_isset by (auto simp: small_ops_def set_eq_iff)
next
  case (10 v pc k)
  then show ?case by (auto simp: states_of_def small_isset small_issetback)
qed (auto simp: small_ok_def states_of_def small_isset small_fwd_bit small_back_bit,
     auto simp: small_ops_def bit_simps)

text \<open>The large version has a byte for each state.\<close>

interpretation large: state_set large_ops n "\<lambda>v. length v = n" for n
  by unfold_locales (auto simp: states_of_def large_ops_def nth_list_update list_eq_iff_nth_eq split: if_splits)

end
