(* ===== verification/RegSearch.thy ===== *)
theory RegSearch
  imports RegStep
begin

text \<open>
  What \<open>slow\<close>, \<open>fast\<close> and the loop of \<open>matcher\<close> find, in terms of the runs of a strip over a
  string.
\<close>

section \<open>Runs\<close>

text \<open>The anchors that hold at a position.\<close>

definition anchor :: "re_match \<Rightarrow> sop \<Rightarrow> nat \<Rightarrow> bool" where
  "anchor m s p \<longleftrightarrow> s = OBOL \<and> at_bol m (char_before m p) \<or> s = OEOL \<and> at_eol m (char_here m p)"

text \<open>
  \<open>run m a z pc i q j\<close>: between the operators \<open>a\<close> and \<open>z\<close>, a run can go from operator \<open>pc\<close> at
  position \<open>i\<close> to operator \<open>q\<close> at position \<open>j\<close>.
\<close>

inductive run :: "re_match \<Rightarrow> nat \<Rightarrow> nat \<Rightarrow> nat \<Rightarrow> nat \<Rightarrow> nat \<Rightarrow> nat \<Rightarrow> bool"
  for m :: re_match and a z pc i :: nat where
  run_refl: "run m a z pc i pc i"
| run_eps: "\<lbrakk>run m a z pc i q j; a \<le> q; q < z; r \<in> eps (guts m) q\<rbrakk> \<Longrightarrow> run m a z pc i r j"
| run_anchor: "\<lbrakk>run m a z pc i q j; a \<le> q; q < z; anchor m (strip (guts m) ! q) j\<rbrakk> \<Longrightarrow> run m a z pc i (Suc q) j"
| run_char: "\<lbrakk>run m a z pc i q j; a \<le> q; q < z; j < endp m; accepts (guts m) (strip (guts m) ! q) (Ch (str m ! j))\<rbrakk>
             \<Longrightarrow> run m a z pc i (Suc q) (Suc j)"

lemma run_mono: "run m a z pc i q j \<Longrightarrow> i \<le> j"
  by (induction rule: run.induct) auto

lemma run_bound: "run m a z pc i q j \<Longrightarrow> i \<le> endp m \<Longrightarrow> j \<le> endp m"
  by (induction rule: run.induct) auto

lemma run_trans: "run m a z q j r k \<Longrightarrow> run m a z pc i q j \<Longrightarrow> run m a z pc i r k"
  by (induction rule: run.induct) (auto intro: run.intros)

text \<open>A run over a part of the string passes every position of that part.\<close>

lemma run_split:
  assumes "run m a z pc i r k" "i \<le> j" "j \<le> k"
  shows "\<exists>q. run m a z pc i q j \<and> run m a z q j r k"
  using assms
proof (induction rule: run.induct)
  case run_refl
  then show ?case by (auto intro: run.run_refl)
next
  case (run_eps q k r)
  then show ?case using run.run_eps by blast
next
  case (run_anchor q k)
  then show ?case using run.run_anchor by blast
next
  case (run_char q k)
  show ?case
  proof (cases "j = Suc k")
    case True
    then show ?thesis using run.run_char [OF run_char(1-5)] by (auto intro: run.run_refl)
  next
    case False
    then obtain q' where "run m a z pc i q' j" "run m a z q' j q k"
      using run_char by auto
    then show ?thesis using run.run_char [of m a z q' j q k] run_char by blast
  qed
qed

text \<open>The states that can be reached at one position.\<close>

inductive_set aclosure :: "re_match \<Rightarrow> nat \<Rightarrow> nat \<Rightarrow> nat \<Rightarrow> nat set \<Rightarrow> nat set"
  for m :: re_match and a z p :: nat and X :: "nat set" where
  a_base: "q \<in> X \<Longrightarrow> q \<in> aclosure m a z p X"
| a_eps: "\<lbrakk>q \<in> aclosure m a z p X; a \<le> q; q < z; r \<in> eps (guts m) q\<rbrakk> \<Longrightarrow> r \<in> aclosure m a z p X"
| a_anchor: "\<lbrakk>q \<in> aclosure m a z p X; a \<le> q; q < z; anchor m (strip (guts m) ! q) p\<rbrakk> \<Longrightarrow> Suc q \<in> aclosure m a z p X"

lemma run_aclosure: "run m a z x p q j \<Longrightarrow> j = p \<Longrightarrow> x \<in> X \<Longrightarrow> q \<in> aclosure m a z p X"
proof (induction rule: run.induct)
  case (run_char q j)
  then show ?case using run_mono [of m a z x p q j] by simp
qed (auto intro: aclosure.intros)

lemma aclosure_run: "q \<in> aclosure m a z p X \<longleftrightarrow> (\<exists>x\<in>X. run m a z x p q p)"
proof
  assume "q \<in> aclosure m a z p X"
  then show "\<exists>x\<in>X. run m a z x p q p"
    by induction (auto intro: run.intros)
next
  assume "\<exists>x\<in>X. run m a z x p q p"
  then show "q \<in> aclosure m a z p X"
    using run_aclosure by blast
qed

text \<open>The states a run from one start can be in, and the states runs from any start can be in.\<close>

definition reached :: "re_match \<Rightarrow> nat \<Rightarrow> nat \<Rightarrow> nat \<Rightarrow> nat \<Rightarrow> nat set" where
  "reached m a z s p = {q. run m a z a s q p}"

definition pending :: "re_match \<Rightarrow> nat \<Rightarrow> nat \<Rightarrow> nat \<Rightarrow> nat \<Rightarrow> nat set" where
  "pending m a z s p = {q. \<exists>i. s \<le> i \<and> i \<le> p \<and> run m a z a i q p}"

lemma run_last_char:
  assumes "run m a z pc i q k" "k = Suc p" "i \<le> p"
  shows "\<exists>r. run m a z pc i r p \<and> a \<le> r \<and> r < z \<and> p < endp m \<and>
             accepts (guts m) (strip (guts m) ! r) (Ch (str m ! p)) \<and> run m a z (Suc r) (Suc p) q (Suc p)"
  using assms
proof (induction rule: run.induct)
  case (run_eps q k r)
  then show ?case by (metis run.run_eps)
next
  case (run_anchor q k)
  then show ?case by (metis run.run_anchor)
next
  case (run_char q k)
  then show ?case by (auto intro: run.run_refl)
qed simp

lemma aclosure_mono: "X \<subseteq> Y \<Longrightarrow> aclosure m a z p X \<subseteq> aclosure m a z p Y"
  unfolding aclosure_run subset_iff by blast

lemma aclosure_closure: "aclosure m a z p (closure (guts m) a z X) = aclosure m a z p X"
proof
  show "aclosure m a z p (closure (guts m) a z X) \<subseteq> aclosure m a z p X"
  proof
    fix q
    assume "q \<in> aclosure m a z p (closure (guts m) a z X)"
    then show "q \<in> aclosure m a z p X"
    proof induction
      case (a_base q)
      then show ?case by induction (auto intro: aclosure.intros)
    qed (auto intro: aclosure.intros)
  qed
  show "aclosure m a z p X \<subseteq> aclosure m a z p (closure (guts m) a z X)"
    using closure_extensive by (intro aclosure_mono)
qed

lemma reached_start: "reached m a z s s = aclosure m a z s {a}"
  by (auto simp: reached_def aclosure_run)

lemma reached_Suc:
  assumes "s \<le> p" "p < endp m"
  shows "reached m a z s (Suc p) =
         aclosure m a z (Suc p) (moves (guts m) a z (Ch (str m ! p)) (reached m a z s p))"
proof (intro set_eqI iffI)
  fix q
  assume "q \<in> reached m a z s (Suc p)"
  then show "q \<in> aclosure m a z (Suc p) (moves (guts m) a z (Ch (str m ! p)) (reached m a z s p))"
    using run_last_char [OF _ refl assms(1)] unfolding reached_def aclosure_run moves_def by fastforce
next
  fix q
  assume "q \<in> aclosure m a z (Suc p) (moves (guts m) a z (Ch (str m ! p)) (reached m a z s p))"
  then show "q \<in> reached m a z s (Suc p)"
    using assms unfolding reached_def aclosure_run moves_def by (auto intro: run_trans run_char)
qed

lemma pending_start: "pending m a z s s = aclosure m a z s {a}"
  by (auto simp: pending_def aclosure_run)

lemma pending_reached: "pending m a z s p = (\<Union>i\<in>{s..p}. reached m a z i p)"
  by (auto simp: pending_def reached_def)

lemma pending_Suc:
  assumes "s \<le> p" "p < endp m"
  shows "pending m a z s (Suc p) =
         aclosure m a z (Suc p) ({a} \<union> moves (guts m) a z (Ch (str m ! p)) (pending m a z s p))"
proof -
  let ?moves = "moves (guts m) a z (Ch (str m ! p))"
  have "{s..Suc p} = insert (Suc p) {s..p}"
    using assms by auto
  then have "pending m a z s (Suc p) =
        aclosure m a z (Suc p) {a} \<union> (\<Union>i\<in>{s..p}. aclosure m a z (Suc p) (?moves (reached m a z i p)))"
    using assms by (simp add: pending_reached reached_start reached_Suc)
  also have "\<dots> = aclosure m a z (Suc p) ({a} \<union> (\<Union>i\<in>{s..p}. ?moves (reached m a z i p)))"
    by (auto simp: aclosure_run)
  also have "(\<Union>i\<in>{s..p}. ?moves (reached m a z i p)) = ?moves (pending m a z s p)"
    by (auto simp: pending_reached moves_def)
  finally show ?thesis .
qed

section \<open>The searches\<close>

text \<open>What the searches rely on between two characters.\<close>

definition between_ok :: "'st state_ops \<Rightarrow> ('st \<Rightarrow> bool) \<Rightarrow> re_match \<Rightarrow> nat \<Rightarrow> nat \<Rightarrow> bool" where
  "between_ok ops ok m a z \<longleftrightarrow>
     (\<forall>st p. ok st \<longrightarrow> beginp m \<le> p \<longrightarrow> p \<le> endp m \<longrightarrow>
        states_of ops (nstates (guts m)) st = closure (guts m) a z (states_of ops (nstates (guts m)) st) \<longrightarrow>
        (\<exists>r. step_between ops m a z (char_before m p) (char_here m p) st = Some r \<and> ok r \<and>
             states_of ops (nstates (guts m)) r = aclosure m a z p (states_of ops (nstates (guts m)) st)))"

definition searchable :: "'st state_ops \<Rightarrow> ('st \<Rightarrow> bool) \<Rightarrow> re_match \<Rightarrow> nat \<Rightarrow> nat \<Rightarrow> bool" where
  "searchable ops ok m a z \<longleftrightarrow>
     seg_ok (guts m) a z \<and> z < nstates (guts m) \<and> beginp m \<le> endp m \<and> between_ok ops ok m a z"

text \<open>The last position before a bound where a run can end.\<close>

definition is_longest :: "(nat \<Rightarrow> bool) \<Rightarrow> nat \<Rightarrow> nat \<Rightarrow> nat option \<Rightarrow> bool" where
  "is_longest P lo hi r \<longleftrightarrow>
     (case r of
        None \<Rightarrow> (\<forall>j. lo \<le> j \<longrightarrow> j < hi \<longrightarrow> \<not> P j)
      | Some e \<Rightarrow> lo \<le> e \<and> e < hi \<and> P e \<and> (\<forall>j. e < j \<longrightarrow> j < hi \<longrightarrow> \<not> P j))"

lemma is_longest_step:
  "is_longest P lo p r \<Longrightarrow> lo \<le> p \<Longrightarrow> is_longest P lo (Suc p) (if P p then Some p else r)"
  by (auto simp: is_longest_def less_Suc_eq split: option.splits)

lemma is_longest_none_left:
  "is_longest P lo p r \<Longrightarrow> p \<le> hi \<Longrightarrow> \<forall>j. p \<le> j \<longrightarrow> j < hi \<longrightarrow> \<not> P j \<Longrightarrow> is_longest P lo hi r"
  by (auto simp: is_longest_def split: option.splits)

lemma reached_empty:
  assumes "reached m a z s p = {}" "s \<le> p" "p \<le> j"
  shows "reached m a z s j = {}"
  using assms run_split [of m a z a s _ j p] unfolding reached_def by blast

lemma char_before_Suc: "beginp m \<le> p \<Longrightarrow> p < endp m \<Longrightarrow> char_before m (Suc p) = char_here m p"
  by (simp add: char_before_def char_here_def)

context state_set
begin

lemma slow_loop_correct:
  assumes "searchable ops ok m a z" and n: "nstates (guts m) = n" and s: "beginp m \<le> s"
  shows "\<lbrakk>ok st; states_of ops n st = closure (guts m) a z (states_of ops n st);
          aclosure m a z p (states_of ops n st) = reached m a z s p; s \<le> p; p + k \<le> endp m;
          is_longest (\<lambda>j. z \<in> reached m a z s j) s p r0\<rbrakk> \<Longrightarrow>
         \<exists>r. slow_loop ops m a z k p (char_before m p) st r0 = Some r \<and>
             is_longest (\<lambda>j. z \<in> reached m a z s j) s (Suc (p + k)) r"
proof (induction k arbitrary: p st r0)
  case (0 p st r0)
  obtain st1 where st1: "step_between ops m a z (char_before m p) (char_here m p) st = Some st1" "ok st1"
    "states_of ops n st1 = reached m a z s p"
    using assms 0 unfolding searchable_def between_ok_def by (metis add_0_right le_trans)
  have "ISSET ops st1 z \<longleftrightarrow> z \<in> reached m a z s p"
    using assms st1(3) by (auto simp: states_of_def searchable_def)
  then show ?case
    using st1 is_longest_step [OF 0(6,4)] by (subst slow_loop.simps) (auto simp: Let_def)
next
  case (Suc k p st r0)
  obtain st1 where st1: "step_between ops m a z (char_before m p) (char_here m p) st = Some st1" "ok st1"
    "states_of ops n st1 = reached m a z s p"
    using assms Suc unfolding searchable_def between_ok_def by (metis add_leD1 le_trans)
  have isset: "ISSET ops st1 z \<longleftrightarrow> z \<in> reached m a z s p"
    using assms st1(3) by (auto simp: states_of_def searchable_def)
  define r1 where "r1 = (if ISSET ops st1 z then Some p else r0)"
  have r1: "is_longest (\<lambda>j. z \<in> reached m a z s j) s (Suc p) r1"
    using is_longest_step [OF Suc(7,5)] by (simp add: r1_def isset)
  have eq: "EQ ops st1 (CLEAR ops n) \<longleftrightarrow> reached m a z s p = {}"
    using eq_states [OF st1(2) clear_ok] st1(3) by simp
  have here: "char_here m p = Some (str m ! p)"
    using Suc(6) by (simp add: char_here_def)
  obtain st2 where st2: "step ops (guts m) a z (Some st1) (Ch (str m ! p)) (CLEAR ops n) = Some st2" "ok st2"
    "states_of ops n st2 = closure (guts m) a z (moves (guts m) a z (Ch (str m ! p)) (reached m a z s p))"
    using step_states [OF _ _ st1(2) clear_ok, of "guts m" a z "Ch (str m ! p)"] assms st1(3)
    by (auto simp: searchable_def)
  have "aclosure m a z (Suc p) (states_of ops n st2) = reached m a z s (Suc p)"
    using reached_Suc [of s p m a z] Suc(5,6) by (simp add: st2(3) aclosure_closure)
  from Suc.IH [OF st2(2) _ this _ _ r1] Suc(5,6) obtain r where
    r: "slow_loop ops m a z k (Suc p) (char_before m (Suc p)) st2 r1 = Some r"
      "is_longest (\<lambda>j. z \<in> reached m a z s j) s (Suc (Suc p + k)) r"
    by (auto simp: st2(3))
  have "is_longest (\<lambda>j. z \<in> reached m a z s j) s (Suc (p + Suc k)) r1" if "reached m a z s p = {}"
    using is_longest_none_left [OF r1] reached_empty [OF that Suc(5)] by auto
  moreover have "char_before m (Suc p) = Some (str m ! p)"
    using char_before_Suc [of m p] here s Suc(5,6) by simp
  ultimately show ?case
    using r st1(1) st2(1) n here by (subst slow_loop.simps) (auto simp: Let_def eq r1_def [symmetric])
qed

lemma start_states:
  assumes "searchable ops ok m a z" "nstates (guts m) = n"
  obtains st where "step_same ops (guts m) a z NOTHING (SET1 ops (CLEAR ops n) a) = Some st" "ok st"
    "states_of ops n st = closure (guts m) a z {a}"
proof -
  have ok: "ok (SET1 ops (CLEAR ops n) a)" "states_of ops n (SET1 ops (CLEAR ops n) a) = {a}"
    and seg: "seg_ok (guts m) a z" "z < n"
    using assms by (auto simp: searchable_def seg_ok_def)
  have "\<not> accepts (guts m) t NOTHING" for t
    by (cases t) auto
  then show ?thesis
    using step_same_nothing [OF seg ok(1), of NOTHING] that unfolding ok(2) by blast
qed

theorem slow_correct:
  assumes "searchable ops ok m a z" "nstates (guts m) = n" "beginp m \<le> s" "s \<le> stop" "stop \<le> endp m"
  shows "\<exists>r. slow ops m s stop a z = Some r \<and> is_longest (\<lambda>j. run m a z a s z j) s (Suc stop) r"
proof -
  obtain st where st: "step_same ops (guts m) a z NOTHING (SET1 ops (CLEAR ops n) a) = Some st" "ok st"
    "states_of ops n st = closure (guts m) a z {a}"
    using start_states [OF assms(1,2)] .
  have "is_longest (\<lambda>j. z \<in> reached m a z s j) s s None"
    by (simp add: is_longest_def)
  from slow_loop_correct [OF assms(1-3) st(2) _ _ _ _ this, of "stop - s"] show ?thesis
    using st assms by (simp add: aclosure_closure reached_start slow_def) (simp add: reached_def)
qed

end

text \<open>A position where a run that starts there can be in every state that any run is in.\<close>

definition cold :: "re_match \<Rightarrow> nat \<Rightarrow> nat \<Rightarrow> nat \<Rightarrow> nat \<Rightarrow> bool" where
  "cold m a z s c \<longleftrightarrow> s \<le> c \<and> pending m a z s c = reached m a z c c"

text \<open>The outcome of \<open>fast\<close>, for a search up to \<open>stop\<close>.\<close>

definition fast_found :: "re_match \<Rightarrow> nat \<Rightarrow> nat \<Rightarrow> nat \<Rightarrow> nat \<Rightarrow> nat option \<Rightarrow> nat \<Rightarrow> bool" where
  "fast_found m a z s stop e c \<longleftrightarrow>
     cold m a z s c \<and>
     (case e of
        None \<Rightarrow> (\<forall>j. s \<le> j \<longrightarrow> j \<le> stop \<longrightarrow> z \<notin> pending m a z s j)
      | Some e' \<Rightarrow> (\<exists>j. e' = Suc j \<and> c \<le> j \<and> j \<le> stop \<and> z \<in> pending m a z s j \<and>
                       (\<forall>i. s \<le> i \<longrightarrow> i < j \<longrightarrow> z \<notin> pending m a z s i)))"

context state_set
begin

lemma fast_loop_correct:
  assumes "searchable ops ok m a z" and n: "nstates (guts m) = n" and s: "beginp m \<le> s"
    and fresh: "ok fresh" "states_of ops n fresh = closure (guts m) a z {a}"
  shows "\<lbrakk>ok st; states_of ops n st = closure (guts m) a z (states_of ops n st);
          aclosure m a z p (states_of ops n st) = pending m a z s p; s \<le> p; p + k \<le> endp m;
          \<forall>i. s \<le> i \<longrightarrow> i < p \<longrightarrow> z \<notin> pending m a z s i;
          (\<exists>c. c0 = Some c \<and> c \<le> p \<and> cold m a z s c) \<or> states_of ops n st = closure (guts m) a z {a}\<rbrakk> \<Longrightarrow>
         \<exists>e c. fast_loop ops m a z fresh k p (char_before m p) st c0 = Some (e, Some c) \<and>
               fast_found m a z s (p + k) e c"
proof (induction k arbitrary: p st c0)
  case (0 p st c0)
  obtain st1 where st1: "step_between ops m a z (char_before m p) (char_here m p) st = Some st1" "ok st1"
    "states_of ops n st1 = pending m a z s p"
    using assms 0 unfolding searchable_def between_ok_def by (metis add_0_right le_trans)
  have isset: "ISSET ops st1 z \<longleftrightarrow> z \<in> pending m a z s p"
    using assms st1(3) by (auto simp: states_of_def searchable_def)
  obtain c where c: "(if EQ ops st fresh then Some p else c0) = Some c" "c \<le> p" "cold m a z s c"
    using 0 eq_states [OF 0(1) fresh(1)] fresh(2) unfolding cold_def reached_start
    by (cases "EQ ops st fresh") (auto simp: aclosure_closure)
  show ?case
    using st1 isset c 0(4,6) unfolding fast_found_def
    by (subst fast_loop.simps) (auto simp: Let_def le_less)
next
  case (Suc k p st c0)
  obtain st1 where st1: "step_between ops m a z (char_before m p) (char_here m p) st = Some st1" "ok st1"
    "states_of ops n st1 = pending m a z s p"
    using assms Suc unfolding searchable_def between_ok_def by (metis add_leD1 le_trans)
  have isset: "ISSET ops st1 z \<longleftrightarrow> z \<in> pending m a z s p"
    using assms st1(3) by (auto simp: states_of_def searchable_def)
  obtain c where c: "(if EQ ops st fresh then Some p else c0) = Some c" "c \<le> p" "cold m a z s c"
    using Suc(2-) eq_states [OF Suc(2) fresh(1)] fresh(2) unfolding cold_def reached_start
    by (cases "EQ ops st fresh") (auto simp: aclosure_closure)
  have here: "char_here m p = Some (str m ! p)" and before: "char_before m (Suc p) = Some (str m ! p)"
    using char_before_Suc [of m p] Suc(5,6) s by (simp_all add: char_here_def)
  obtain st2 where st2: "step ops (guts m) a z (Some st1) (Ch (str m ! p)) fresh = Some st2" "ok st2"
    "states_of ops n st2 = closure (guts m) a z ({a} \<union> moves (guts m) a z (Ch (str m ! p)) (pending m a z s p))"
    using step_states [OF _ _ st1(2) fresh(1), of "guts m" a z "Ch (str m ! p)"] assms st1(3)
    unfolding fresh(2) closure_union_closed by (auto simp: searchable_def)
  have ac: "aclosure m a z (Suc p) (states_of ops n st2) = pending m a z s (Suc p)"
    using pending_Suc [of s p m a z] Suc(5,6) by (simp add: st2(3) aclosure_closure)
  show ?case
  proof (cases "z \<in> pending m a z s p")
    case True
    then show ?thesis
      using st1(1) isset c Suc(7) unfolding fast_found_def by (subst fast_loop.simps) (auto simp: Let_def)
  next
    case False
    then have "\<forall>i. s \<le> i \<longrightarrow> i < Suc p \<longrightarrow> z \<notin> pending m a z s i"
      using Suc(7) by (auto simp: less_Suc_eq)
    from Suc.IH [OF st2(2) _ ac _ _ this, of "Some c"] show ?thesis
      using Suc(5,6) c False st1(1) st2(1) isset here before
      by (subst fast_loop.simps) (auto simp: Let_def st2(3))
  qed
qed

theorem fast_correct:
  assumes "searchable ops ok m a z" "nstates (guts m) = n" "beginp m \<le> s" "s \<le> stop" "stop \<le> endp m"
  shows "\<exists>e c. fast ops m s stop a z = Some (e, Some c) \<and> fast_found m a z s stop e c"
proof -
  obtain st where st: "step_same ops (guts m) a z NOTHING (SET1 ops (CLEAR ops n) a) = Some st" "ok st"
    "states_of ops n st = closure (guts m) a z {a}"
    using start_states [OF assms(1,2)] .
  from fast_loop_correct [OF assms(1-3) st(2,3) st(2), of s "stop - s" None] show ?thesis
    using st assms by (simp add: aclosure_closure pending_start fast_def)
qed

end

section \<open>The matcher\<close>

text \<open>A match of the whole expression.\<close>

definition matches :: "re_match \<Rightarrow> nat \<Rightarrow> nat \<Rightarrow> bool" where
  "matches m i j \<longleftrightarrow> run m (gf (guts m)) (gl (guts m)) (gf (guts m)) i (gl (guts m)) j"

text \<open>
  What is reported: a match, the longest one from its start, and such that no match that starts
  earlier ends later; each match that starts earlier can also start here.
\<close>

definition reported :: "re_match \<Rightarrow> nat \<Rightarrow> nat \<Rightarrow> nat \<Rightarrow> nat \<Rightarrow> bool" where
  "reported m s stop i j \<longleftrightarrow>
     s \<le> i \<and> j \<le> stop \<and> matches m i j \<and>
     (\<forall>j'. matches m i j' \<longrightarrow> j' \<le> stop \<longrightarrow> j' \<le> j) \<and>
     (\<forall>i' j'. s \<le> i' \<longrightarrow> i' < i \<longrightarrow> j' \<le> stop \<longrightarrow> matches m i' j' \<longrightarrow> matches m i j')"

definition unmatched :: "re_match \<Rightarrow> nat \<Rightarrow> nat \<Rightarrow> bool" where
  "unmatched m s stop \<longleftrightarrow> (\<forall>i j. s \<le> i \<longrightarrow> j \<le> stop \<longrightarrow> \<not> matches m i j)"

lemma matches_le: "matches m i j \<Longrightarrow> i \<le> j"
  by (simp add: matches_def run_mono)

text \<open>The first match from a position on, and the longest one there.\<close>

definition first_match :: "re_match \<Rightarrow> nat \<Rightarrow> nat \<Rightarrow> nat \<Rightarrow> nat \<Rightarrow> bool" where
  "first_match m c stop i j \<longleftrightarrow>
     c \<le> i \<and> j \<le> stop \<and> matches m i j \<and>
     (\<forall>j'. matches m i j' \<longrightarrow> j' \<le> stop \<longrightarrow> j' \<le> j) \<and>
     (\<forall>i' j'. c \<le> i' \<longrightarrow> i' < i \<longrightarrow> j' \<le> stop \<longrightarrow> \<not> matches m i' j')"

lemma first_match_here:
  assumes "is_longest (matches m c) c (Suc stop) (Some e)"
  shows "first_match m c stop c e"
  using assms by (auto simp: first_match_def is_longest_def less_Suc_eq_le) (meson not_le)

lemma first_match_later:
  assumes "is_longest (matches m c) c (Suc stop) None" "first_match m (Suc c) stop i j"
  shows "first_match m c stop i j"
proof -
  have "\<not> matches m i' j'" if "c \<le> i'" "i' < i" "j' \<le> stop" for i' j'
  proof (cases "i' = c")
    case True
    then show ?thesis
      using assms(1) that matches_le [of m c j'] by (auto simp: is_longest_def)
  qed (use assms(2) that in \<open>simp add: first_match_def\<close>)
  then show ?thesis
    using assms(2) by (simp add: first_match_def)
qed

context state_set
begin

lemma find_start_correct:
  assumes "searchable ops ok m (gf (guts m)) (gl (guts m))" "nstates (guts m) = n" "stop \<le> endp m"
    "j \<le> stop" "matches m i j"
  shows "\<lbrakk>beginp m \<le> c; c \<le> i\<rbrakk> \<Longrightarrow> \<exists>i' j'. find_start ops m stop c = Some (i', j') \<and> first_match m c stop i' j'"
proof (induction "i - c" arbitrary: c rule: less_induct)
  case (less c)
  have "i \<le> stop"
    using matches_le [OF assms(5)] assms(4) by simp
  then have "c \<le> stop"
    using less(3) by simp
  then obtain r where r: "slow ops m c stop (gf (guts m)) (gl (guts m)) = Some r"
    "is_longest (matches m c) c (Suc stop) r"
    using slow_correct [OF assms(1,2) less(2) _ assms(3)] unfolding matches_def by blast
  show ?case
  proof (cases r)
    case (Some e)
    then show ?thesis
      using first_match_here r by (subst find_start.simps) auto
  next
    case None
    then have "c \<noteq> i"
      using r(2) assms(4,5) matches_le by (fastforce simp: is_longest_def)
    then have "c < i" using less(3) by simp
    then obtain i' j' where "find_start ops m stop (Suc c) = Some (i', j')" "first_match m (Suc c) stop i' j'"
      using less(1) [of "Suc c"] less(2) diff_less_mono2 [of c "Suc c" i] by fastforce
    then show ?thesis
      using None r first_match_later \<open>c < i\<close> \<open>i \<le> stop\<close> by (subst find_start.simps) auto
  qed
qed

end

text \<open>From a cold position on, the first match is one to report.\<close>

lemma cold_matches:
  assumes "cold m (gf (guts m)) (gl (guts m)) s c" "s \<le> i" "i \<le> c" "c \<le> j" "matches m i j"
  shows "matches m c j"
proof -
  obtain q where q: "run m (gf (guts m)) (gl (guts m)) (gf (guts m)) i q c" "run m (gf (guts m)) (gl (guts m)) q c (gl (guts m)) j"
    using run_split assms(3-5) unfolding matches_def by blast
  then have "q \<in> reached m (gf (guts m)) (gl (guts m)) c c"
    using assms(1-3) unfolding cold_def by (auto simp: pending_def)
  then show ?thesis
    using q(2) run_trans unfolding reached_def matches_def by blast
qed

text \<open>It is the leftmost one, when no run comes back to where runs start.\<close>

definition no_return :: "re_match \<Rightarrow> nat \<Rightarrow> nat \<Rightarrow> bool" where
  "no_return m a z \<longleftrightarrow> (\<forall>i j q. i < j \<longrightarrow> run m a z a i q j \<longrightarrow> \<not> run m a z a j q j)"

lemma cold_no_return:
  assumes "cold m a z s c" "no_return m a z" "s \<le> i" "i < c" "c \<le> j"
  shows "\<not> run m a z a i z j"
proof
  assume "run m a z a i z j"
  then obtain q where q: "run m a z a i q c"
    using run_split [of m a z a i z j c] assms(4,5) by auto
  then have "run m a z a c q c"
    using assms(1,3,4) unfolding cold_def reached_def pending_def by force
  then show False
    using q assms(2,4) unfolding no_return_def by blast
qed

lemma fast_found_first:
  assumes found: "fast_found m (gf (guts m)) (gl (guts m)) s stop (Some e) c" and first: "first_match m c stop i j"
    and ret: "no_return m (gf (guts m)) (gl (guts m))"
  shows "first_match m s stop i j"
proof -
  obtain k where k: "c \<le> k" "\<forall>i. s \<le> i \<longrightarrow> i < k \<longrightarrow> gl (guts m) \<notin> pending m (gf (guts m)) (gl (guts m)) s i"
    and c: "cold m (gf (guts m)) (gl (guts m)) s c"
    using found unfolding fast_found_def by auto
  have "\<not> matches m i' j'" if i': "s \<le> i'" "i' < i" and j': "j' \<le> stop" for i' j'
  proof
    assume mt: "matches m i' j'"
    then have "s \<le> j'" "gl (guts m) \<in> pending m (gf (guts m)) (gl (guts m)) s j'"
      using i' matches_le [OF mt] by (auto simp: pending_def matches_def)
    then have "c \<le> j'"
      using k by (meson not_le le_trans)
    moreover have "i' < c"
      using first i' j' mt unfolding first_match_def by (meson not_le)
    ultimately show False
      using cold_no_return [OF c ret i'(1)] mt unfolding matches_def by blast
  qed
  then show ?thesis
    using first c unfolding first_match_def cold_def by simp
qed

lemma fast_found_reported:
  assumes found: "fast_found m (gf (guts m)) (gl (guts m)) s stop (Some e) c" and first: "first_match m c stop i j"
  shows "reported m s stop i j"
proof -
  obtain k where k: "c \<le> k" "\<forall>i. s \<le> i \<longrightarrow> i < k \<longrightarrow> gl (guts m) \<notin> pending m (gf (guts m)) (gl (guts m)) s i"
    and c: "cold m (gf (guts m)) (gl (guts m)) s c"
    using found unfolding fast_found_def by auto
  have "matches m i j'" if i': "s \<le> i'" "i' < i" and j': "j' \<le> stop" "matches m i' j'" for i' j'
  proof -
    have "s \<le> j'" "gl (guts m) \<in> pending m (gf (guts m)) (gl (guts m)) s j'"
      using i' j' matches_le [OF j'(2)] by (auto simp: pending_def matches_def)
    then have "c \<le> j'"
      using k by (meson not_le le_trans)
    moreover have "i' < c"
      using first i' j' unfolding first_match_def by (meson not_le)
    ultimately have "matches m c j'"
      using cold_matches [OF c i'(1) _ _ j'(2)] by simp
    moreover from this have "i = c"
      using first j'(1) unfolding first_match_def by (metis le_neq_implies_less order_refl)
    ultimately show ?thesis by simp
  qed
  then show ?thesis
    using first c unfolding reported_def first_match_def cold_def by simp
qed

context state_set
begin

theorem matcher_loop_correct:
  assumes "searchable ops ok m (gf (guts m)) (gl (guts m))" "nstates (guts m) = n" "beginp m \<le> s" "s \<le> stop" "stop \<le> endp m"
    and "\<not> backrefs (guts m)" "nmatch \<le> 1"
  shows "\<exists>r. matcher_loop ops m nmatch s stop = Some r \<and>
             (case r of
                None \<Rightarrow> unmatched m s stop
              | Some (i, j, pm) \<Rightarrow> \<not> unmatched m s stop \<and>
                  (nmatch = 1 \<longrightarrow> reported m s stop i j \<and>
                     (no_return m (gf (guts m)) (gl (guts m)) \<longrightarrow> first_match m s stop i j)))"
proof -
  let ?a = "gf (guts m)" and ?z = "gl (guts m)"
  obtain e c where f: "fast ops m s stop ?a ?z = Some (e, Some c)" "fast_found m ?a ?z s stop e c"
    using fast_correct [OF assms(1-5)] by blast
  show ?thesis
  proof (cases e)
    case None
    then have "unmatched m s stop"
      using f(2) unfolding fast_found_def unmatched_def pending_def
      by (auto simp: matches_def) (meson le_trans run_mono)
    then show ?thesis
      using None f(1) by (subst matcher_loop.simps) simp
  next
    case (Some e')
    then obtain k i where k: "c \<le> k" "k \<le> stop" "s \<le> i" "i \<le> k" "matches m i k"
      using f(2) unfolding fast_found_def pending_def matches_def by auto
    have c: "cold m ?a ?z s c"
      using f(2) unfolding fast_found_def by simp
    have "\<exists>i. c \<le> i \<and> matches m i k"
      using k cold_matches [OF c k(3) _ k(1,5)] by (metis nat_le_linear order_refl)
    then obtain i' j' where "find_start ops m stop c = Some (i', j')" "first_match m c stop i' j'"
      using find_start_correct [OF assms(1,2,5) k(2)] c assms(3) unfolding cold_def by (metis le_trans)
    moreover have "\<not> unmatched m s stop"
      using k by (auto simp: unmatched_def)
    ultimately show ?thesis
      using Some f fast_found_reported [of m s stop e' c] fast_found_first [of m s stop e' c] assms(6,7)
      by (subst matcher_loop.simps) (auto simp: Let_def le_Suc_eq)
  qed
qed

end

end
