(* ===== verification/RegAnchor.thy ===== *)
theory RegAnchor
  imports RegSearch
begin

text \<open>
  Beginnings and ends of lines.  The engine repeats a step for them as often as the expression has
  such anchors, and this is enough to pass all of them.
\<close>

text \<open>The flag between two characters stands for the anchors that hold there.\<close>

lemma accepts_flag:
  assumes "fst (bol_eol_flag m (char_before m p) (char_here m p)) = Some f"
  shows "accepts (guts m) s f \<longleftrightarrow> anchor m s p"
  using assms by (cases s) (auto simp: bol_eol_flag_def anchor_def Let_def split: if_splits)

lemma no_flag:
  assumes "fst (bol_eol_flag m (char_before m p) (char_here m p)) = None"
  shows "\<not> anchor m s p"
  using assms by (auto simp: bol_eol_flag_def anchor_def Let_def split: if_splits)

text \<open>The anchors of a part of the strip that hold at a position.\<close>

definition anchors :: "re_match \<Rightarrow> nat \<Rightarrow> nat \<Rightarrow> nat \<Rightarrow> nat set" where
  "anchors m a z p = {pc. a \<le> pc \<and> pc < z \<and> anchor m (strip (guts m) ! pc) p}"

definition stable :: "re_match \<Rightarrow> nat \<Rightarrow> nat \<Rightarrow> nat \<Rightarrow> nat set \<Rightarrow> bool" where
  "stable m a z p X \<longleftrightarrow> (\<forall>pc\<in>X \<inter> anchors m a z p. Suc pc \<in> X)"

lemma finite_anchors [simp]: "finite (anchors m a z p)"
  by (rule finite_subset [of _ "{..<z}"]) (auto simp: anchors_def)

lemma aclosure_extensive: "X \<subseteq> aclosure m a z p X"
  by (auto intro: aclosure.a_base)

lemma aclosure_closed: "closed (guts m) a z (aclosure m a z p X)"
  by (rule closedI) (auto intro: aclosure.a_eps)

lemma aclosure_least:
  assumes "X \<subseteq> Y" "closed (guts m) a z Y" "stable m a z p Y"
  shows "aclosure m a z p X \<subseteq> Y"
proof
  fix q
  assume "q \<in> aclosure m a z p X"
  then show "q \<in> Y"
  proof induction
    case (a_eps q r)
    then show ?case using closedD [OF assms(2)] by blast
  next
    case (a_anchor q)
    then show ?case using assms(3) by (auto simp: stable_def anchors_def)
  qed (use assms(1) in blast)
qed

lemma aclosure_idem: "aclosure m a z p (aclosure m a z p X) = aclosure m a z p X"
proof
  show "aclosure m a z p (aclosure m a z p X) \<subseteq> aclosure m a z p X"
    by (rule aclosure_least [OF order_refl aclosure_closed]) (auto simp: stable_def anchors_def intro: aclosure.a_anchor)
qed (rule aclosure_extensive)

lemma moves_flag:
  assumes "fst (bol_eol_flag m (char_before m p) (char_here m p)) = Some f"
  shows "moves (guts m) a z f X = Suc ` (X \<inter> anchors m a z p)"
  by (auto simp: moves_def anchors_def accepts_flag [OF assms])

context state_set
begin

text \<open>One step for the anchors.\<close>

lemma step_anchor:
  assumes seg: "seg_ok (guts m) a z" "z < n" and st: "ok st"
    and f: "fst (bol_eol_flag m (char_before m p) (char_here m p)) = Some f"
  obtains r where "step_same ops (guts m) a z f st = Some r" "ok r" "closed (guts m) a z (states_of ops n r)"
    "states_of ops n st \<union> Suc ` (states_of ops n st \<inter> anchors m a z p) \<subseteq> states_of ops n r"
    "states_of ops n r \<subseteq> aclosure m a z p (states_of ops n st)"
proof -
  have acc: "pc + 1 \<in> aclosure m a z p (states_of ops n st)"
    if "pc \<in> aclosure m a z p (states_of ops n st)" "a \<le> pc" "pc < z" "accepts (guts m) (strip (guts m) ! pc) f" for pc
    using that aclosure.a_anchor by (simp add: accepts_flag [OF f])
  obtain r where "step_same ops (guts m) a z f st = Some r" "ok r" "closed (guts m) a z (states_of ops n r)"
    "states_of ops n st \<union> moves (guts m) a z f (states_of ops n st) \<subseteq> states_of ops n r"
    "states_of ops n r \<subseteq> aclosure m a z p (states_of ops n st)"
    by (rule step_same_states [OF seg st aclosure_extensive aclosure_closed acc])
  then show ?thesis
    using that by (simp add: moves_flag [OF f])
qed

text \<open>Every step that is not the last one passes another anchor.\<close>

lemma step_times_anchors:
  assumes seg: "seg_ok (guts m) a z" "z < n"
    and f: "fst (bol_eol_flag m (char_before m p) (char_here m p)) = Some f"
  shows "ok st \<Longrightarrow> closed (guts m) a z (states_of ops n st) \<Longrightarrow>
         \<exists>r. step_times ops (guts m) a z f i st = Some r \<and> ok r \<and> closed (guts m) a z (states_of ops n r) \<and>
             states_of ops n st \<subseteq> states_of ops n r \<and> states_of ops n r \<subseteq> aclosure m a z p (states_of ops n st) \<and>
             (stable m a z p (states_of ops n r) \<or>
              card (states_of ops n st \<inter> anchors m a z p) + i \<le> card (states_of ops n r \<inter> anchors m a z p))"
proof (induction i arbitrary: st)
  case 0
  then show ?case by (simp add: aclosure_extensive)
next
  case (Suc i)
  let ?S = "states_of ops n" and ?an = "anchors m a z p"
  obtain st' where st': "step_same ops (guts m) a z f st = Some st'" "ok st'" "closed (guts m) a z (?S st')"
    and sub: "?S st \<union> Suc ` (?S st \<inter> ?an) \<subseteq> ?S st'" "?S st' \<subseteq> aclosure m a z p (?S st)"
    by (rule step_anchor [OF seg Suc(2) f])
  obtain r where r: "step_times ops (guts m) a z f i st' = Some r" "ok r" "closed (guts m) a z (?S r)"
      "?S st' \<subseteq> ?S r" "?S r \<subseteq> aclosure m a z p (?S st')"
    and more: "stable m a z p (?S r) \<or> card (?S st' \<inter> ?an) + i \<le> card (?S r \<inter> ?an)"
    using Suc.IH [OF st'(2,3)] by blast
  have upper: "?S r \<subseteq> aclosure m a z p (?S st)"
    using r(5) aclosure_mono [OF sub(2), of m a z p] unfolding aclosure_idem by blast
  have "card (?S st \<inter> ?an) < card (?S st' \<inter> ?an)" if "\<not> stable m a z p (?S r)"
  proof -
    have "\<not> stable m a z p (?S st')"
      using that r(4,5) aclosure_least [OF order_refl st'(3)] by (metis subset_antisym order_trans)
    then obtain q where "q \<in> ?S st'" "q \<in> ?an" "Suc q \<notin> ?S st'"
      by (auto simp: stable_def)
    then have "?S st \<inter> ?an \<subset> ?S st' \<inter> ?an"
      using sub(1) by blast
    then show ?thesis by (simp add: psubset_card_mono)
  qed
  with more have "stable m a z p (?S r) \<or> card (?S st \<inter> ?an) + Suc i \<le> card (?S r \<inter> ?an)"
    by linarith
  with st'(1) r upper sub(1) show ?case by auto
qed

lemma step_times_closure:
  assumes seg: "seg_ok (guts m) a z" "z < n"
    and f: "fst (bol_eol_flag m (char_before m p) (char_here m p)) = Some f"
    and st: "ok st" "closed (guts m) a z (states_of ops n st)"
    and i: "card (anchors m a z p) \<le> i"
  obtains r where "step_times ops (guts m) a z f i st = Some r" "ok r"
    "states_of ops n r = aclosure m a z p (states_of ops n st)"
proof -
  let ?S = "states_of ops n" and ?an = "anchors m a z p"
  obtain r where r: "step_times ops (guts m) a z f i st = Some r" "ok r" "closed (guts m) a z (?S r)"
    "?S st \<subseteq> ?S r" "?S r \<subseteq> aclosure m a z p (?S st)"
    "stable m a z p (?S r) \<or> card (?S st \<inter> ?an) + i \<le> card (?S r \<inter> ?an)"
    using step_times_anchors [OF seg f st] by blast
  have "stable m a z p (?S r)"
  proof (rule ccontr)
    assume unstable: "\<not> stable m a z p (?S r)"
    then obtain q where q: "q \<in> ?S r" "q \<in> ?an" "Suc q \<notin> ?S r"
      by (auto simp: stable_def)
    have "card (?S r \<inter> ?an) \<le> card ?an"
      by (simp add: card_mono)
    then have "card (?S st \<inter> ?an) = 0"
      using unstable r(6) i by linarith
    then have "?S st \<inter> ?an = {}" by simp
    then have "stable m a z p (?S st)" by (simp add: stable_def)
    then have "?S r = ?S st"
      using aclosure_least [OF order_refl st(2)] r(4,5) by blast
    then show False using \<open>?S st \<inter> ?an = {}\<close> q by blast
  qed
  then have "aclosure m a z p (?S st) \<subseteq> ?S r"
    by (rule aclosure_least [OF r(4,3)])
  then show ?thesis
    using that r by blast
qed

end

text \<open>Expressions without word boundaries, and with all of their anchors counted.\<close>

definition anchors_counted :: "re_guts \<Rightarrow> nat \<Rightarrow> nat \<Rightarrow> bool" where
  "anchors_counted g a z \<longleftrightarrow>
     card {pc. a \<le> pc \<and> pc < z \<and> strip g ! pc = OBOL} \<le> nbol g \<and>
     card {pc. a \<le> pc \<and> pc < z \<and> strip g ! pc = OEOL} \<le> neol g \<and>
     (\<forall>pc. a \<le> pc \<longrightarrow> pc < z \<longrightarrow> strip g ! pc \<noteq> OBOW \<and> strip g ! pc \<noteq> OEOW)"

lemma anchors_enough:
  assumes "anchors_counted (guts m) a z"
  shows "card (anchors m a z p) \<le> snd (bol_eol_flag m (char_before m p) (char_here m p))"
proof -
  let ?B = "{pc. a \<le> pc \<and> pc < z \<and> strip (guts m) ! pc = OBOL}"
  let ?E = "{pc. a \<le> pc \<and> pc < z \<and> strip (guts m) ! pc = OEOL}"
  have fin: "finite ?B" "finite ?E"
    by (rule finite_subset [of _ "{..<z}"]; auto)+
  have "anchors m a z p \<subseteq> (if at_bol m (char_before m p) then ?B else {}) \<union> (if at_eol m (char_here m p) then ?E else {})"
    by (auto simp: anchors_def anchor_def)
  then have "card (anchors m a z p) \<le>
    card ((if at_bol m (char_before m p) then ?B else {}) \<union> (if at_eol m (char_here m p) then ?E else {}))"
    using fin by (intro card_mono) auto
  also have "\<dots> \<le> card (if at_bol m (char_before m p) then ?B else {}) + card (if at_eol m (char_here m p) then ?E else {})"
    by (rule card_Un_le)
  finally show ?thesis
    using assms by (auto simp: anchors_counted_def bol_eol_flag_def Let_def split: if_splits)
qed

context state_set
begin

theorem between_correct:
  assumes "seg_ok (guts m) a z" "z < n" "nstates (guts m) = n" "anchors_counted (guts m) a z"
  shows "between_ok ops ok m a z"
  unfolding between_ok_def assms(3)
proof (intro allI impI)
  fix st p
  assume st: "ok st" "states_of ops n st = closure (guts m) a z (states_of ops n st)"
  let ?l = "char_before m p" and ?c = "char_here m p"
  have closed: "closed (guts m) a z (states_of ops n st)"
    unfolding closed_def using st(2) by simp
  obtain flagch i where flag: "bol_eol_flag m ?l ?c = (flagch, i)"
    by fastforce
  have "\<exists>st1. (case flagch of None \<Rightarrow> Some st | Some f \<Rightarrow> step_times ops (guts m) a z f i st) = Some st1 \<and> ok st1 \<and>
              states_of ops n st1 = aclosure m a z p (states_of ops n st)"
  proof (cases flagch)
    case None
    then have "anchors m a z p = {}"
      using no_flag [of m p] flag by (auto simp: anchors_def)
    then have "aclosure m a z p (states_of ops n st) = states_of ops n st"
      using aclosure_least [OF order_refl closed] aclosure_extensive by (fastforce simp: stable_def)
    then show ?thesis using None st(1) by simp
  next
    case (Some f)
    have "card (anchors m a z p) \<le> i"
      using anchors_enough [OF assms(4), of p] flag by simp
    then obtain r where "step_times ops (guts m) a z f i st = Some r" "ok r"
      "states_of ops n r = aclosure m a z p (states_of ops n st)"
      using step_times_closure [OF assms(1,2) _ st(1) closed, of p f i] flag Some by auto
    then show ?thesis using Some by simp
  qed
  then obtain st1 where st1: "(case flagch of None \<Rightarrow> Some st | Some f \<Rightarrow> step_times ops (guts m) a z f i st) = Some st1"
    "ok st1" "states_of ops n st1 = aclosure m a z p (states_of ops n st)"
    by blast
  have word: "\<exists>r. step_same ops (guts m) a z f st1 = Some r \<and> ok r \<and> states_of ops n r = states_of ops n st1"
    if f: "f = BOW \<or> f = EOW" for f
  proof -
    have "\<not> accepts (guts m) (strip (guts m) ! pc) f" if "a \<le> pc" "pc < z" for pc
      using assms(4) that f unfolding anchors_counted_def by (cases "strip (guts m) ! pc") auto
    then obtain r where "step_same ops (guts m) a z f st1 = Some r" "ok r"
      "states_of ops n r = closure (guts m) a z (states_of ops n st1)"
      using step_same_nothing [OF assms(1,2) st1(2)] by blast
    then show ?thesis
      using aclosure_closed [of m a z p "states_of ops n st"] st1(3) by (auto simp: closed_def)
  qed
  show "\<exists>r. step_between ops m a z ?l ?c st = Some r \<and> ok r \<and>
            states_of ops n r = aclosure m a z p (states_of ops n st)"
    using st1 word by (auto simp: step_between_def flag split: option.splits code.splits)
qed

end

end
