(* ===== verification/RegLang.thy ===== *)
theory RegLang
  imports RegAnchor
begin

text \<open>
  Regular expressions, what they match, and the code for them.  The runs of the code are the
  matches of the expression.
\<close>

section \<open>Expressions and their code\<close>

datatype atom = Chr char | Any | AnyOf nat | Bol | Eol | Bow | Eow

fun atom_op :: "atom \<Rightarrow> sop" where
  "atom_op (Chr c) = OCHAR c"
| "atom_op Any = OANY"
| "atom_op (AnyOf n) = OANYOF n"
| "atom_op Bol = OBOL"
| "atom_op Eol = OEOL"
| "atom_op Bow = OBOW"
| "atom_op Eow = OEOW"

text \<open>
  \<open>Plus\<close> is a loop with at least one pass, \<open>Quest\<close> is only used around it; a choice has a first
  branch and others.  \<open>Back\<close> is a back reference with the expression that it refers to.
\<close>

datatype re =
    Eps | Atom atom | Cat re re | Plus re | Quest re | Alt re "re list" | Paren nat re | Back nat re

fun alt_tail :: "sop list list \<Rightarrow> sop list" where
  "alt_tail [] = []"
| "alt_tail [c] = OOR2 (length c + 1) # c @ [O_CH (length c + 2)]"
| "alt_tail (c # cs) = OOR2 (length c + 2) # c @ OOR1 (length c + 2) # alt_tail cs"

primrec code_of :: "re \<Rightarrow> sop list" where
  "code_of Eps = []"
| "code_of (Atom x) = [atom_op x]"
| "code_of (Cat r s) = code_of r @ code_of s"
| "code_of (Plus r) = OPLUS (length (code_of r) + 1) # code_of r @ [O_PLUS (length (code_of r) + 1)]"
| "code_of (Quest r) = OQUEST (length (code_of r) + 1) # code_of r @ [O_QUEST (length (code_of r) + 1)]"
| "code_of (Alt r rs) =
     OCH (length (code_of r) + 2) # code_of r @ OOR1 (length (code_of r) + 1) # alt_tail (map code_of rs)"
| "code_of (Paren n r) = OLPAREN n # code_of r @ [ORPAREN n]"
| "code_of (Back n r) = OBACK n # code_of r @ [O_BACK n]"

text \<open>A choice has at least two branches.\<close>

fun re_ok :: "re \<Rightarrow> bool" where
  "re_ok (Cat r s) = (re_ok r \<and> re_ok s)"
| "re_ok (Plus r) = re_ok r"
| "re_ok (Quest r) = re_ok r"
| "re_ok (Alt r rs) = (re_ok r \<and> rs \<noteq> [] \<and> (\<forall>s\<in>set rs. re_ok s))"
| "re_ok (Paren n r) = re_ok r"
| "re_ok (Back n r) = re_ok r"
| "re_ok _ = True"

section \<open>Matches\<close>

definition atom_match :: "re_match \<Rightarrow> sop \<Rightarrow> nat \<Rightarrow> nat \<Rightarrow> bool" where
  "atom_match m s i j \<longleftrightarrow>
     j = Suc i \<and> i < endp m \<and> accepts (guts m) s (Ch (str m ! i)) \<or> j = i \<and> anchor m s i"

primrec rmatch :: "re_match \<Rightarrow> re \<Rightarrow> nat \<Rightarrow> nat \<Rightarrow> bool" where
  "rmatch m Eps = (=)"
| "rmatch m (Atom x) = atom_match m (atom_op x)"
| "rmatch m (Cat r s) = rmatch m r OO rmatch m s"
| "rmatch m (Plus r) = (rmatch m r)\<^sup>+\<^sup>+"
| "rmatch m (Quest r) = (rmatch m r)\<^sup>=\<^sup>="
| "rmatch m (Alt r rs) = (\<lambda>i j. rmatch m r i j \<or> (\<exists>M\<in>set (map (rmatch m) rs). M i j))"
| "rmatch m (Paren n r) = rmatch m r"
| "rmatch m (Back n r) = rmatch m r"

section \<open>Code inside of a strip\<close>

definition at_code :: "re_guts \<Rightarrow> nat \<Rightarrow> sop list \<Rightarrow> bool" where
  "at_code g a c \<longleftrightarrow> a + length c \<le> length (strip g) \<and> (\<forall>k<length c. strip g ! (a + k) = c ! k)"

lemma at_code_Nil [simp]: "at_code g a [] \<longleftrightarrow> a \<le> length (strip g)"
  by (simp add: at_code_def)

lemma at_code_Cons [simp]: "at_code g a (s # c) \<longleftrightarrow> a < length (strip g) \<and> strip g ! a = s \<and> at_code g (Suc a) c"
  by (auto simp: at_code_def nth_Cons split: nat.splits)

lemma at_code_length: "at_code g a c \<Longrightarrow> a + length c \<le> length (strip g)"
  by (simp add: at_code_def)

lemma at_code_append [simp]: "at_code g a (c @ d) \<longleftrightarrow> at_code g a c \<and> at_code g (a + length c) d"
  by (induction c arbitrary: a) (auto dest: at_code_length)

lemma at_code_iff: "at_code g a c \<longleftrightarrow> (\<exists>pre post. strip g = pre @ c @ post \<and> length pre = a)"
proof
  assume c: "at_code g a c"
  have "take (length c) (drop a (strip g)) = c"
    using c by (intro nth_equalityI) (auto simp: at_code_def)
  then have "strip g = take a (strip g) @ c @ drop (length c) (drop a (strip g))"
    by (metis append_take_drop_id)
  moreover have "length (take a (strip g)) = a"
    using c by (simp add: at_code_def)
  ultimately show "\<exists>pre post. strip g = pre @ c @ post \<and> length pre = a" by blast
qed (auto simp: at_code_def nth_append)

section \<open>The moves stay inside\<close>

definition op_ok :: "re_guts \<Rightarrow> nat \<Rightarrow> nat \<Rightarrow> nat \<Rightarrow> bool" where
  "op_ok g a z pc \<longleftrightarrow>
     (\<forall>q\<in>eps g pc. q \<le> z \<and> (pc < q \<or> (\<exists>k. strip g ! pc = O_PLUS k \<and> a + k \<le> pc))) \<and>
     (\<forall>k. strip g ! pc = OOR1 k \<longrightarrow> eps g pc \<noteq> {})"

lemma seg_ok_ops: "seg_ok g a z \<longleftrightarrow> a \<le> z \<and> (\<forall>pc. a \<le> pc \<longrightarrow> pc < z \<longrightarrow> op_ok g a z pc)"
  by (simp add: seg_ok_def op_ok_def)

lemma op_ok_mono: "op_ok g b y pc \<Longrightarrow> a \<le> b \<Longrightarrow> y \<le> z \<Longrightarrow> op_ok g a z pc"
  unfolding op_ok_def by (meson le_trans add_le_mono1)

lemma op_ok_single: "eps g pc = {q} \<Longrightarrow> pc < q \<Longrightarrow> q \<le> z \<Longrightarrow> op_ok g a z pc"
  by (simp add: op_ok_def)

lemma seg_ok_refl [simp]: "seg_ok g a a"
  by (simp add: seg_ok_ops)

lemma seg_ok_join: "\<lbrakk>seg_ok g a b; seg_ok g b z\<rbrakk> \<Longrightarrow> seg_ok g a z"
  unfolding seg_ok_ops by (meson le_trans op_ok_mono order_refl not_le)

lemma seg_ok_wider:
  assumes "seg_ok g b y" "a \<le> b" "y \<le> z" "\<And>pc. \<lbrakk>a \<le> pc; pc < z; \<not> (b \<le> pc \<and> pc < y)\<rbrakk> \<Longrightarrow> op_ok g a z pc"
  shows "seg_ok g a z"
  unfolding seg_ok_ops
proof (intro conjI allI impI)
  show "a \<le> z" using assms(1-3) by (simp add: seg_ok_ops)
  fix pc
  assume "a \<le> pc" "pc < z"
  then show "op_ok g a z pc"
    using assms op_ok_mono [of g b y pc a z] by (cases "b \<le> pc \<and> pc < y") (auto simp: seg_ok_ops)
qed

text \<open>The end of a choice is found from each of its branches.\<close>

lemma find_O_CH_tail:
  "\<lbrakk>at_code g t (alt_tail cs); cs \<noteq> []\<rbrakk> \<Longrightarrow> find_O_CH (strip g) t = Some (t + length (alt_tail cs) - 1)"
proof (induction cs arbitrary: t rule: alt_tail.induct)
  case (2 c)
  then show ?case
    by (subst find_O_CH.simps) (auto simp: find_O_CH.simps [of _ "Suc (t + length c)"])
next
  case (3 c d cs)
  then show ?case
    by (subst find_O_CH.simps) (auto simp: add.commute add.left_commute)
qed simp

lemma alt_tail_length: "cs \<noteq> [] \<Longrightarrow> 2 \<le> length (alt_tail cs)"
  by (cases cs rule: alt_tail.cases) auto

lemma alt_tail_last:
  "cs \<noteq> [] \<Longrightarrow> \<exists>k. alt_tail cs ! (length (alt_tail cs) - 1) = O_CH k"
proof (induction cs rule: alt_tail.induct)
  case (3 c d cs)
  then show ?case using alt_tail_length [of "d # cs"]
    by (auto simp: nth_append nth_Cons split: nat.splits)
qed (auto simp: nth_append)

lemma seg_ok_parts:
  assumes "op_ok g a z a" "seg_ok g (Suc a) x" "op_ok g a z x" "seg_ok g (Suc x) z"
  shows "seg_ok g a z"
  unfolding seg_ok_ops
proof (intro conjI allI impI)
  have bounds: "Suc a \<le> x" "Suc x \<le> z"
    using assms(2,4) by (auto simp: seg_ok_ops)
  then show "a \<le> z" by simp
  fix pc
  assume pc: "a \<le> pc" "pc < z"
  consider "pc = a" | "Suc a \<le> pc" "pc < x" | "pc = x" | "Suc x \<le> pc"
    using pc(1) by linarith
  then show "op_ok g a z pc"
  proof cases
    case 2
    then show ?thesis
      using assms(2) bounds op_ok_mono [of g "Suc a" x pc a z] by (simp add: seg_ok_ops)
  next
    case 4
    then show ?thesis
      using assms(4) bounds pc op_ok_mono [of g "Suc x" z pc a z] by (simp add: seg_ok_ops)
  qed (use assms(1,3) in auto)
qed

lemma wrap_seg_ok:
  assumes "seg_ok g (Suc a) (Suc (a + n))" "op_ok g a (Suc (Suc (a + n))) a"
    "op_ok g a (Suc (Suc (a + n))) (Suc (a + n))"
  shows "seg_ok g a (Suc (Suc (a + n)))"
  by (rule seg_ok_parts [OF assms(2,1,3) seg_ok_refl])

text \<open>The operators before and after an expression.\<close>

lemma eps_simple:
  "strip g ! pc = OPLUS k \<Longrightarrow> eps g pc = {Suc pc}"
  "strip g ! pc = O_PLUS k \<Longrightarrow> eps g pc = {Suc pc, pc - k}"
  "strip g ! pc = OQUEST k \<Longrightarrow> eps g pc = {Suc pc, pc + k}"
  "strip g ! pc = O_QUEST k \<Longrightarrow> eps g pc = {Suc pc}"
  "strip g ! pc = OLPAREN k \<Longrightarrow> eps g pc = {Suc pc}"
  "strip g ! pc = ORPAREN k \<Longrightarrow> eps g pc = {Suc pc}"
  "strip g ! pc = OBACK k \<Longrightarrow> eps g pc = {Suc pc}"
  "strip g ! pc = O_BACK k \<Longrightarrow> eps g pc = {Suc pc}"
  "strip g ! pc = OCH k \<Longrightarrow> eps g pc = {Suc pc, pc + k}"
  "strip g ! pc = O_CH k \<Longrightarrow> eps g pc = {Suc pc}"
  by (simp_all add: eps_def)

lemma eps_atom: "strip g ! pc = atom_op x \<Longrightarrow> eps g pc = {}"
  by (cases x) (simp_all add: eps_def)

lemma eps_or1:
  assumes "strip g ! x = OOR1 k" "at_code g (Suc x) (alt_tail cs)" "cs \<noteq> []"
  shows "eps g x = {x + length (alt_tail cs)}"
  using find_O_CH_tail [OF assms(2,3)] assms(1) by (simp add: eps_def)

lemma eps_or2_last:
  assumes "at_code g t (alt_tail [c])"
  shows "eps g t = {Suc t}"
  using assms by (simp add: eps_def)

lemma alt_tail_head: "cs \<noteq> [] \<Longrightarrow> \<exists>k. hd (alt_tail cs) = OOR2 k \<and> alt_tail cs \<noteq> []"
  by (cases cs rule: alt_tail.cases) auto

lemma eps_or2:
  assumes "at_code g t (alt_tail (c # d # cs))"
  shows "eps g t = {Suc t, t + length c + 2}"
proof -
  obtain k tl where "alt_tail (d # cs) = OOR2 k # tl"
    using alt_tail_head [of "d # cs"] by (metis list.collapse list.distinct(1))
  then show ?thesis
    using assms by (auto simp: eps_def)
qed

lemma tail_seg_ok:
  assumes "\<And>c a. c \<in> set cs \<Longrightarrow> at_code g a c \<Longrightarrow> seg_ok g a (a + length c)"
  shows "\<lbrakk>at_code g t (alt_tail cs); cs \<noteq> []\<rbrakk> \<Longrightarrow> seg_ok g t (t + length (alt_tail cs))"
  using assms
proof (induction cs arbitrary: t rule: alt_tail.induct)
  case (2 c)
  note at = 2(1)
  show ?case
  proof (rule seg_ok_parts [where x = "Suc t + length c"])
    show "op_ok g t (t + length (alt_tail [c])) t"
      using at eps_or2_last [OF at] by (simp add: op_ok_def)
    show "seg_ok g (Suc t) (Suc t + length c)"
      by (rule 2(3)) (use at in simp_all)
    show "op_ok g t (t + length (alt_tail [c])) (Suc t + length c)"
      using at by (simp add: op_ok_def eps_simple)
    show "seg_ok g (Suc (Suc t + length c)) (t + length (alt_tail [c]))"
      using seg_ok_refl [of g "Suc (Suc t + length c)"] by (simp only: alt_tail.simps length_Cons length_append list.size add_Suc_right add_Suc add_0_right)
  qed
next
  case (3 c d cs)
  note at = 3(2)
  let ?x = "Suc t + length c" and ?z = "t + length (alt_tail (c # d # cs))"
  have x: "strip g ! ?x = OOR1 (length c + 2)" "at_code g (Suc ?x) (alt_tail (d # cs))"
    using at by simp_all
  have z: "?z = Suc ?x + length (alt_tail (d # cs))"
    by simp
  have len: "2 \<le> length (alt_tail (d # cs))"
    by (rule alt_tail_length) simp
  show ?case
  proof (rule seg_ok_parts [where x = ?x])
    show "op_ok g t ?z t"
      using at eps_or2 [OF at] len by (simp add: op_ok_def)
    show "seg_ok g (Suc t) ?x"
      by (rule 3(4)) (use at in simp_all)
    show "op_ok g t ?z ?x"
      by (rule op_ok_single [OF eps_or1 [OF x list.distinct(2)]]) (use len z in linarith)+
    show "seg_ok g (Suc ?x) ?z"
    proof (unfold z, rule 3(1) [OF x(2)])
      show "seg_ok g b (b + length e)" if "e \<in> set (d # cs)" "at_code g b e" for e b
        by (rule 3(4)) (use that in simp_all)
    qed simp
  qed
next
  case 1
  from 1(2) show ?case by (rule notE) (rule refl)
qed

theorem code_seg_ok: "re_ok r \<Longrightarrow> at_code g a (code_of r) \<Longrightarrow> seg_ok g a (a + length (code_of r))"
proof (induction r arbitrary: a)
  case (Atom x)
  then show ?case
    by (cases x) (simp_all add: seg_ok_ops op_ok_def eps_def le_less_Suc_eq)
next
  case (Cat r s)
  then show ?case
    using seg_ok_join [of g a "a + length (code_of r)"] Cat.IH(1) [of a] Cat.IH(2) [of "a + length (code_of r)"]
    by (simp add: add.assoc)
next
  case (Plus r)
  then show ?case
    using wrap_seg_ok [of g a "length (code_of r)"] Plus.IH [of "Suc a"] by (simp add: op_ok_def eps_simple)
next
  case (Quest r)
  then show ?case
    using wrap_seg_ok [of g a "length (code_of r)"] Quest.IH [of "Suc a"] by (simp add: op_ok_def eps_simple)
next
  case (Paren n r)
  then show ?case
    using wrap_seg_ok [of g a "length (code_of r)"] Paren.IH [of "Suc a"] by (simp add: op_ok_def eps_simple)
next
  case (Back n r)
  then show ?case
    using wrap_seg_ok [of g a "length (code_of r)"] Back.IH [of "Suc a"] by (simp add: op_ok_def eps_simple)
next
  case (Alt r rs)
  let ?x = "Suc a + length (code_of r)" and ?t = "alt_tail (map code_of rs)"
  let ?z = "a + length (code_of (Alt r rs))"
  have x: "strip g ! ?x = OOR1 (length (code_of r) + 1)" "at_code g (Suc ?x) ?t" "map code_of rs \<noteq> []"
    using Alt.prems by simp_all
  have len: "2 \<le> length ?t"
    using x(3) by (rule alt_tail_length)
  have z: "?z = Suc ?x + length ?t"
    by simp
  show ?case
  proof (rule seg_ok_parts [where x = ?x])
    show "op_ok g a ?z a"
      using Alt.prems len by (simp add: op_ok_def eps_simple)
    show "seg_ok g (Suc a) ?x"
      using Alt.prems Alt.IH(1) [of "Suc a"] by simp
    show "op_ok g a ?z ?x"
      by (rule op_ok_single [OF eps_or1 [OF x]]) (use len z in linarith)+
    show "seg_ok g (Suc ?x) ?z"
    proof (unfold z, rule tail_seg_ok [OF _ x(2,3)])
      fix c b
      assume "c \<in> set (map code_of rs)" "at_code g b c"
      then show "seg_ok g b (b + length c)"
        using Alt.IH(2) Alt.prems(1) by fastforce
    qed
  qed
qed simp

section \<open>Runs of the code\<close>

text \<open>A run inside of a part is a run of the whole.\<close>

lemma run_wider: "run m b y pc i q j \<Longrightarrow> a \<le> b \<Longrightarrow> y \<le> z \<Longrightarrow> run m a z pc i q j"
proof (induction rule: run.induct)
  case (run_eps q j r)
  then show ?case by (meson run.run_eps le_trans less_le_trans)
next
  case (run_anchor q j)
  then show ?case by (meson run.run_anchor le_trans less_le_trans)
next
  case (run_char q j)
  then show ?case by (meson run.run_char le_trans less_le_trans)
qed (rule run.run_refl)

text \<open>One operator of a run.\<close>

definition move :: "re_match \<Rightarrow> nat \<Rightarrow> nat \<Rightarrow> nat \<Rightarrow> nat \<Rightarrow> bool" where
  "move m q j r k \<longleftrightarrow> r \<in> eps (guts m) q \<and> k = j \<or> r = Suc q \<and> atom_match m (strip (guts m) ! q) j k"

lemma run_move: "\<lbrakk>run m a z pc i q j; a \<le> q; q < z; move m q j r k\<rbrakk> \<Longrightarrow> run m a z pc i r k"
  unfolding move_def atom_match_def by (auto intro: run.intros)

lemma run_step: "\<lbrakk>move m pc i r k; a \<le> pc; pc < z; run m a z r k q j\<rbrakk> \<Longrightarrow> run m a z pc i q j"
  by (rule run_trans [OF _ run_move [OF run_refl]])

text \<open>A set of configurations that no operator leaves contains every run from one of them.\<close>

lemma run_invariant:
  assumes "run m a z pc i q j" "I pc i"
    and "\<And>q j r k. \<lbrakk>I q j; a \<le> q; q < z; move m q j r k\<rbrakk> \<Longrightarrow> I r k"
  shows "I q j"
  using assms(1,2)
proof (induction rule: run.induct)
  case (run_eps q j r)
  then show ?case using assms(3) [of q j r j] by (auto simp: move_def)
next
  case (run_anchor q j)
  then show ?case using assms(3) [of q j "Suc q" j] by (auto simp: move_def atom_match_def)
next
  case (run_char q j)
  then show ?case using assms(3) [of q j "Suc q" "Suc j"] by (auto simp: move_def atom_match_def)
qed simp

lemma move_inside:
  assumes "seg_ok (guts m) a z" "a \<le> q" "q < z" "move m q j r k"
  shows "a \<le> r" "r \<le> z"
  using assms seg_okD [OF assms(1-3)] by (auto simp: move_def)

text \<open>A run through two parts.\<close>

lemma run_seq:
  assumes "seg_ok (guts m) a b" "seg_ok (guts m) b z"
  shows "run m a z a i z j \<longleftrightarrow> (\<exists>k. run m a b a i b k \<and> run m b z b k z j)"
proof
  let ?I = "\<lambda>q j. q < b \<and> run m a b a i q j \<or> b \<le> q \<and> (\<exists>k. run m a b a i b k \<and> run m b z b k q j)"
  have ab: "a \<le> b" "b \<le> z"
    using assms by (auto simp: seg_ok_ops)
  assume "run m a z a i z j"
  then have "?I z j"
  proof (rule run_invariant [where I = ?I])
    show "?I a i"
      using ab by (cases "a = b") (auto intro: run_refl)
  next
    fix q j r k
    assume I: "?I q j" and q: "a \<le> q" "q < z" and mv: "move m q j r k"
    show "?I r k"
    proof (cases "q < b")
      case True
      then have "run m a b a i r k" "r \<le> b"
        using I q mv run_move move_inside [OF assms(1) q(1) True mv] by auto
      then show ?thesis
        using run_refl [of m b z b k] by (cases "r = b") auto
    next
      case False
      then obtain k' where "run m a b a i b k'" "run m b z b k' q j" and bq: "b \<le> q"
        using I by auto
      then have "run m b z b k' r k"
        using run_move [OF _ bq q(2) mv] by simp
      then show ?thesis
        using \<open>run m a b a i b k'\<close> move_inside(1) [OF assms(2) bq q(2) mv] by auto
    qed
  qed
  then show "\<exists>k. run m a b a i b k \<and> run m b z b k z j"
    using ab by simp
next
  assume "\<exists>k. run m a b a i b k \<and> run m b z b k z j"
  then show "run m a z a i z j"
    using run_wider [of m a b a i b _ a z] run_wider [of m b z b _ z j a z] run_trans [of m a z b _ z j a i] assms
    unfolding seg_ok_ops by (meson order_refl)
qed

lemma atom_match_none [simp]:
  "\<not> atom_match m OEND i j" "\<not> atom_match m (OPLUS n) i j" "\<not> atom_match m (O_PLUS n) i j"
  "\<not> atom_match m (OQUEST n) i j" "\<not> atom_match m (O_QUEST n) i j" "\<not> atom_match m (OLPAREN n) i j"
  "\<not> atom_match m (ORPAREN n) i j" "\<not> atom_match m (OBACK n) i j" "\<not> atom_match m (O_BACK n) i j"
  "\<not> atom_match m (OCH n) i j" "\<not> atom_match m (O_CH n) i j" "\<not> atom_match m (OOR1 n) i j"
  "\<not> atom_match m (OOR2 n) i j"
  by (simp_all add: atom_match_def anchor_def)

text \<open>A single operator.\<close>

lemma run_single:
  assumes "eps (guts m) a \<subseteq> {Suc a}"
  shows "run m a (Suc a) a i (Suc a) j \<longleftrightarrow> move m a i (Suc a) j"
proof
  let ?I = "\<lambda>q k. q = a \<and> k = i \<or> q = Suc a \<and> move m a i (Suc a) k"
  assume "run m a (Suc a) a i (Suc a) j"
  then have "?I (Suc a) j"
  proof (rule run_invariant [where I = ?I])
    fix q j r k
    assume "?I q j" "a \<le> q" "q < Suc a" and mv: "move m q j r k"
    then have "q = a" "j = i" by auto
    moreover from this mv assms have "r = Suc a" by (auto simp: move_def)
    ultimately show "?I r k" using mv by simp
  qed simp
  then show "move m a i (Suc a) j" by simp
qed (auto intro: run_move run_refl)

lemma run_skip:
  assumes "eps (guts m) a = {Suc a}" "\<And>i j. \<not> atom_match m (strip (guts m) ! a) i j"
  shows "run m a (Suc a) a i (Suc a) j \<longleftrightarrow> j = i" "seg_ok (guts m) a (Suc a)"
proof -
  show "run m a (Suc a) a i (Suc a) j \<longleftrightarrow> j = i"
    using run_single [of m a i j] assms by (auto simp: move_def)
  show "seg_ok (guts m) a (Suc a)"
    using assms(1) by (auto simp: seg_ok_ops le_less_Suc_eq intro: op_ok_single)
qed

text \<open>An expression between two operators that are only passed.\<close>

lemma run_wrap:
  assumes body: "seg_ok (guts m) (Suc a) e"
    and ops: "eps (guts m) a = {Suc a}" "eps (guts m) e = {Suc e}"
      "\<And>i j. \<not> atom_match m (strip (guts m) ! a) i j" "\<And>i j. \<not> atom_match m (strip (guts m) ! e) i j"
  shows "run m a (Suc e) a i (Suc e) j \<longleftrightarrow> run m (Suc a) e (Suc a) i e j"
proof -
  note first = run_skip [OF ops(1,3)] and last = run_skip [OF ops(2,4)]
  show ?thesis
    unfolding run_seq [OF first(2) seg_ok_join [OF body last(2)]] run_seq [OF body last(2)] first(1) last(1) by auto
qed

text \<open>A loop.\<close>

lemma run_loop:
  assumes body: "seg_ok (guts m) (Suc a) e"
    and ops: "eps (guts m) a = {Suc a}" "eps (guts m) e = {Suc e, a}"
      "\<And>i j. \<not> atom_match m (strip (guts m) ! a) i j" "\<And>i j. \<not> atom_match m (strip (guts m) ! e) i j"
  shows "run m a (Suc e) a i (Suc e) j \<longleftrightarrow> (\<lambda>i j. run m (Suc a) e (Suc a) i e j)\<^sup>+\<^sup>+ i j"
proof -
  let ?R = "\<lambda>i j. run m (Suc a) e (Suc a) i e j"
  have ae: "Suc a \<le> e"
    using body by (simp add: seg_ok_ops)
  have pass: "run m a (Suc e) a i e j" if "?R i j" for i j
    using run_step [of m a i "Suc a" i a "Suc e" e j] run_wider [OF that, of a "Suc e"] ae ops by (simp add: move_def)
  show ?thesis
  proof
    let ?I = "\<lambda>q j. q = a \<and> ?R\<^sup>*\<^sup>* i j \<or>
      Suc a \<le> q \<and> q \<le> e \<and> (\<exists>k. ?R\<^sup>*\<^sup>* i k \<and> run m (Suc a) e (Suc a) k q j) \<or> q = Suc e \<and> ?R\<^sup>+\<^sup>+ i j"
    assume "run m a (Suc e) a i (Suc e) j"
    then have "?I (Suc e) j"
    proof (rule run_invariant [where I = ?I])
      fix q j r k
      assume I: "?I q j" and q: "a \<le> q" "q < Suc e" and mv: "move m q j r k"
      consider "q = a" | "Suc a \<le> q" "q < e" | "q = e" "Suc a \<le> q"
        using q ae by linarith
      then show "?I r k"
      proof cases
        case 1
        then have "r = Suc a" "k = j" "?R\<^sup>*\<^sup>* i j"
          using I mv ops ae by (auto simp: move_def)
        then show ?thesis using ae run_refl by auto
      next
        case 2
        then obtain k' where "?R\<^sup>*\<^sup>* i k'" "run m (Suc a) e (Suc a) k' q j"
          using I by auto
        then show ?thesis
          using run_move [OF _ 2 mv] move_inside [OF body 2 mv] by blast
      next
        case 3
        then have "r = Suc e \<or> r = a" "k = j"
          using mv ops by (auto simp: move_def)
        moreover obtain k' where "?R\<^sup>*\<^sup>* i k'" "?R k' j"
          using I 3 by auto
        then have "?R\<^sup>+\<^sup>+ i j" by (rule rtranclp_into_tranclp1)
        ultimately show ?thesis by (auto intro: tranclp_into_rtranclp)
      qed
    qed simp
    then show "?R\<^sup>+\<^sup>+ i j" using ae by simp
  next
    have again: "run m a (Suc e) a i a j" if "?R\<^sup>*\<^sup>* i j" for j
      using that
    proof induction
      case (step j k)
      have "run m a (Suc e) a j a k"
        using run_move [OF pass [OF step(2)], of a k] ae ops by (simp add: move_def)
      with step(3) show ?case by (rule run_trans [rotated])
    qed (rule run_refl)
    assume "?R\<^sup>+\<^sup>+ i j"
    then obtain k where "?R\<^sup>*\<^sup>* i k" "?R k j"
      by (cases rule: tranclp.cases) (auto dest: tranclp_into_rtranclp)
    then have "run m a (Suc e) a i e j"
      by (intro run_trans [OF pass again])
    then show "run m a (Suc e) a i (Suc e) j"
      using run_move [of m a "Suc e" a i e j "Suc e" j] ae ops by (simp add: move_def)
  qed
qed

text \<open>Something that can be left out.\<close>

lemma run_option:
  assumes body: "seg_ok (guts m) (Suc a) e"
    and ops: "eps (guts m) a = {Suc a, e}" "eps (guts m) e = {Suc e}"
      "\<And>i j. \<not> atom_match m (strip (guts m) ! a) i j" "\<And>i j. \<not> atom_match m (strip (guts m) ! e) i j"
  shows "run m a (Suc e) a i (Suc e) j \<longleftrightarrow> j = i \<or> run m (Suc a) e (Suc a) i e j"
proof -
  let ?R = "\<lambda>j. run m (Suc a) e (Suc a) i e j"
  have ae: "Suc a \<le> e"
    using body by (simp add: seg_ok_ops)
  show ?thesis
  proof
    let ?I = "\<lambda>q j. q = a \<and> j = i \<or> Suc a \<le> q \<and> q \<le> e \<and> run m (Suc a) e (Suc a) i q j \<or>
      (q = e \<or> q = Suc e) \<and> (j = i \<or> ?R j)"
    assume "run m a (Suc e) a i (Suc e) j"
    then have "?I (Suc e) j"
    proof (rule run_invariant [where I = ?I])
      fix q j r k
      assume I: "?I q j" and q: "a \<le> q" "q < Suc e" and mv: "move m q j r k"
      consider "q = a" | "Suc a \<le> q" "q < e" | "q = e" "Suc a \<le> q"
        using q ae by linarith
      then show "?I r k"
      proof cases
        case 1
        then have "r = Suc a \<or> r = e" "k = i"
          using I mv ops ae by (auto simp: move_def)
        then show ?thesis using ae run_refl by auto
      next
        case 2
        then have "run m (Suc a) e (Suc a) i q j"
          using I by auto
        then show ?thesis
          using run_move [OF _ 2 mv] move_inside [OF body 2 mv] by blast
      next
        case 3
        then have "r = Suc e" "k = j"
          using mv ops by (auto simp: move_def)
        then show ?thesis using I 3 by auto
      qed
    qed simp
    then show "j = i \<or> ?R j" using ae by simp
  next
    have "run m a (Suc e) a i e i"
      using run_move [OF run_refl, of a a "Suc e" m i e i] ae ops by (simp add: move_def)
    moreover have "run m a (Suc e) a i e j" if "?R j"
      using run_step [of m a i "Suc a" i a "Suc e" e j] run_wider [OF that, of a "Suc e"] ae ops by (simp add: move_def)
    moreover assume "j = i \<or> ?R j"
    ultimately show "run m a (Suc e) a i (Suc e) j"
      using run_move [of m a "Suc e" a i e j "Suc e" j] ae ops by (auto simp: move_def)
  qed
qed

text \<open>
  The first of several branches: a head that leads to it and to the others, its code up to \<open>x\<close>, and
  the end of the choice at \<open>w\<close>.
\<close>

lemma run_branch:
  assumes body: "seg_ok (guts m) (Suc t) x" and tail: "seg_ok (guts m) (Suc x) (Suc w)" "Suc x \<le> w"
    and ops: "eps (guts m) t = {Suc t, Suc x}" "eps (guts m) x = {w}" "eps (guts m) w = {Suc w}"
      "\<And>i j. \<not> atom_match m (strip (guts m) ! t) i j" "\<And>i j. \<not> atom_match m (strip (guts m) ! x) i j"
      "\<And>i j. \<not> atom_match m (strip (guts m) ! w) i j"
  shows "run m t (Suc w) t i (Suc w) j \<longleftrightarrow>
         run m (Suc t) x (Suc t) i x j \<or> run m (Suc x) (Suc w) (Suc x) i (Suc w) j"
proof -
  let ?R = "\<lambda>j. run m (Suc t) x (Suc t) i x j" and ?T = "\<lambda>q j. run m (Suc x) (Suc w) (Suc x) i q j"
  have tx: "Suc t \<le> x" "x < w"
    using body tail(2) by (auto simp: seg_ok_ops)
  show ?thesis
  proof
    let ?I = "\<lambda>q j. q = t \<and> j = i \<or> Suc t \<le> q \<and> q \<le> x \<and> run m (Suc t) x (Suc t) i q j \<or>
      Suc x \<le> q \<and> q \<le> Suc w \<and> (?T q j \<or> (q = w \<or> q = Suc w) \<and> ?R j)"
    assume "run m t (Suc w) t i (Suc w) j"
    then have "?I (Suc w) j"
    proof (rule run_invariant [where I = ?I])
      fix q j r k
      assume I: "?I q j" and q: "t \<le> q" "q < Suc w" and mv: "move m q j r k"
      consider "q = t" | "Suc t \<le> q" "q < x" | "q = x" | "Suc x \<le> q"
        using q tx by linarith
      then show "?I r k"
      proof cases
        case 1
        then have "r = Suc t \<or> r = Suc x" "k = i"
          using I mv ops tx by (auto simp: move_def)
        then show ?thesis using tx run_refl by auto
      next
        case 2
        then have "run m (Suc t) x (Suc t) i q j"
          using I by auto
        then show ?thesis
          using run_move [OF _ 2 mv] move_inside [OF body 2 mv] by blast
      next
        case 3
        then have "r = w" "k = j" "?R j"
          using I mv ops tx by (auto simp: move_def)
        then show ?thesis using tx by simp
      next
        case 4
        then have "?T q j \<or> q = w \<and> ?R j"
          using I q tx by auto
        then show ?thesis
        proof
          assume "?T q j"
          then show ?thesis
            using run_move [OF _ 4 q(2) mv] move_inside [OF tail(1) 4 q(2) mv] by blast
        next
          assume "q = w \<and> ?R j"
          moreover from this have "r = Suc w" "k = j"
            using mv ops by (auto simp: move_def)
          ultimately show ?thesis using tx by simp
        qed
      qed
    qed simp
    then show "?R j \<or> ?T (Suc w) j" using tx by auto
  next
    have "run m t (Suc w) t i (Suc w) j" if "?R j"
    proof -
      have "run m t (Suc w) t i x j"
        using run_step [of m t i "Suc t" i t "Suc w" x j] run_wider [OF that, of t "Suc w"] tx ops by (simp add: move_def)
      then have "run m t (Suc w) t i w j"
        using run_move [of m t "Suc w" t i x j w j] tx ops by (simp add: move_def)
      then show ?thesis
        using run_move [of m t "Suc w" t i w j "Suc w" j] tx ops by (simp add: move_def)
    qed
    moreover have "run m t (Suc w) t i (Suc w) j" if "?T (Suc w) j"
      using run_step [of m t i "Suc x" i t "Suc w" "Suc w" j] run_wider [OF that, of t "Suc w"] tx ops
      by (simp add: move_def)
    moreover assume "?R j \<or> ?T (Suc w) j"
    ultimately show "run m t (Suc w) t i (Suc w) j" by blast
  qed
qed

text \<open>The code of an expression is correct where it stands, for every place.\<close>

definition code_runs :: "re_match \<Rightarrow> re \<Rightarrow> bool" where
  "code_runs m r \<longleftrightarrow>
     (\<forall>a i j. at_code (guts m) a (code_of r) \<longrightarrow>
        run m a (a + length (code_of r)) a i (a + length (code_of r)) j = rmatch m r i j)"

lemma code_runsD:
  "\<lbrakk>code_runs m r; at_code (guts m) a (code_of r); z = a + length (code_of r)\<rbrakk> \<Longrightarrow> run m a z a i z j = rmatch m r i j"
  by (simp add: code_runs_def)

lemma tail_O_CH:
  assumes "at_code g t (alt_tail cs)" "cs \<noteq> []"
  obtains k where "strip g ! (t + length (alt_tail cs) - 1) = O_CH k"
proof -
  obtain k where "alt_tail cs ! (length (alt_tail cs) - 1) = O_CH k"
    using alt_tail_last [OF assms(2)] by blast
  moreover have "strip g ! (t + (length (alt_tail cs) - 1)) = alt_tail cs ! (length (alt_tail cs) - 1)"
    using assms(1) alt_tail_length [OF assms(2)] unfolding at_code_def by (simp del: add_diff_assoc)
  ultimately show ?thesis
    using that alt_tail_length [OF assms(2)] by simp
qed

lemma run_tail:
  "\<lbrakk>rs \<noteq> []; at_code (guts m) t (alt_tail (map code_of rs)); \<forall>s\<in>set rs. re_ok s \<and> code_runs m s;
    z = t + length (alt_tail (map code_of rs))\<rbrakk> \<Longrightarrow>
   run m t z t i z j \<longleftrightarrow> (\<exists>s\<in>set rs. rmatch m s i j)"
proof (induction rs arbitrary: t z rule: list_nonempty_induct)
  case (single r)
  let ?e = "Suc t + length (code_of r)"
  have at: "at_code (guts m) t (alt_tail [code_of r])"
    using single by simp
  have "run m t (Suc ?e) t i (Suc ?e) j \<longleftrightarrow> run m (Suc t) ?e (Suc t) i ?e j"
  proof (rule run_wrap)
    show "seg_ok (guts m) (Suc t) ?e"
      using single by (intro code_seg_ok) auto
    show "eps (guts m) t = {Suc t}"
      by (rule eps_or2_last [OF at])
  qed (use at in \<open>simp_all add: eps_simple\<close>)
  moreover have "run m (Suc t) ?e (Suc t) i ?e j = rmatch m r i j"
    by (rule code_runsD) (use single in auto)
  ultimately show ?case
    using single(3) by simp
next
  case (cons r rs)
  obtain s rs' where rs: "rs = s # rs'"
    using cons(1) by (cases rs) auto
  let ?x = "Suc t + length (code_of r)" and ?T = "alt_tail (map code_of rs)"
  let ?w = "?x + length ?T"
  have ne: "map code_of rs \<noteq> []" using cons(1) by simp
  have len: "2 \<le> length ?T" by (rule alt_tail_length [OF ne])
  have at: "at_code (guts m) t (alt_tail (code_of r # code_of s # map code_of rs'))"
    using cons(3) rs by simp
  then have x: "strip (guts m) ! ?x = OOR1 (length (code_of r) + 2)" "at_code (guts m) (Suc ?x) ?T"
    and t: "strip (guts m) ! t = OOR2 (length (code_of r) + 2)" "at_code (guts m) (Suc t) (code_of r)"
    using rs by simp_all
  obtain k where w: "strip (guts m) ! ?w = O_CH k"
    using tail_O_CH [OF x(2) ne] by auto
  have z: "z = Suc ?w"
    using cons(5) rs by simp
  have "run m t (Suc ?w) t i (Suc ?w) j \<longleftrightarrow>
        run m (Suc t) ?x (Suc t) i ?x j \<or> run m (Suc ?x) (Suc ?w) (Suc ?x) i (Suc ?w) j"
  proof (rule run_branch)
    show "seg_ok (guts m) (Suc t) ?x"
      using cons(4) t(2) by (intro code_seg_ok) auto
    have "seg_ok (guts m) (Suc ?x) (Suc ?x + length ?T)"
    proof (rule tail_seg_ok [OF _ x(2) ne])
      show "seg_ok (guts m) a (a + length c)" if "c \<in> set (map code_of rs)" "at_code (guts m) a c" for c a
        using that cons(4) code_seg_ok by auto
    qed
    then show "seg_ok (guts m) (Suc ?x) (Suc ?w)" by simp
    show "Suc ?x \<le> ?w" using len by linarith
    show "eps (guts m) t = {Suc t, Suc ?x}"
      using eps_or2 [OF at] by simp
    show "eps (guts m) ?x = {?w}"
      by (rule eps_or1 [OF x ne])
  qed (use w x t in \<open>simp_all add: eps_simple\<close>)
  moreover have "run m (Suc t) ?x (Suc t) i ?x j = rmatch m r i j"
    by (rule code_runsD) (use cons(4) t in auto)
  moreover have "run m (Suc ?x) (Suc ?w) (Suc ?x) i (Suc ?w) j = (\<exists>s\<in>set rs. rmatch m s i j)"
    by (rule cons(2) [OF x(2)]) (use cons(4) in auto)
  ultimately show ?case
    unfolding z by simp
qed

lemma code_runs_wrap:
  assumes r: "code_runs m r" "re_ok r" and s: "code_of s = p # code_of r @ [q]" "rmatch m s = rmatch m r"
    and p: "\<And>g pc. strip g ! pc = p \<Longrightarrow> eps g pc = {Suc pc}" "\<And>i j. \<not> atom_match m p i j"
    and q: "\<And>g pc. strip g ! pc = q \<Longrightarrow> eps g pc = {Suc pc}" "\<And>i j. \<not> atom_match m q i j"
  shows "code_runs m s"
  unfolding code_runs_def s
proof (intro allI impI)
  fix a i j
  assume at: "at_code (guts m) a (p # code_of r @ [q])"
  let ?e = "Suc a + length (code_of r)"
  have "run m a (Suc ?e) a i (Suc ?e) j \<longleftrightarrow> run m (Suc a) ?e (Suc a) i ?e j"
    by (rule run_wrap) (use at r(2) p q code_seg_ok [of r "guts m" "Suc a"] in simp_all)
  then show "run m a (a + length (p # code_of r @ [q])) a i (a + length (p # code_of r @ [q])) j = rmatch m r i j"
    using code_runsD [OF r(1), of "Suc a" ?e i j] at by simp
qed

lemma code_runs_alt:
  assumes r: "code_runs m r" and rs: "\<forall>s\<in>set rs. code_runs m s" and ok: "re_ok (Alt r rs)"
  shows "code_runs m (Alt r rs)"
  unfolding code_runs_def
proof (intro allI impI)
  fix a i j
  assume at: "at_code (guts m) a (code_of (Alt r rs))"
  let ?x = "Suc a + length (code_of r)" and ?T = "alt_tail (map code_of rs)"
  let ?w = "?x + length ?T"
  have ne: "rs \<noteq> []" "map code_of rs \<noteq> []" using ok by auto
  have len: "2 \<le> length ?T" by (rule alt_tail_length [OF ne(2)])
  have x: "strip (guts m) ! ?x = OOR1 (length (code_of r) + 1)" "at_code (guts m) (Suc ?x) ?T"
    using at by simp_all
  obtain k where w: "strip (guts m) ! ?w = O_CH k"
    using tail_O_CH [OF x(2) ne(2)] by auto
  have "run m a (Suc ?w) a i (Suc ?w) j \<longleftrightarrow>
        run m (Suc a) ?x (Suc a) i ?x j \<or> run m (Suc ?x) (Suc ?w) (Suc ?x) i (Suc ?w) j"
  proof (rule run_branch)
    show "seg_ok (guts m) (Suc a) ?x"
      using at ok by (intro code_seg_ok) auto
    have "seg_ok (guts m) (Suc ?x) (Suc ?x + length ?T)"
    proof (rule tail_seg_ok [OF _ x(2) ne(2)])
      show "seg_ok (guts m) b (b + length c)" if "c \<in> set (map code_of rs)" "at_code (guts m) b c" for c b
        using that ok code_seg_ok by auto
    qed
    then show "seg_ok (guts m) (Suc ?x) (Suc ?w)" by simp
    show "Suc ?x \<le> ?w" using len by linarith
    show "eps (guts m) ?x = {?w}"
      by (rule eps_or1 [OF x ne(2)])
  qed (use w x at in \<open>simp_all add: eps_simple\<close>)
  moreover have "run m (Suc a) ?x (Suc a) i ?x j = rmatch m r i j"
    by (rule code_runsD [OF r]) (use at in auto)
  moreover have "run m (Suc ?x) (Suc ?w) (Suc ?x) i (Suc ?w) j = (\<exists>s\<in>set rs. rmatch m s i j)"
    by (rule run_tail [OF ne(1) x(2)]) (use ok rs in auto)
  ultimately show "run m a (a + length (code_of (Alt r rs))) a i (a + length (code_of (Alt r rs))) j = rmatch m (Alt r rs) i j"
    by (simp add: add.assoc)
qed

lemma code_runs_cat:
  assumes r: "code_runs m r" "re_ok r" and s: "code_runs m s" "re_ok s"
  shows "code_runs m (Cat r s)"
  unfolding code_runs_def
proof (intro allI impI)
  fix a i j
  assume at: "at_code (guts m) a (code_of (Cat r s))"
  let ?b = "a + length (code_of r)" and ?z = "a + length (code_of (Cat r s))"
  have "run m a ?z a i ?z j \<longleftrightarrow> (\<exists>k. run m a ?b a i ?b k \<and> run m ?b ?z ?b k ?z j)"
    by (rule run_seq)
      (use at r(2) s(2) code_seg_ok [of r "guts m" a] code_seg_ok [of s "guts m" ?b] in \<open>auto simp: add.assoc\<close>)
  also have "\<dots> \<longleftrightarrow> (\<exists>k. rmatch m r i k \<and> rmatch m s k j)"
    using at code_runsD [OF r(1), of a ?b] code_runsD [OF s(1), of ?b ?z] by (simp add: add.assoc)
  finally show "run m a ?z a i ?z j = rmatch m (Cat r s) i j"
    by (auto simp: OO_def)
qed

lemma code_runs_plus:
  assumes r: "code_runs m r" "re_ok r"
  shows "code_runs m (Plus r)"
  unfolding code_runs_def
proof (intro allI impI)
  fix a i j
  assume at: "at_code (guts m) a (code_of (Plus r))"
  let ?e = "Suc a + length (code_of r)"
  have "run m a (Suc ?e) a i (Suc ?e) j \<longleftrightarrow> (\<lambda>i j. run m (Suc a) ?e (Suc a) i ?e j)\<^sup>+\<^sup>+ i j"
    by (rule run_loop) (use at r(2) code_seg_ok [of r "guts m" "Suc a"] in \<open>simp_all add: eps_simple\<close>)
  also have "(\<lambda>i j. run m (Suc a) ?e (Suc a) i ?e j) = rmatch m r"
    using code_runsD [OF r(1), of "Suc a" ?e] at by (intro ext) simp
  finally show "run m a (a + length (code_of (Plus r))) a i (a + length (code_of (Plus r))) j = rmatch m (Plus r) i j"
    by simp
qed

lemma code_runs_quest:
  assumes r: "code_runs m r" "re_ok r"
  shows "code_runs m (Quest r)"
  unfolding code_runs_def
proof (intro allI impI)
  fix a i j
  assume at: "at_code (guts m) a (code_of (Quest r))"
  let ?e = "Suc a + length (code_of r)"
  have "run m a (Suc ?e) a i (Suc ?e) j \<longleftrightarrow> j = i \<or> run m (Suc a) ?e (Suc a) i ?e j"
    by (rule run_option) (use at r(2) code_seg_ok [of r "guts m" "Suc a"] in \<open>simp_all add: eps_simple\<close>)
  then show "run m a (a + length (code_of (Quest r))) a i (a + length (code_of (Quest r))) j = rmatch m (Quest r) i j"
    using code_runsD [OF r(1), of "Suc a" ?e] at by auto
qed

lemma code_runs_eps: "code_runs m Eps"
proof -
  have "k = i" if "run m a a q i p k" for a q i p k
    using that by (induction rule: run.induct) auto
  then show ?thesis
    unfolding code_runs_def by (auto intro: run_refl) metis
qed

theorem run_code: "re_ok r \<Longrightarrow> code_runs m r"
proof (induction r)
  case (Atom x)
  then show ?case
    using run_single by (auto simp: code_runs_def move_def eps_atom)
next
  case (Paren n r)
  then show ?case
    by (intro code_runs_wrap [of m r "Paren n r" "OLPAREN n" "ORPAREN n"]) (simp_all add: eps_simple)
next
  case (Back n r)
  then show ?case
    by (intro code_runs_wrap [of m r "Back n r" "OBACK n" "O_BACK n"]) (simp_all add: eps_simple)
qed (simp_all add: code_runs_eps code_runs_cat code_runs_plus code_runs_quest code_runs_alt)

end
