(* ===== verification/RegParse.thy ===== *)
theory RegParse
  imports RegStrip
begin

text \<open>
  The compiler of regular expressions (\<open>regcomp.c\<close>), first part: the parse structure, emitting
  operators, repetition counts and bracket expressions.  Allocations succeed, so that the error
  \<open>REG_ESPACE\<close> does not occur; the sizes that are allocated are kept.
\<close>

section \<open>The parse structure\<close>

text \<open>
  \<open>rest\<close> is what lies between \<open>next\<close> and \<open>end\<close>, and \<open>beyond\<close> the character at \<open>end\<close>.  The strip
  is the allocated memory as far as it was written, of which the first \<open>slen\<close> operators are in use.
\<close>

record parse =
  rest :: string
  beyond :: char
  perr :: "reg_error option"
  pstrip :: "sop list"
  ssize :: nat
  slen :: nat
  ncsalloc :: nat
  pg :: re_guts
  pbegin :: "nat list"
  pend :: "nat list"

definition NPAREN :: nat where
  "NPAREN = 10"

definition DUPMAX :: nat where
  "DUPMAX = 255"

definition INFINITY :: nat where
  "INFINITY = DUPMAX + 1"

definition nul :: char where
  "nul = CHR 0x00"

definition MORE :: "parse \<Rightarrow> bool" where
  "MORE p \<longleftrightarrow> rest p \<noteq> []"

definition PEEK :: "parse \<Rightarrow> char" where
  "PEEK p = (case rest p of [] \<Rightarrow> beyond p | c # _ \<Rightarrow> c)"

definition SEE :: "char \<Rightarrow> parse \<Rightarrow> bool" where
  "SEE c p \<longleftrightarrow> (case rest p of d # _ \<Rightarrow> d = c | [] \<Rightarrow> False)"

definition SEETWO :: "char \<Rightarrow> char \<Rightarrow> parse \<Rightarrow> bool" where
  "SEETWO a b p \<longleftrightarrow> (case rest p of c # d # _ \<Rightarrow> c = a \<and> d = b | _ \<Rightarrow> False)"

definition NEXTn :: "nat \<Rightarrow> parse \<Rightarrow> parse" where
  "NEXTn n p = p\<lparr>rest := drop n (rest p)\<rparr>"

definition EAT :: "char \<Rightarrow> parse \<Rightarrow> bool \<times> parse" where
  "EAT c p = (if SEE c p then (True, NEXTn 1 p) else (False, p))"

definition EATTWO :: "char \<Rightarrow> char \<Rightarrow> parse \<Rightarrow> bool \<times> parse" where
  "EATTWO a b p = (if SEETWO a b p then (True, NEXTn 2 p) else (False, p))"

definition GETNEXT :: "parse \<Rightarrow> char \<times> parse" where
  "GETNEXT p = (PEEK p, NEXTn 1 p)"

text \<open>An error keeps the first code and ends the input.\<close>

definition seterr :: "reg_error \<Rightarrow> parse \<Rightarrow> parse" where
  "seterr e p = p\<lparr>perr := (if perr p = None then Some e else perr p), rest := [], beyond := nul\<rparr>"

definition REQUIRE :: "bool \<Rightarrow> reg_error \<Rightarrow> parse \<Rightarrow> parse" where
  "REQUIRE co e p = (if co then p else seterr e p)"

definition MUSTEAT :: "char \<Rightarrow> reg_error \<Rightarrow> parse \<Rightarrow> parse" where
  "MUSTEAT c e p = (if MORE p then REQUIRE (PEEK p = c) e (NEXTn 1 p) else seterr e p)"

section \<open>Emitting operators\<close>

definition enlarge :: "nat \<Rightarrow> parse \<Rightarrow> parse" where
  "enlarge n p = (if n \<le> ssize p then p else p\<lparr>ssize := n\<rparr>)"

text \<open>Writing operators from a position on.\<close>

definition write_at :: "nat \<Rightarrow> sop list \<Rightarrow> sop list \<Rightarrow> sop list" where
  "write_at i xs mem = take i mem @ xs @ drop (i + length xs) mem"

definition doemit :: "sop \<Rightarrow> parse \<Rightarrow> parse" where
  "doemit s p =
     (if perr p \<noteq> None then p
      else
        let p1 = (if ssize p \<le> slen p then enlarge ((ssize p + 1) div 2 * 3) p else p)
        in p1\<lparr>pstrip := write_at (slen p) [s] (pstrip p), slen := slen p + 1\<rparr>)"

text \<open>Inserting at a position moves the positions of the parentheses that come later.\<close>

definition shift_parens :: "nat \<Rightarrow> nat list \<Rightarrow> nat list" where
  "shift_parens pos = map (\<lambda>i. if pos \<le> i then i + 1 else i)"

definition doinsert :: "sop \<Rightarrow> nat \<Rightarrow> parse \<Rightarrow> parse" where
  "doinsert s pos p =
     (if perr p \<noteq> None then p
      else
        let sn = slen p; p1 = doemit s p
        in p1\<lparr>pbegin := shift_parens pos (pbegin p1), pend := shift_parens pos (pend p1),
              pstrip := write_at pos (s # drop pos (take sn (pstrip p1))) (pstrip p1)\<rparr>)"

definition dofwd :: "nat \<Rightarrow> nat \<Rightarrow> parse \<Rightarrow> parse" where
  "dofwd pos v p =
     (if perr p \<noteq> None then p else p\<lparr>pstrip := (pstrip p)[pos := with_operand (pstrip p ! pos) v]\<rparr>)"

abbreviation HERE :: "parse \<Rightarrow> nat" where
  "HERE p \<equiv> slen p"

abbreviation THERE :: "parse \<Rightarrow> nat" where
  "THERE p \<equiv> slen p - 1"

abbreviation THERETHERE :: "parse \<Rightarrow> nat" where
  "THERETHERE p \<equiv> slen p - 2"

definition DROP :: "nat \<Rightarrow> parse \<Rightarrow> parse" where
  "DROP n p = p\<lparr>slen := slen p - n\<rparr>"

definition INSERT :: "(nat \<Rightarrow> sop) \<Rightarrow> nat \<Rightarrow> parse \<Rightarrow> parse" where
  "INSERT s pos p = doinsert (s (HERE p - pos + 1)) pos p"

definition AHEAD :: "nat \<Rightarrow> parse \<Rightarrow> parse" where
  "AHEAD pos p = dofwd pos (HERE p - pos) p"

definition ASTERN :: "(nat \<Rightarrow> sop) \<Rightarrow> nat \<Rightarrow> parse \<Rightarrow> parse" where
  "ASTERN s pos p = doemit (s (HERE p - pos)) p"

text \<open>
  \<open>dupl\<close>: the copy starts where the strip ended.  The part that is copied lies before that, so that
  \<open>memcpy\<close> has two separate regions.  Only a back reference of a basic expression can name a
  group whose code has since been dropped and reach past the end of the strip; there the
  copy stands for what \<open>memcpy\<close> does not define.
\<close>

definition dupl :: "nat \<Rightarrow> nat \<Rightarrow> parse \<Rightarrow> nat \<times> parse" where
  "dupl start finish p =
     (let len = finish - start
      in if len = 0 then (HERE p, p)
         else
           let p1 = enlarge (ssize p + len) p
           in (HERE p,
               p1\<lparr>pstrip := write_at (slen p) (take len (drop start (pstrip p))) (pstrip p),
                  slen := slen p + len\<rparr>))"

text \<open>The code for an optional operand: a choice with an empty branch.\<close>

definition close_option :: "nat \<Rightarrow> parse \<Rightarrow> parse" where
  "close_option start p =
     (let p1 = ASTERN OOR1 start p;
          p2 = AHEAD start p1;
          p3 = doemit (OOR2 0) p2;
          p4 = AHEAD (THERE p3) p3
      in ASTERN O_CH (THERETHERE p4) p4)"

text \<open>
  \<open>repeat\<close>: an operand from \<open>start\<close> to the end of the strip, repeated between \<open>lo\<close> and \<open>hi\<close>
  times.
\<close>

function repeat :: "nat \<Rightarrow> nat \<Rightarrow> nat \<Rightarrow> parse \<Rightarrow> parse" where
  "repeat start lo hi p =
     (if perr p \<noteq> None then p
      else if lo = 0 \<and> hi = 0 then DROP (HERE p - start) p
      else if lo = 0 then close_option start (repeat (start + 1) 1 hi (INSERT OCH start p))
      else if lo = 1 \<and> hi = 1 then p
      else if lo = 1 \<and> hi = INFINITY then ASTERN O_PLUS start (INSERT OPLUS start p)
      else if lo = 1 \<and> 1 < hi then
        (let (copy, p1) = dupl (start + 1) (HERE p + 1) (close_option start (INSERT OCH start p))
         in repeat copy 1 (hi - 1) p1)
      else if 1 < lo \<and> lo \<noteq> INFINITY \<and> hi = INFINITY then
        (let (copy, p1) = dupl start (HERE p) p in repeat copy (lo - 1) hi p1)
      else if 1 < lo \<and> lo \<noteq> INFINITY \<and> 1 < hi then
        (let (copy, p1) = dupl start (HERE p) p in repeat copy (lo - 1) (hi - 1) p1)
      else seterr REG_ASSERT p)"
  by (pat_completeness, elim Pair_inject, simp only:)
termination
  by (relation "measure (\<lambda>(start, lo, hi, p). 2 * hi + (if lo = 0 then 2 else 0) + lo)")
    (simp_all add: INFINITY_def DUPMAX_def, linarith)

declare repeat.simps [simp del]

section \<open>Characters\<close>

text \<open>Classification in the C locale.\<close>

definition isdigit :: "char \<Rightarrow> bool" where
  "isdigit c \<longleftrightarrow> 48 \<le> uch c \<and> uch c \<le> 57"

definition isupper :: "char \<Rightarrow> bool" where
  "isupper c \<longleftrightarrow> 65 \<le> uch c \<and> uch c \<le> 90"

definition islower :: "char \<Rightarrow> bool" where
  "islower c \<longleftrightarrow> 97 \<le> uch c \<and> uch c \<le> 122"

definition isalpha :: "char \<Rightarrow> bool" where
  "isalpha c \<longleftrightarrow> isupper c \<or> islower c"

definition othercase :: "char \<Rightarrow> char" where
  "othercase c = (if isupper c then char_of (uch c + 32) else if islower c then char_of (uch c - 32) else c)"

text \<open>The value of a character, which is signed.\<close>

definition schar :: "char \<Rightarrow> int" where
  "schar c = (if uch c < 128 then int (uch c) else int (uch c) - 256)"

text \<open>The tables of class names and of character names (\<open>cclass.h\<close>, \<open>cname.h\<close>).\<close>

definition cclasses :: "(string \<times> string) list" where
  "cclasses =
     (let up = ''ABCDEFGHIJKLMNOPQRSTUVWXYZ''; low = ''abcdefghijklmnopqrstuvwxyz''; dig = ''0123456789'';
          pun = ''!'' @ [CHR 0x22] @ ''#$%&'' @ [CHR 0x27] @ ''()*+,-./:;<=>?@['' @ [CHR 0x5C] @ '']^_'' @ [CHR 0x60] @ ''{|}~''
      in [(''alnum'', up @ low @ dig),
          (''alpha'', up @ low),
          (''blank'', [CHR 0x20, CHR 0x09]),
          (''cntrl'', map char_of ([7..<14] @ [1..<7] @ [14..<32] @ [127 :: nat])),
          (''digit'', dig),
          (''graph'', up @ low @ dig @ pun),
          (''lower'', low),
          (''print'', up @ low @ dig @ pun @ '' ''),
          (''punct'', pun),
          (''space'', map char_of [9..<14 :: nat] @ '' ''),
          (''upper'', up),
          (''xdigit'', ''0123456789ABCDEFabcdef'')])"

definition cnames :: "(string \<times> char) list" where
  "cnames =
     [(''NUL'', CHR 0x00), (''SOH'', CHR 0x01), (''STX'', CHR 0x02), (''ETX'', CHR 0x03),
      (''EOT'', CHR 0x04), (''ENQ'', CHR 0x05), (''ACK'', CHR 0x06), (''BEL'', CHR 0x07),
      (''alert'', CHR 0x07), (''BS'', CHR 0x08), (''backspace'', CHR 0x08), (''HT'', CHR 0x09),
      (''tab'', CHR 0x09), (''LF'', CHR 0x0A), (''newline'', CHR 0x0A), (''VT'', CHR 0x0B),
      (''vertical-tab'', CHR 0x0B), (''FF'', CHR 0x0C), (''form-feed'', CHR 0x0C),
      (''CR'', CHR 0x0D), (''carriage-return'', CHR 0x0D), (''SO'', CHR 0x0E), (''SI'', CHR 0x0F),
      (''DLE'', CHR 0x10), (''DC1'', CHR 0x11), (''DC2'', CHR 0x12), (''DC3'', CHR 0x13),
      (''DC4'', CHR 0x14), (''NAK'', CHR 0x15), (''SYN'', CHR 0x16), (''ETB'', CHR 0x17),
      (''CAN'', CHR 0x18), (''EM'', CHR 0x19), (''SUB'', CHR 0x1A), (''ESC'', CHR 0x1B),
      (''IS4'', CHR 0x1C), (''FS'', CHR 0x1C), (''IS3'', CHR 0x1D), (''GS'', CHR 0x1D),
      (''IS2'', CHR 0x1E), (''RS'', CHR 0x1E), (''IS1'', CHR 0x1F), (''US'', CHR 0x1F),
      (''space'', CHR '' ''), (''exclamation-mark'', CHR ''!''), (''quotation-mark'', CHR 0x22),
      (''number-sign'', CHR ''#''), (''dollar-sign'', CHR ''$''), (''percent-sign'', CHR ''%''),
      (''ampersand'', CHR ''&''), (''apostrophe'', CHR 0x27), (''left-parenthesis'', CHR ''(''),
      (''right-parenthesis'', CHR '')''), (''asterisk'', CHR ''*''), (''plus-sign'', CHR ''+''),
      (''comma'', CHR '',''), (''hyphen'', CHR ''-''), (''hyphen-minus'', CHR ''-''),
      (''period'', CHR ''.''), (''full-stop'', CHR ''.''), (''slash'', CHR ''/''),
      (''solidus'', CHR ''/''), (''zero'', CHR ''0''), (''one'', CHR ''1''), (''two'', CHR ''2''),
      (''three'', CHR ''3''), (''four'', CHR ''4''), (''five'', CHR ''5''), (''six'', CHR ''6''),
      (''seven'', CHR ''7''), (''eight'', CHR ''8''), (''nine'', CHR ''9''), (''colon'', CHR '':''),
      (''semicolon'', CHR '';''), (''less-than-sign'', CHR ''<''), (''equals-sign'', CHR ''=''),
      (''greater-than-sign'', CHR ''>''), (''question-mark'', CHR ''?''),
      (''commercial-at'', CHR ''@''), (''left-square-bracket'', CHR ''[''),
      (''backslash'', CHR 0x5C), (''reverse-solidus'', CHR 0x5C),
      (''right-square-bracket'', CHR '']''), (''circumflex'', CHR ''^''),
      (''circumflex-accent'', CHR ''^''), (''underscore'', CHR ''_''), (''low-line'', CHR ''_''),
      (''grave-accent'', CHR 0x60), (''left-brace'', CHR ''{''),
      (''left-curly-bracket'', CHR ''{''), (''vertical-line'', CHR ''|''),
      (''right-brace'', CHR ''}''), (''right-curly-bracket'', CHR ''}''), (''tilde'', CHR ''~''),
      (''DEL'', CHR 0x7F)]"

section \<open>Repetition counts\<close>

fun count_loop :: "nat \<Rightarrow> nat \<Rightarrow> string \<Rightarrow> nat \<times> nat \<times> string" where
  "count_loop count ndigits [] = (count, ndigits, [])"
| "count_loop count ndigits (c # cs) =
     (if isdigit c \<and> count \<le> DUPMAX then count_loop (count * 10 + (uch c - 48)) (ndigits + 1) cs
      else (count, ndigits, c # cs))"

definition p_count :: "parse \<Rightarrow> nat \<times> parse" where
  "p_count p =
     (let (count, ndigits, r) = count_loop 0 0 (rest p)
      in (count, REQUIRE (0 < ndigits \<and> count \<le> DUPMAX) REG_BADBR (p\<lparr>rest := r\<rparr>)))"

section \<open>Character sets\<close>

definition all_chars :: "char list" where
  "all_chars = map char_of [0..<256 :: nat]"

definition with_sets :: "(cset list \<Rightarrow> cset list) \<Rightarrow> parse \<Rightarrow> parse" where
  "with_sets f p = p\<lparr>pg := (pg p)\<lparr>sets := f (sets (pg p))\<rparr>\<rparr>"

text \<open>A new set gets the next number; space is allocated for eight of them at a time.\<close>

definition allocset :: "parse \<Rightarrow> nat \<times> parse" where
  "allocset p =
     (let no = length (sets (pg p));
          p1 = (if ncsalloc p \<le> no then p\<lparr>ncsalloc := ncsalloc p + 8\<rparr> else p)
      in (no, with_sets (\<lambda>ss. ss @ [empty_cset]) p1))"

text \<open>A set that is no longer used is emptied, and its number used again if it was the last one.\<close>

definition freeset :: "nat \<Rightarrow> parse \<Rightarrow> parse" where
  "freeset no p =
     with_sets (\<lambda>ss. if no + 1 = length ss then butlast ss else ss[no := fold (\<lambda>c cs. CHsub cs c) all_chars (ss ! no)]) p"

definition same_chars :: "cset \<Rightarrow> cset \<Rightarrow> bool" where
  "same_chars a b \<longleftrightarrow> (\<forall>c\<in>set all_chars. CHIN a c = CHIN b c)"

text \<open>The number of an earlier set with the same characters, or of the set itself.\<close>

definition freezeset :: "nat \<Rightarrow> parse \<Rightarrow> nat \<times> parse" where
  "freezeset no p =
     (let ss = sets (pg p);
          same = (\<lambda>i. hash (ss ! i) = hash (ss ! no) \<and> i \<noteq> no \<and> same_chars (ss ! i) (ss ! no))
      in case filter same [0..<length ss] of
           [] \<Rightarrow> (no, p)
         | i # _ \<Rightarrow> (i, freeset no p))"

definition members :: "cset \<Rightarrow> char list" where
  "members cs = filter (CHIN cs) all_chars"

definition firstch :: "cset \<Rightarrow> char" where
  "firstch cs = (case members cs of [] \<Rightarrow> nul | c # _ \<Rightarrow> c)"

definition nch :: "cset \<Rightarrow> nat" where
  "nch cs = length (members cs)"

section \<open>Bracket expressions\<close>

text \<open>A collating element: the name up to its end, and the character it stands for.\<close>

fun coll_name :: "char \<Rightarrow> string \<Rightarrow> string \<times> string" where
  "coll_name endc [] = ([], [])"
| "coll_name endc (c # cs) =
     (if c = endc \<and> (case cs of d # _ \<Rightarrow> d = CHR '']'' | [] \<Rightarrow> False) then ([], c # cs)
      else let (n, r) = coll_name endc cs in (c # n, r))"

definition p_b_coll_elem :: "char \<Rightarrow> parse \<Rightarrow> char \<times> parse" where
  "p_b_coll_elem endc p =
     (let (name, r) = coll_name endc (rest p); p1 = p\<lparr>rest := r\<rparr>
      in if r = [] then (nul, seterr REG_EBRACK p1)
         else case map_of cnames name of
           Some c \<Rightarrow> (c, p1)
         | None \<Rightarrow> if length name = 1 then (hd name, p1) else (nul, seterr REG_ECOLLATE p1))"

definition p_b_symbol :: "parse \<Rightarrow> char \<times> parse" where
  "p_b_symbol p0 =
     (let p = REQUIRE (MORE p0) REG_EBRACK p0; (two, p1) = EATTWO (CHR ''['') (CHR ''.'') p
      in if \<not> two then GETNEXT p1
         else
           let (c, p2) = p_b_coll_elem (CHR ''.'') p1; (closed, p3) = EATTWO (CHR ''.'') (CHR '']'') p2
           in (c, REQUIRE closed REG_ECOLLATE p3))"

definition p_b_cclass :: "parse \<Rightarrow> cset \<Rightarrow> parse \<times> cset" where
  "p_b_cclass p cs =
     (let p1 = p\<lparr>rest := dropWhile isalpha (rest p)\<rparr>
      in case map_of cclasses (takeWhile isalpha (rest p)) of
           None \<Rightarrow> (seterr REG_ECTYPE p1, cs)
         | Some chars \<Rightarrow> (p1, fold (\<lambda>c s. CHadd s c) chars cs))"

definition p_b_eclass :: "parse \<Rightarrow> cset \<Rightarrow> parse \<times> cset" where
  "p_b_eclass p cs = (let (c, p1) = p_b_coll_elem (CHR ''='') p in (p1, CHadd cs c))"

text \<open>The beginning and the end that classes have in common: the letter, and the error for a bad name.\<close>

definition p_b_class ::
    "char \<Rightarrow> reg_error \<Rightarrow> (parse \<Rightarrow> cset \<Rightarrow> parse \<times> cset) \<Rightarrow> parse \<Rightarrow> cset \<Rightarrow> parse \<times> cset" where
  "p_b_class letter e body p0 cs =
     (let p1 = NEXTn 2 p0;
          p2 = REQUIRE (MORE p1) REG_EBRACK p1;
          c = PEEK p2;
          p3 = REQUIRE (c \<noteq> CHR ''-'' \<and> c \<noteq> CHR '']'') e p2;
          (p4, cs') = body p3 cs;
          p5 = REQUIRE (MORE p4) REG_EBRACK p4;
          (closed, p6) = EATTWO letter (CHR '']'') p5
      in (REQUIRE closed e p6, cs'))"

text \<open>A range, from one signed character to another.\<close>

definition char_range :: "char \<Rightarrow> char \<Rightarrow> char list" where
  "char_range a b = map (\<lambda>i. char_of (nat (i mod 256))) [schar a..schar b]"

definition p_b_range :: "parse \<Rightarrow> cset \<Rightarrow> parse \<times> cset" where
  "p_b_range p cs =
     (let (start, p1) = p_b_symbol p;
          (finish, p2) =
            (if SEE (CHR ''-'') p1 \<and> length (rest p1) > 1 \<and> rest p1 ! 1 \<noteq> CHR '']''
             then
               let (dash, p3) = EAT (CHR ''-'') (NEXTn 1 p1)
               in if dash then (CHR ''-'', p3) else p_b_symbol p3
             else (start, p1))
      in (REQUIRE (schar start \<le> schar finish) REG_ERANGE p2, fold (\<lambda>c s. CHadd s c) (char_range start finish) cs))"

definition p_b_term :: "parse \<Rightarrow> cset \<Rightarrow> parse \<times> cset" where
  "p_b_term p cs =
     (case rest p of
        c # r \<Rightarrow>
          (if c = CHR ''-'' then (seterr REG_ERANGE p, cs)
           else if c = CHR ''['' \<and> (case r of d # _ \<Rightarrow> d = CHR '':'' | [] \<Rightarrow> False)
           then p_b_class (CHR '':'') REG_ECTYPE p_b_cclass p cs
           else if c = CHR ''['' \<and> (case r of d # _ \<Rightarrow> d = CHR ''='' | [] \<Rightarrow> False)
           then p_b_class (CHR ''='') REG_ECOLLATE p_b_eclass p cs
           else p_b_range p cs)
      | [] \<Rightarrow> p_b_range p cs)"

text \<open>Every term takes something from the input.\<close>

lemma rest_seterr [simp]: "rest (seterr e p) = []"
  by (simp add: seterr_def)

lemma rest_NEXTn [simp]: "rest (NEXTn n p) = drop n (rest p)"
  by (simp add: NEXTn_def)

lemma rest_REQUIRE_le [simp]: "length (rest (REQUIRE b e p)) \<le> length (rest p)"
  by (simp add: REQUIRE_def)

lemma rest_EATTWO_le [simp]: "length (rest (snd (EATTWO a b p))) \<le> length (rest p)"
  by (simp add: EATTWO_def)

lemma rest_EAT_le [simp]: "length (rest (snd (EAT a p))) \<le> length (rest p)"
  by (simp add: EAT_def)

lemma coll_name_le: "length (snd (coll_name e cs)) \<le> length cs"
  by (induction e cs rule: coll_name.induct) (auto simp: case_prod_beta Let_def)

lemma rest_coll_elem_le: "length (rest (snd (p_b_coll_elem e p))) \<le> length (rest p)"
  using coll_name_le [of e "rest p"]
  by (auto simp: p_b_coll_elem_def Let_def case_prod_beta split: option.splits)

lemma rest_symbol_less:
  assumes "MORE p"
  shows "length (rest (snd (p_b_symbol p))) < length (rest p)"
proof (cases "SEETWO (CHR ''['') (CHR ''.'') p")
  case True
  then have "length (rest (NEXTn 2 p)) < length (rest p)"
    by (auto simp: SEETWO_def split: list.splits)
  moreover have "length (rest (snd (p_b_symbol p))) \<le> length (rest (NEXTn 2 p))"
    using True assms rest_coll_elem_le [of "CHR ''.''" "NEXTn 2 p"]
      rest_EATTWO_le [of "CHR ''.''" "CHR '']''" "snd (p_b_coll_elem (CHR ''.'') (NEXTn 2 p))"]
    by (auto simp: p_b_symbol_def REQUIRE_def EATTWO_def Let_def case_prod_beta split: if_splits)
  ultimately show ?thesis by linarith
next
  case False
  then show ?thesis
    using assms by (auto simp: p_b_symbol_def REQUIRE_def EATTWO_def GETNEXT_def MORE_def)
qed

lemma rest_symbol_le: "length (rest (snd (p_b_symbol p))) \<le> length (rest p)"
proof (cases "MORE p")
  case True
  then show ?thesis using rest_symbol_less by (simp add: less_imp_le)
next
  case False
  then show ?thesis
    by (simp add: p_b_symbol_def REQUIRE_def EATTWO_def SEETWO_def GETNEXT_def Let_def)
qed

lemma rest_class_less:
  assumes "1 < length (rest p)" "\<And>q cs. length (rest (fst (body q cs))) \<le> length (rest q)"
  shows "length (rest (fst (p_b_class l e body p cs))) < length (rest p)"
proof -
  define q where "q = REQUIRE (PEEK (REQUIRE (MORE (NEXTn 2 p)) REG_EBRACK (NEXTn 2 p)) \<noteq> CHR ''-'' \<and>
    PEEK (REQUIRE (MORE (NEXTn 2 p)) REG_EBRACK (NEXTn 2 p)) \<noteq> CHR '']'') e (REQUIRE (MORE (NEXTn 2 p)) REG_EBRACK (NEXTn 2 p))"
  have "length (rest q) \<le> length (rest (NEXTn 2 p))"
    unfolding q_def by (meson rest_REQUIRE_le le_trans)
  moreover have "length (rest (fst (p_b_class l e body p cs))) \<le> length (rest (fst (body q cs)))"
    by (auto simp: p_b_class_def Let_def case_prod_beta q_def REQUIRE_def EATTWO_def)
  ultimately show ?thesis
    using assms(2) [of q cs] assms(1) by simp
qed

lemma rest_range_less:
  assumes "MORE p"
  shows "length (rest (fst (p_b_range p cs))) < length (rest p)"
proof -
  let ?p1 = "snd (p_b_symbol p)"
  have "length (rest (fst (p_b_range p cs))) \<le> length (rest ?p1)"
    using rest_EAT_le [of "CHR ''-''" "NEXTn 1 ?p1"] rest_symbol_le [of "snd (EAT (CHR ''-'') (NEXTn 1 ?p1))"]
    by (auto simp: p_b_range_def Let_def case_prod_beta REQUIRE_def)
  with rest_symbol_less [OF assms] show ?thesis by linarith
qed

lemma rest_term_less:
  assumes "MORE p"
  shows "length (rest (fst (p_b_term p cs))) < length (rest p)"
proof -
  have cclass: "length (rest (fst (p_b_cclass q cs))) \<le> length (rest q)" for q cs
    by (auto simp: p_b_cclass_def Let_def length_dropWhile_le split: option.splits)
  have eclass: "length (rest (fst (p_b_eclass q cs))) \<le> length (rest q)" for q cs
    using rest_coll_elem_le [of "CHR ''=''" q] by (simp add: p_b_eclass_def Let_def case_prod_beta)
  show ?thesis
    using assms rest_range_less [OF assms, of cs]
      rest_class_less [of p p_b_cclass "CHR '':''" REG_ECTYPE cs, OF _ cclass]
      rest_class_less [of p p_b_eclass "CHR ''=''" REG_ECOLLATE cs, OF _ eclass]
    by (auto simp: p_b_term_def MORE_def split: list.splits)
qed

function bracket_terms :: "parse \<Rightarrow> cset \<Rightarrow> parse \<times> cset" where
  "bracket_terms p cs =
     (if MORE p \<and> PEEK p \<noteq> CHR '']'' \<and> \<not> SEETWO (CHR ''-'') (CHR '']'') p
      then bracket_terms (fst (p_b_term p cs)) (snd (p_b_term p cs))
      else (p, cs))"
  by pat_completeness auto
termination
  by (relation "measure (\<lambda>(p, cs). length (rest p))") (auto simp: rest_term_less case_prod_beta)

declare bracket_terms.simps [simp del]

text \<open>The set of a bracket expression, without the case and the negation.\<close>

definition bracket_set :: "parse \<Rightarrow> bool \<times> parse \<times> cset" where
  "bracket_set p =
     (let (invert, p1) = EAT (CHR ''^'') p;
          (close, p2) = EAT (CHR '']'') p1;
          (dash, p3) = (if close then (False, p2) else EAT (CHR ''-'') p2);
          cs = (if close then CHadd empty_cset (CHR '']'')
                else if dash then CHadd empty_cset (CHR ''-'') else empty_cset);
          (p4, cs4) = bracket_terms p3 cs;
          (dash5, p5) = EAT (CHR ''-'') p4
      in (invert, MUSTEAT (CHR '']'') REG_EBRACK p5, if dash5 then CHadd cs4 (CHR ''-'') else cs4))"

definition add_case :: "char \<Rightarrow> cset \<Rightarrow> cset" where
  "add_case c cs = (if CHIN cs c \<and> isalpha c \<and> othercase c \<noteq> c then CHadd cs (othercase c) else cs)"

definition flip :: "char \<Rightarrow> cset \<Rightarrow> cset" where
  "flip c cs = (if CHIN cs c then CHsub cs c else CHadd cs c)"

definition finish_set :: "u32 \<Rightarrow> bool \<Rightarrow> cset \<Rightarrow> cset" where
  "finish_set flags invert cs =
     (let cs1 = (if has_flag flags REG_ICASE then fold add_case (rev all_chars) cs else cs)
      in if invert then
           let cs2 = fold flip (rev all_chars) cs1
           in if has_flag flags REG_NEWLINE then CHsub cs2 newline else cs2
         else cs1)"

text \<open>
  \<open>p_bracket\<close>, given what emits the character of a set with one element.
\<close>

definition p_bracket_with :: "(char \<Rightarrow> parse \<Rightarrow> parse) \<Rightarrow> parse \<Rightarrow> parse" where
  "p_bracket_with emit_char p =
     (if starts_with (rest p) ''[:<:]]'' then NEXTn 6 (doemit OBOW p)
      else if starts_with (rest p) ''[:>:]]'' then NEXTn 6 (doemit OEOW p)
      else
        let (no, p1) = allocset p; (invert, p2, cs) = bracket_set p1
        in if perr p2 \<noteq> None then freeset no p2
           else
             let cs' = finish_set (cflags (pg p2)) invert cs;
                 p3 = with_sets (\<lambda>ss. ss[no := cs']) p2
             in if nch cs' = 1 then freeset no (emit_char (firstch cs') p3)
                else let (i, p4) = freezeset no p3 in doemit (OANYOF i) p4)"

text \<open>An ordinary character gets a category of its own.\<close>

definition cat_index :: "char \<Rightarrow> nat" where
  "cat_index c = nat (schar c + 128)"

definition new_category :: "char \<Rightarrow> re_guts \<Rightarrow> re_guts" where
  "new_category c g =
     (if categories g ! cat_index c = 0
      then g\<lparr>categories := (categories g)[cat_index c := word_of_nat (ncategories g)], ncategories := ncategories g + 1\<rparr>
      else g)"

definition one_char :: "char \<Rightarrow> parse \<Rightarrow> parse" where
  "one_char c p = (let p1 = doemit (OCHAR c) p in p1\<lparr>pg := new_category c (pg p1)\<rparr>)"

text \<open>Parsing another text with the same structure.\<close>

definition on_text :: "string \<Rightarrow> (parse \<Rightarrow> parse) \<Rightarrow> parse \<Rightarrow> parse" where
  "on_text s f p = (f (p\<lparr>rest := s, beyond := nul\<rparr>))\<lparr>rest := rest p, beyond := beyond p\<rparr>"

text \<open>
  The two cases of a letter make a set with two elements, so that the character is not emitted by
  itself.
\<close>

definition bothcases :: "char \<Rightarrow> parse \<Rightarrow> parse" where
  "bothcases c = on_text [c, CHR '']''] (p_bracket_with one_char)"

definition ordinary :: "char \<Rightarrow> parse \<Rightarrow> parse" where
  "ordinary c p =
     (if has_flag (cflags (pg p)) REG_ICASE \<and> isalpha c \<and> othercase c \<noteq> c then bothcases c p else one_char c p)"

definition p_bracket :: "parse \<Rightarrow> parse" where
  "p_bracket = p_bracket_with ordinary"

definition nonnewline :: "parse \<Rightarrow> parse" where
  "nonnewline = on_text [CHR ''^'', newline, CHR '']''] p_bracket"

end
