(* ===== verification/RegComp.thy ===== *)
theory RegComp
  imports RegParse RegEngine
begin

text \<open>
  The compiler of regular expressions (\<open>regcomp.c\<close>), second part: the parsers for extended and
  basic expressions, the passes over the strip, and \<open>regcomp\<close>.

  The functions that call each other take a number that bounds the depth of calls and of loop
  iterations, \<open>None\<close> meaning that it was too small; \<open>regcomp\<close> gives a number that is large enough
  for the length of the pattern.
\<close>

section \<open>Atoms and repetitions\<close>

definition with_guts :: "(re_guts \<Rightarrow> re_guts) \<Rightarrow> parse \<Rightarrow> parse" where
  "with_guts f p = p\<lparr>pg := f (pg p)\<rparr>"

definition emit_bol :: "parse \<Rightarrow> parse" where
  "emit_bol p = with_guts (\<lambda>g. g\<lparr>usebol := True, nbol := nbol g + 1\<rparr>) (doemit OBOL p)"

definition emit_eol :: "parse \<Rightarrow> parse" where
  "emit_eol p = with_guts (\<lambda>g. g\<lparr>useeol := True, neol := neol g + 1\<rparr>) (doemit OEOL p)"

definition emit_any :: "parse \<Rightarrow> parse" where
  "emit_any p = (if has_flag (cflags (pg p)) REG_NEWLINE then nonnewline p else doemit OANY p)"

definition emit_star :: "nat \<Rightarrow> parse \<Rightarrow> parse" where
  "emit_star pos p = ASTERN O_QUEST pos (INSERT OQUEST pos (ASTERN O_PLUS pos (INSERT OPLUS pos p)))"

definition emit_plus :: "nat \<Rightarrow> parse \<Rightarrow> parse" where
  "emit_plus pos p = ASTERN O_PLUS pos (INSERT OPLUS pos p)"

definition emit_quest :: "nat \<Rightarrow> parse \<Rightarrow> parse" where
  "emit_quest pos p = close_option pos (INSERT OCH pos p)"

text \<open>An opening parenthesis gets the next number, and the first nine of them are remembered.\<close>

definition open_paren :: "parse \<Rightarrow> nat \<times> parse" where
  "open_paren p0 =
     (let p = with_guts (\<lambda>g. g\<lparr>nsub := nsub g + 1\<rparr>) p0;
          subno = nsub (pg p);
          p1 = (if subno < NPAREN then p\<lparr>pbegin := (pbegin p)[subno := HERE p]\<rparr> else p)
      in (subno, doemit (OLPAREN subno) p1))"

definition close_paren :: "nat \<Rightarrow> parse \<Rightarrow> parse" where
  "close_paren subno p =
     (let p1 = (if subno < NPAREN then p\<lparr>pend := (pend p)[subno := HERE p]\<rparr> else p)
      in doemit (ORPAREN subno) p1)"

text \<open>The counts of a bounded repetition; a digit has to follow the comma for a second one.\<close>

definition p_counts :: "bool \<Rightarrow> parse \<Rightarrow> nat \<times> nat \<times> parse" where
  "p_counts more_first p =
     (let (count, p1) = p_count p;
          (comma, p2) = EAT (CHR '','') p1
      in if comma then
           (if (more_first \<longrightarrow> MORE p2) \<and> isdigit (PEEK p2)
            then let (count2, p3) = p_count p2 in (count, count2, REQUIRE (count \<le> count2) REG_BADBR p3)
            else (count, INFINITY, p2))
         else (count, count, p2))"

section \<open>Extended expressions\<close>

text \<open>An atom other than a parenthesis.\<close>

definition ere_simple :: "char \<Rightarrow> parse \<Rightarrow> parse" where
  "ere_simple c p =
     (if c = CHR '')'' then seterr REG_EPAREN p
      else if c = CHR ''^'' then emit_bol p
      else if c = CHR ''$'' then emit_eol p
      else if c = CHR ''|'' then seterr REG_EMPTY p
      else if c = CHR ''*'' \<or> c = CHR ''+'' \<or> c = CHR ''?'' then seterr REG_BADRPT p
      else if c = CHR ''.'' then emit_any p
      else if c = CHR ''['' then p_bracket p
      else if c = CHR 0x5C then
        let (d, p1) = GETNEXT (REQUIRE (MORE p) REG_EESCAPE p) in ordinary d p1
      else if c = CHR ''{'' then ordinary c (REQUIRE (\<not> MORE p \<or> \<not> isdigit (PEEK p)) REG_BADRPT p)
      else ordinary c p)"

definition sees_repetition :: "parse \<Rightarrow> bool" where
  "sees_repetition p \<longleftrightarrow>
     (case rest p of
        [] \<Rightarrow> False
      | c # r \<Rightarrow> c = CHR ''*'' \<or> c = CHR ''+'' \<or> c = CHR ''?'' \<or>
                c = CHR ''{'' \<and> (case r of d # _ \<Rightarrow> isdigit d | [] \<Rightarrow> False))"

text \<open>The end of a bounded repetition: when the brace is missing, which error depends on whether one follows.\<close>

definition ere_close_brace :: "parse \<Rightarrow> parse" where
  "ere_close_brace p =
     (let (closed, p1) = EAT (CHR ''}'') p
      in if closed then p1
         else
           let p2 = p1\<lparr>rest := dropWhile (\<lambda>c. c \<noteq> CHR ''}'') (rest p1)\<rparr>
           in seterr REG_BADBR (REQUIRE (MORE p2) REG_EBRACE p2))"

definition ere_bounds :: "nat \<Rightarrow> parse \<Rightarrow> parse" where
  "ere_bounds pos p =
     (let (lo, hi, p1) = p_counts False p in ere_close_brace (repeat pos lo hi p1))"

definition ere_repeat :: "char \<Rightarrow> nat \<Rightarrow> parse \<Rightarrow> parse" where
  "ere_repeat c pos p =
     (if c = CHR ''*'' then emit_star pos p
      else if c = CHR ''+'' then emit_plus pos p
      else if c = CHR ''?'' then emit_quest pos p
      else ere_bounds pos p)"

definition ere_suffix :: "nat \<Rightarrow> bool \<Rightarrow> parse \<Rightarrow> parse" where
  "ere_suffix pos wascaret p =
     (if \<not> sees_repetition p then p
      else
        let (c, p1) = GETNEXT p;
            p2 = ere_repeat c pos (REQUIRE (\<not> wascaret) REG_BADRPT p1)
        in if sees_repetition p2 then seterr REG_BADRPT p2 else p2)"

text \<open>
  The end of a branch: the first one opens the choice.  The positions of the previous \<open>OOR1\<close> and
  of the previous forward reference are kept until the choice ends.
\<close>

definition next_branch :: "nat \<Rightarrow> (nat \<times> nat) option \<Rightarrow> parse \<Rightarrow> (nat \<times> nat) \<times> parse" where
  "next_branch conc prev p =
     (let (prevback, prevfwd, p1) =
            (case prev of None \<Rightarrow> (conc, conc, INSERT OCH conc p) | Some (b, f) \<Rightarrow> (b, f, p));
          p2 = ASTERN OOR1 prevback p1;
          p3 = AHEAD prevfwd p2
      in ((THERE p2, HERE p3), doemit (OOR2 0) p3))"

definition end_choice :: "(nat \<times> nat) option \<Rightarrow> parse \<Rightarrow> parse" where
  "end_choice prev p = (case prev of None \<Rightarrow> p | Some (b, f) \<Rightarrow> ASTERN O_CH b (AHEAD f p))"

text \<open>
  The loop over the branches, the loop over the expressions of a branch, and one expression.  The
  first one with no previous branch is \<open>p_ere\<close>.
\<close>

fun ere_branches :: "nat \<Rightarrow> char option \<Rightarrow> (nat \<times> nat) option \<Rightarrow> parse \<Rightarrow> parse option"
  and ere_seq :: "nat \<Rightarrow> char option \<Rightarrow> parse \<Rightarrow> parse option"
  and p_ere_exp :: "nat \<Rightarrow> parse \<Rightarrow> parse option" where
  "ere_branches 0 stop prev p = None"
| "ere_branches (Suc n) stop prev p =
     do {
       p1 \<leftarrow> ere_seq n stop p;
       let p2 = REQUIRE (HERE p1 \<noteq> HERE p) REG_EMPTY p1;
       let (bar, p3) = EAT (CHR ''|'') p2;
       if bar then let (prev', p4) = next_branch (HERE p) prev p3 in ere_branches n stop (Some prev') p4
       else Some (end_choice prev p3)
     }"
| "ere_seq 0 stop p = None"
| "ere_seq (Suc n) stop p =
     (if MORE p \<and> PEEK p \<noteq> CHR ''|'' \<and> stop \<noteq> Some (PEEK p)
      then do { p1 \<leftarrow> p_ere_exp n p; ere_seq n stop p1 }
      else Some p)"
| "p_ere_exp 0 p = None"
| "p_ere_exp (Suc n) p =
     (let (c, p0) = GETNEXT p; pos = HERE p0
      in if c = CHR ''('' then
           do {
             let (subno, p1) = open_paren (REQUIRE (MORE p0) REG_EPAREN p0);
             p2 \<leftarrow> (if SEE (CHR '')'') p1 then Some p1 else ere_branches n (Some (CHR '')'')) None p1);
             Some (ere_suffix pos False (MUSTEAT (CHR '')'') REG_EPAREN (close_paren subno p2)))
           }
         else Some (ere_suffix pos (c = CHR ''^'') (ere_simple c p0)))"

definition p_ere :: "nat \<Rightarrow> char option \<Rightarrow> parse \<Rightarrow> parse option" where
  "p_ere n stop p = ere_branches n stop None p"

text \<open>\<open>p_str\<close>: a string without metacharacters.\<close>

definition p_str :: "parse \<Rightarrow> parse" where
  "p_str p0 =
     (let p = REQUIRE (MORE p0) REG_EMPTY p0
      in fold (\<lambda>c q. ordinary c (NEXTn 1 q)) (rest p) p)"

section \<open>Basic expressions\<close>

text \<open>The character of an atom, with whether a backslash came before it.\<close>

definition bre_char :: "parse \<Rightarrow> bool \<times> char \<times> parse" where
  "bre_char p =
     (let (c, p1) = GETNEXT p
      in if c = CHR 0x5C then let (d, p2) = GETNEXT (REQUIRE (MORE p1) REG_EESCAPE p1) in (True, d, p2)
         else (False, c, p1))"

text \<open>A back reference repeats the code of the subexpression between two marks.\<close>

definition bre_backref :: "nat \<Rightarrow> parse \<Rightarrow> parse" where
  "bre_backref i p =
     with_guts (\<lambda>g. g\<lparr>backrefs := True\<rparr>)
       (if pend p ! i \<noteq> 0
        then let p1 = doemit (OBACK i) p in doemit (O_BACK i) (snd (dupl (pbegin p1 ! i + 1) (pend p1 ! i) p1))
        else seterr REG_ESUBREG p)"

definition bre_simple :: "bool \<Rightarrow> bool \<Rightarrow> char \<Rightarrow> parse \<Rightarrow> parse" where
  "bre_simple starordinary backsl c p =
     (if backsl then
        (if c = CHR ''{'' then seterr REG_BADRPT p
         else if c = CHR '')'' \<or> c = CHR ''}'' then seterr REG_EPAREN p
         else if isdigit c \<and> c \<noteq> CHR ''0'' then bre_backref (uch c - 48) p
         else ordinary c p)
      else if c = CHR ''.'' then emit_any p
      else if c = CHR ''['' then p_bracket p
      else if c = CHR ''*'' then ordinary c (REQUIRE starordinary REG_BADRPT p)
      else ordinary c p)"

fun skip_to_two :: "char \<Rightarrow> char \<Rightarrow> string \<Rightarrow> string" where
  "skip_to_two a b (c # d # cs) = (if c = a \<and> d = b then c # d # cs else skip_to_two a b (d # cs))"
| "skip_to_two a b _ = []"

definition bre_close_brace :: "parse \<Rightarrow> parse" where
  "bre_close_brace p =
     (let (closed, p1) = EATTWO (CHR 0x5C) (CHR ''}'') p
      in if closed then p1
         else
           let p2 = p1\<lparr>rest := skip_to_two (CHR 0x5C) (CHR ''}'') (rest p1)\<rparr>
           in seterr REG_BADBR (REQUIRE (MORE p2) REG_EBRACE p2))"

text \<open>What follows an atom, and whether the atom was a dollar sign that nothing follows.\<close>

definition bre_suffix :: "nat \<Rightarrow> bool \<Rightarrow> parse \<Rightarrow> bool \<times> parse" where
  "bre_suffix pos dollar p =
     (let (star, p1) = EAT (CHR ''*'') p
      in if star then (False, emit_star pos p1)
         else
           let (brace, p2) = EATTWO (CHR 0x5C) (CHR ''{'') p1
           in if brace then
                let (lo, hi, p3) = p_counts True p2 in (False, bre_close_brace (repeat pos lo hi p3))
              else (dollar, p2))"

text \<open>\<open>p_bre\<close>, its loop, and \<open>p_simp_re\<close>.\<close>

fun p_bre :: "nat \<Rightarrow> (char \<times> char) option \<Rightarrow> parse \<Rightarrow> parse option"
  and bre_seq :: "nat \<Rightarrow> (char \<times> char) option \<Rightarrow> bool \<Rightarrow> bool \<Rightarrow> parse \<Rightarrow> (bool \<times> parse) option"
  and p_simp_re :: "nat \<Rightarrow> bool \<Rightarrow> parse \<Rightarrow> (bool \<times> parse) option" where
  "p_bre 0 ends p = None"
| "p_bre (Suc n) ends p =
     do {
       let (caret, p1) = EAT (CHR ''^'') p;
       (wasdollar, p2) \<leftarrow> bre_seq n ends True False (if caret then emit_bol p1 else p1);
       let p3 = (if wasdollar then emit_eol (DROP 1 p2) else p2);
       Some (REQUIRE (HERE p3 \<noteq> HERE p) REG_EMPTY p3)
     }"
| "bre_seq 0 ends first wasdollar p = None"
| "bre_seq (Suc n) ends first wasdollar p =
     (if MORE p \<and> \<not> (case ends of None \<Rightarrow> False | Some (a, b) \<Rightarrow> SEETWO a b p)
      then do { (d, p1) \<leftarrow> p_simp_re n first p; bre_seq n ends False d p1 }
      else Some (wasdollar, p))"
| "p_simp_re 0 starordinary p = None"
| "p_simp_re (Suc n) starordinary p =
     (let pos = HERE p; (backsl, c, p0) = bre_char p
      in if backsl \<and> c = CHR ''('' then
           do {
             let (subno, p1) = open_paren p0;
             p2 \<leftarrow> (if MORE p1 \<and> \<not> SEETWO (CHR 0x5C) (CHR '')'') p1
                   then p_bre n (Some (CHR 0x5C, CHR '')'')) p1 else Some p1);
             let (closed, p3) = EATTWO (CHR 0x5C) (CHR '')'') (close_paren subno p2);
             Some (bre_suffix pos False (REQUIRE closed REG_EPAREN p3))
           }
         else Some (bre_suffix pos (\<not> backsl \<and> c = CHR ''$'') (bre_simple starordinary backsl c p0)))"

section \<open>The passes over the strip\<close>

definition isinsets :: "re_guts \<Rightarrow> char \<Rightarrow> bool" where
  "isinsets g c \<longleftrightarrow> (\<exists>cs\<in>set (sets g). CHIN cs c)"

definition samesets :: "re_guts \<Rightarrow> char \<Rightarrow> char \<Rightarrow> bool" where
  "samesets g c d \<longleftrightarrow> (\<forall>cs\<in>set (sets g). CHIN cs c = CHIN cs d)"

text \<open>The characters in the order of their signed values.\<close>

definition signed_chars :: "char list" where
  "signed_chars = map (\<lambda>i. char_of ((i + 128) mod 256)) [0..<256 :: nat]"

fun categorize_from :: "char list \<Rightarrow> re_guts \<Rightarrow> re_guts" where
  "categorize_from [] g = g"
| "categorize_from (c # cs) g =
     categorize_from cs
       (if categories g ! cat_index c = 0 \<and> isinsets g c then
          let cat = word_of_nat (ncategories g);
              g1 = g\<lparr>categories := (categories g)[cat_index c := cat], ncategories := ncategories g + 1\<rparr>
          in fold (\<lambda>d h. if categories h ! cat_index d = 0 \<and> samesets h c d
                         then h\<lparr>categories := (categories h)[cat_index d := cat]\<rparr> else h) cs g1
        else g)"

definition categorize :: "parse \<Rightarrow> re_guts \<Rightarrow> re_guts" where
  "categorize p g = (if perr p \<noteq> None then g else categorize_from signed_chars g)"

definition stripsnug :: "parse \<Rightarrow> re_guts \<Rightarrow> re_guts" where
  "stripsnug p g = g\<lparr>nstates := slen p, strip := take (slen p) (pstrip p)\<rparr>"

text \<open>The end of something that may be left out; \<open>None\<close> when the strip is not in order.\<close>

function skip_optional :: "sop list \<Rightarrow> nat \<Rightarrow> nat option" where
  "skip_optional ops i =
     (let j = i + OPND (ops ! i)
      in if i < j \<and> j < length ops then
           (case ops ! j of O_QUEST _ \<Rightarrow> Some j | O_CH _ \<Rightarrow> Some j | OOR2 _ \<Rightarrow> skip_optional ops j | _ \<Rightarrow> None)
         else None)"
  by pat_completeness auto
termination
  by (relation "measure (\<lambda>(ops, i). length ops - i)") auto

declare skip_optional.simps [simp del]

lemma skip_optional_greater: "skip_optional ops i = Some j \<Longrightarrow> i < j"
proof (induction ops i rule: skip_optional.induct)
  case (1 ops i)
  from 1(2) show ?case
    by (subst (asm) skip_optional.simps) (use 1(1) in \<open>fastforce simp: Let_def split: if_splits sop.splits\<close>)
qed

text \<open>
  The longest sequence of characters that every match contains: where it starts, and its length.
  The first two numbers are start and length of the current sequence.
\<close>

function must_scan :: "sop list \<Rightarrow> nat \<Rightarrow> nat \<Rightarrow> nat \<Rightarrow> nat \<Rightarrow> nat \<Rightarrow> (nat \<times> nat) option" where
  "must_scan ops i newstart newlen start mlen =
     (let best = (if mlen < newlen then (newstart, newlen) else (start, mlen))
      in if length ops \<le> i then None
         else case ops ! i of
           OCHAR _ \<Rightarrow> must_scan ops (i + 1) (if newlen = 0 then i else newstart) (newlen + 1) start mlen
         | OPLUS _ \<Rightarrow> must_scan ops (i + 1) newstart newlen start mlen
         | OLPAREN _ \<Rightarrow> must_scan ops (i + 1) newstart newlen start mlen
         | ORPAREN _ \<Rightarrow> must_scan ops (i + 1) newstart newlen start mlen
         | OEND \<Rightarrow> Some best
         | OQUEST _ \<Rightarrow>
             (case skip_optional ops i of
                None \<Rightarrow> None
              | Some j \<Rightarrow> must_scan ops j newstart 0 (fst best) (snd best))
         | OCH _ \<Rightarrow>
             (case skip_optional ops i of
                None \<Rightarrow> None
              | Some j \<Rightarrow> must_scan ops j newstart 0 (fst best) (snd best))
         | _ \<Rightarrow> must_scan ops (i + 1) newstart 0 (fst best) (snd best))"
  by pat_completeness auto
termination
  by (relation "measure (\<lambda>(ops, i, _). length ops - i)") (auto dest: skip_optional_greater)

declare must_scan.simps [simp del]

fun chars_of :: "sop list \<Rightarrow> string" where
  "chars_of [] = []"
| "chars_of (OCHAR c # ops) = c # chars_of ops"
| "chars_of (_ # ops) = chars_of ops"

text \<open>
  \<open>findmust\<close>: the expression is marked bad when the scan meets an operator it does not expect.
  An operand of 0, or one that leads out of the strip, counts as such; the code would not return
  or would read outside the strip then.  The code of an extended expression has neither
  (\<open>RegMust\<close>).
\<close>

definition findmust :: "parse \<Rightarrow> re_guts \<Rightarrow> re_guts" where
  "findmust p g =
     (if perr p \<noteq> None then g
      else case must_scan (strip g) 1 0 0 0 0 of
        None \<Rightarrow> g\<lparr>bad := True\<rparr>
      | Some (start, mlen) \<Rightarrow>
          if mlen = 0 then g else g\<lparr>must := Some (take mlen (chars_of (drop start (strip g))))\<rparr>)"

fun plus_scan :: "sop list \<Rightarrow> int \<Rightarrow> nat \<Rightarrow> int \<times> nat" where
  "plus_scan [] plusnest maxnest = (plusnest, maxnest)"
| "plus_scan (s # ops) plusnest maxnest =
     (case s of
        OPLUS _ \<Rightarrow> plus_scan ops (plusnest + 1) maxnest
      | O_PLUS _ \<Rightarrow> plus_scan ops (plusnest - 1) (if int maxnest < plusnest then nat plusnest else maxnest)
      | OEND \<Rightarrow> (plusnest, maxnest)
      | _ \<Rightarrow> plus_scan ops plusnest maxnest)"

definition pluscount :: "parse \<Rightarrow> re_guts \<Rightarrow> re_guts" where
  "pluscount p g =
     (if perr p \<noteq> None then g\<lparr>nplus := 0\<rparr>
      else let (plusnest, maxnest) = plus_scan (drop 1 (strip g)) 0 0
           in g\<lparr>nplus := maxnest, bad := (bad g \<or> plusnest \<noteq> 0)\<rparr>)"

section \<open>regcomp\<close>

definition initial_guts :: "u32 \<Rightarrow> re_guts" where
  "initial_guts flags =
     \<lparr>strip = [], sets = [], cflags = flags, nstates = 0, firststate = 0, laststate = 0,
      usebol = False, useeol = False, bad = False, nbol = 0, neol = 0, ncategories = 1,
      categories = replicate 256 0, must = None, nsub = 0, backrefs = False, nplus = 0\<rparr>"

definition initial_parse :: "string \<Rightarrow> char \<Rightarrow> u32 \<Rightarrow> parse" where
  "initial_parse s after flags =
     \<lparr>rest = s, beyond = after, perr = None, pstrip = [], ssize = length s div 2 * 3 + 1, slen = 0,
      ncsalloc = 0, pg = initial_guts flags, pbegin = replicate NPAREN 0, pend = replicate NPAREN 0\<rparr>"

text \<open>Enough depth for a pattern of some length.\<close>

definition parse_depth :: "string \<Rightarrow> nat" where
  "parse_depth s = 3 * length s + 2"

definition parse_pattern :: "u32 \<Rightarrow> parse \<Rightarrow> parse option" where
  "parse_pattern flags p =
     (if has_flag flags REG_EXTENDED then p_ere (parse_depth (rest p)) None p
      else if has_flag flags REG_NOSPEC then Some (p_str p)
      else p_bre (parse_depth (rest p)) None p)"

text \<open>The strip begins and ends with an end mark.\<close>

definition compile :: "u32 \<Rightarrow> parse \<Rightarrow> parse option" where
  "compile flags p0 =
     do {
       let p1 = doemit OEND p0;
       let p2 = with_guts (\<lambda>g. g\<lparr>firststate := THERE p1\<rparr>) p1;
       p3 \<leftarrow> parse_pattern flags p2;
       let p4 = doemit OEND p3;
       Some (with_guts (\<lambda>g. g\<lparr>laststate := THERE p4\<rparr>) p4)
     }"

definition finish_guts :: "parse \<Rightarrow> re_guts" where
  "finish_guts p = pluscount p (findmust p (stripsnug p (categorize p (pg p))))"

text \<open>
  \<open>regcomp\<close>: the error code, \<open>None\<close> for 0, and what is in the caller's structure.  The text of the
  pattern goes up to the NUL, or with \<open>REG_PEND\<close> up to \<open>re_endp\<close>.
\<close>

definition pattern_text :: "regex \<Rightarrow> string \<Rightarrow> u32 \<Rightarrow> string \<times> char" where
  "pattern_text preg pattern flags =
     (if has_flag flags REG_PEND
      then let n = nat (re_endp preg) in (take n pattern, if n < length pattern then pattern ! n else nul)
      else (c_string pattern, nul))"

definition regcomp :: "regex \<Rightarrow> string \<Rightarrow> u32 \<Rightarrow> (reg_error option \<times> regex) option" where
  "regcomp preg pattern flags0 =
     (let flags = and flags0 (not REG_DUMP)
      in if has_flag flags REG_EXTENDED \<and> has_flag flags REG_NOSPEC then Some (Some REG_INVARG, preg)
         else if has_flag flags REG_PEND \<and> re_endp preg < 0 then Some (Some REG_INVARG, preg)
         else
           do {
             let (s, after) = pattern_text preg pattern flags;
             p \<leftarrow> compile flags (initial_parse s after flags);
             let g = finish_guts p;
             let preg' = preg\<lparr>re_magic := MAGIC1, re_nsub := nsub g, re_g := g, g_magic := MAGIC2\<rparr>;
             let e = (if perr p = None \<and> bad g then Some REG_ASSERT else perr p);
             Some (e, if e = None then preg' else regfree preg')
           })"

section \<open>regerror\<close>

text \<open>The codes with their names and explanations; the last line is for any other code.\<close>

definition rerrs :: "(u32 \<times> string \<times> string) list" where
  "rerrs =
     [(1, ''REG_NOMATCH'', ''regexec() failed to match''),
      (2, ''REG_BADPAT'', ''invalid regular expression''),
      (3, ''REG_ECOLLATE'', ''invalid collating element''),
      (4, ''REG_ECTYPE'', ''invalid character class''),
      (5, ''REG_EESCAPE'', ''trailing backslash ('' @ [CHR 0x5C] @ '')''),
      (6, ''REG_ESUBREG'', ''invalid backreference number''),
      (7, ''REG_EBRACK'', ''brackets ([ ]) not balanced''),
      (8, ''REG_EPAREN'', ''parentheses not balanced''),
      (9, ''REG_EBRACE'', ''braces not balanced''),
      (10, ''REG_BADBR'', ''invalid repetition count(s)''),
      (11, ''REG_ERANGE'', ''invalid character range''),
      (12, ''REG_ESPACE'', ''out of memory''),
      (13, ''REG_BADRPT'', ''repetition-operator operand invalid''),
      (14, ''REG_EMPTY'', ''empty (sub)expression''),
      (15, ''REG_ASSERT'', [CHR 0x22] @ ''can'' @ [CHR 0x27] @ ''t happen'' @ [CHR 0x22] @ '' -- you found a bug''),
      (16, ''REG_INVARG'', ''invalid argument to regex routine'')]"

abbreviation REG_ATOI :: u32 where "REG_ATOI \<equiv> 255"
abbreviation REG_ITOA :: u32 where "REG_ITOA \<equiv> 0x100"

fun hex_digits :: "nat \<Rightarrow> string" where
  "hex_digits n =
     (if n < 16 then [''0123456789abcdef'' ! n] else hex_digits (n div 16) @ [''0123456789abcdef'' ! (n mod 16)])"

declare hex_digits.simps [simp del]

text \<open>\<open>regatoi\<close> gives the number of a name, which the caller stores in \<open>re_endp\<close>.\<close>

definition regatoi :: "string \<Rightarrow> string" where
  "regatoi name =
     (case filter (\<lambda>(c, n, e). n = name) rerrs of [] \<Rightarrow> ''0'' | (c, _, _) # _ \<Rightarrow> nat_digits (unat c))"

definition reg_text :: "u32 \<Rightarrow> string \<Rightarrow> string" where
  "reg_text errcode name =
     (let target = and errcode (not REG_ITOA); found = map_of rerrs target
      in if errcode = REG_ATOI then regatoi name
         else if and errcode REG_ITOA \<noteq> 0 then
           (case found of Some (n, e) \<Rightarrow> n | None \<Rightarrow> ''REG_0x'' @ hex_digits (unat target))
         else (case found of Some (n, e) \<Rightarrow> e | None \<Rightarrow> ''*** unknown regexp error code ***''))"

text \<open>\<open>regerror\<close>: the size of the text with its terminator, and the bytes of the buffer.\<close>

definition regerror :: "u32 \<Rightarrow> string \<Rightarrow> nat \<Rightarrow> nat \<times> string" where
  "regerror errcode name errbuf_size =
     (let s = reg_text errcode name
      in (length s + 1, take errbuf_size (s @ replicate errbuf_size nul)))"

end
