(* ===== verification/RegMust.thy ===== *)
theory RegMust
  imports RegLang RegComp "HOL-Library.Sublist"
begin

text \<open>
  The string that every match contains (\<open>findmust\<close>): what the scan over the strip finds is part
  of the text of each match, so that the engine may look for it first.
\<close>

section \<open>The scan of an expression\<close>

text \<open>The characters that were seen last, and the longest such sequence so far.\<close>

definition longer :: "string \<times> string \<Rightarrow> string \<times> string" where
  "longer s = ([], if length (snd s) < length (fst s) then fst s else snd s)"

primrec must_of :: "re \<Rightarrow> string \<times> string \<Rightarrow> string \<times> string" where
  "must_of Eps s = s"
| "must_of (Atom x) s = (case x of Chr c \<Rightarrow> (fst s @ [c], snd s) | _ \<Rightarrow> longer s)"
| "must_of (Cat r t) s = must_of t (must_of r s)"
| "must_of (Plus r) s = longer (must_of r s)"
| "must_of (Quest r) s = longer s"
| "must_of (Alt r rs) s = longer s"
| "must_of (Paren n r) s = must_of r s"
| "must_of (Back n r) s = longer (must_of r (longer s))"

lemma longer_idem [simp]: "longer (longer s) = longer s"
  by (simp add: longer_def)

text \<open>The text between two positions.\<close>

definition text_of :: "re_match \<Rightarrow> nat \<Rightarrow> nat \<Rightarrow> string" where
  "text_of m i j = map ((!) (str m)) [i..<j]"

lemma text_of_append: "i \<le> k \<Longrightarrow> k \<le> j \<Longrightarrow> text_of m i j = text_of m i k @ text_of m k j"
  using upt_add_eq_append [of i k "j - k"] by (simp add: text_of_def)

lemma text_of_Suc: "i \<le> k \<Longrightarrow> text_of m i (Suc k) = text_of m i k @ [str m ! k]"
  by (simp add: text_of_def)

lemma text_of_drop: "j \<le> length (str m) \<Longrightarrow> text_of m i j = take (j - i) (drop i (str m))"
  by (intro nth_equalityI) (auto simp: text_of_def)

text \<open>What holds of the two sequences after a match from \<open>i\<close> to \<open>k\<close>.\<close>

definition must_inv :: "re_match \<Rightarrow> nat \<Rightarrow> nat \<Rightarrow> string \<times> string \<Rightarrow> bool" where
  "must_inv m i k s \<longleftrightarrow> i \<le> k \<and> suffix (fst s) (text_of m i k) \<and> sublist (snd s) (text_of m i k)"

lemma must_inv_longer:
  assumes "must_inv m i k s" "k \<le> j"
  shows "must_inv m i j (longer s)"
proof -
  have "sublist u (text_of m i j)" if "sublist u (text_of m i k)" for u
    using that assms text_of_append [of i k j m] by (auto simp: must_inv_def sublist_append)
  moreover have "sublist (fst s) (text_of m i k)"
    using assms(1) by (simp add: must_inv_def suffix_imp_sublist)
  ultimately show ?thesis
    using assms by (auto simp: must_inv_def longer_def)
qed

lemma rmatch_le: "rmatch m r i j \<Longrightarrow> i \<le> j"
proof (induction r arbitrary: i j)
  case (Cat r s)
  then show ?case by (auto simp: OO_def) (meson le_trans)
next
  case (Plus r)
  from Plus.prems have "(rmatch m r)\<^sup>+\<^sup>+ i j" by simp
  then show ?case
    by (induction rule: tranclp_induct) (auto dest: Plus.IH)
qed (auto simp: atom_match_def)

theorem must_of_sound: "\<lbrakk>rmatch m r k j; must_inv m i k s\<rbrakk> \<Longrightarrow> must_inv m i j (must_of r s)"
proof (induction r arbitrary: k j s)
  case (Atom x)
  show ?case
  proof (cases "\<exists>c. x = Chr c")
    case True
    then obtain c where "x = Chr c" by blast
    with Atom have "j = Suc k" "str m ! k = c"
      by (auto simp: atom_match_def anchor_def)
    with Atom.prems(2) \<open>x = Chr c\<close> show ?thesis
      by (auto simp: must_inv_def text_of_Suc sublist_append suffix_def)
  next
    case False
    then show ?thesis
      using must_inv_longer [OF Atom.prems(2) rmatch_le [OF Atom.prems(1)]] by (auto split: atom.splits)
  qed
next
  case (Cat r t)
  from Cat.prems(1) obtain k' where "rmatch m r k k'" "rmatch m t k' j" by auto
  from Cat.IH(2) [OF this(2) Cat.IH(1) [OF this(1) Cat.prems(2)]] show ?case by simp
next
  case (Plus r)
  from Plus.prems(1) have "(rmatch m r)\<^sup>+\<^sup>+ k j" by simp
  then obtain k' where k': "rmatch m r k k'" "(rmatch m r)\<^sup>*\<^sup>* k' j"
    by (metis tranclpD)
  from k'(2) have "k' \<le> j"
    by induction (auto dest: rmatch_le)
  then show ?case
    using must_inv_longer [OF Plus.IH [OF k'(1) Plus.prems(2)]] by simp
next
  case (Quest r)
  from must_inv_longer [OF Quest.prems(2) rmatch_le [OF Quest.prems(1)]] show ?case by simp
next
  case (Alt r rs)
  from must_inv_longer [OF Alt.prems(2) rmatch_le [OF Alt.prems(1)]] show ?case by simp
next
  case (Back n r)
  then have "must_inv m i j (must_of r (longer s))"
    using must_inv_longer [of m i k s k] by simp
  then show ?case
    using must_inv_longer by fastforce
qed auto

section \<open>The scan of the strip\<close>

text \<open>The numbers of the scan at a position stand for two sequences of characters.\<close>

definition scan_at :: "sop list \<Rightarrow> nat \<Rightarrow> nat \<times> nat \<times> nat \<times> nat \<Rightarrow> string \<times> string \<Rightarrow> bool" where
  "scan_at ops i q s \<longleftrightarrow>
     (case q of (newstart, newlen, start, mlen) \<Rightarrow>
        newlen = length (fst s) \<and> mlen = length (snd s) \<and>
        (fst s \<noteq> [] \<longrightarrow> newstart \<le> i \<and> chars_of (take (i - newstart) (drop newstart ops)) = fst s) \<and>
        (snd s \<noteq> [] \<longrightarrow> take mlen (chars_of (drop start ops)) = snd s))"

definition scan_from :: "sop list \<Rightarrow> nat \<Rightarrow> nat \<times> nat \<times> nat \<times> nat \<Rightarrow> (nat \<times> nat) option" where
  "scan_from ops i q = (case q of (newstart, newlen, start, mlen) \<Rightarrow> must_scan ops i newstart newlen start mlen)"

definition scan_best :: "nat \<times> nat \<times> nat \<times> nat \<Rightarrow> nat \<times> nat \<times> nat \<times> nat" where
  "scan_best q =
     (case q of (newstart, newlen, start, mlen) \<Rightarrow>
        (newstart, 0, if mlen < newlen then (newstart, newlen) else (start, mlen)))"

lemma chars_of_append: "chars_of (xs @ ys) = chars_of xs @ chars_of ys"
  by (induction xs rule: chars_of.induct) auto

lemma chars_of_extend:
  assumes "n \<le> i" "i < length ops"
  shows "chars_of (take (Suc i - n) (drop n ops)) = chars_of (take (i - n) (drop n ops)) @ chars_of [ops ! i]"
  using assms by (simp add: Suc_diff_le take_Suc_conv_app_nth chars_of_append)

lemma scan_at_best:
  assumes "scan_at ops i q s"
  shows "scan_at ops j (scan_best q) (longer s)"
proof -
  obtain ns nl st ml where q: "q = (ns, nl, st, ml)" by (cases q)
  have "take nl (chars_of (drop ns ops)) = fst s" if "fst s \<noteq> []"
    using assms that chars_of_append [of "take (i - ns) (drop ns ops)" "drop (i - ns) (drop ns ops)"]
    unfolding append_take_drop_id by (simp add: scan_at_def q)
  then show ?thesis
    using assms by (auto simp: scan_at_def scan_best_def longer_def q)
qed

lemma scan_char:
  assumes "i < length ops" "ops ! i = OCHAR c" "scan_at ops i (ns, nl, st, ml) s"
  shows "scan_from ops i (ns, nl, st, ml) = scan_from ops (Suc i) (if nl = 0 then i else ns, nl + 1, st, ml)"
    and "scan_at ops (Suc i) (if nl = 0 then i else ns, nl + 1, st, ml) (fst s @ [c], snd s)"
proof -
  show "scan_from ops i (ns, nl, st, ml) = scan_from ops (Suc i) (if nl = 0 then i else ns, nl + 1, st, ml)"
    unfolding scan_from_def prod.case by (subst must_scan.simps) (use assms in simp)
  show "scan_at ops (Suc i) (if nl = 0 then i else ns, nl + 1, st, ml) (fst s @ [c], snd s)"
    using assms chars_of_extend [of ns i ops] chars_of_extend [of i i ops] by (auto simp: scan_at_def)
qed

lemma scan_pass:
  assumes "i < length ops" "ops ! i = OPLUS k \<or> ops ! i = OLPAREN k \<or> ops ! i = ORPAREN k" "scan_at ops i q s"
  shows "scan_from ops i q = scan_from ops (Suc i) q" and "scan_at ops (Suc i) q s"
proof -
  obtain ns nl st ml where q: "q = (ns, nl, st, ml)" by (cases q)
  show "scan_from ops i q = scan_from ops (Suc i) q"
    unfolding scan_from_def q prod.case by (subst must_scan.simps) (use assms in auto)
  show "scan_at ops (Suc i) q s"
    using assms chars_of_extend [of ns i ops] by (auto simp: scan_at_def q)
qed

text \<open>Operators that end a sequence.\<close>

fun ends_must :: "sop \<Rightarrow> bool" where
  "ends_must (OCHAR c) = False"
| "ends_must (OPLUS k) = False"
| "ends_must (OLPAREN k) = False"
| "ends_must (ORPAREN k) = False"
| "ends_must OEND = False"
| "ends_must (OQUEST k) = False"
| "ends_must (OCH k) = False"
| "ends_must _ = True"

lemma scan_ends:
  assumes "i < length ops" "ends_must (ops ! i)" "scan_at ops i q s"
  shows "scan_from ops i q = scan_from ops (Suc i) (scan_best q)" and "scan_at ops (Suc i) (scan_best q) (longer s)"
proof -
  obtain ns nl st ml where q: "q = (ns, nl, st, ml)" by (cases q)
  show "scan_from ops i q = scan_from ops (Suc i) (scan_best q)"
    unfolding scan_from_def scan_best_def q prod.case
    by (subst must_scan.simps) (use assms in \<open>cases "ops ! i"; simp\<close>)
qed (rule scan_at_best [OF assms(3)])

lemma scan_skip:
  assumes "i < length ops" "ops ! i = OQUEST k \<or> ops ! i = OCH k" "skip_optional ops i = Some j" "scan_at ops i q s"
  shows "scan_from ops i q = scan_from ops j (scan_best q)" and "scan_at ops j (scan_best q) (longer s)"
proof -
  obtain ns nl st ml where q: "q = (ns, nl, st, ml)" by (cases q)
  show "scan_from ops i q = scan_from ops j (scan_best q)"
    unfolding scan_from_def scan_best_def q prod.case by (subst must_scan.simps) (use assms in auto)
qed (rule scan_at_best [OF assms(4)])

lemma skip_optional_tail:
  "\<lbrakk>at_code g t (alt_tail cs); cs \<noteq> []\<rbrakk> \<Longrightarrow>
   (\<exists>k. strip g ! t = OOR2 k) \<and> skip_optional (strip g) t = Some (t + length (alt_tail cs) - 1)"
proof (induction cs arbitrary: t rule: alt_tail.induct)
  case (2 c)
  then show ?case
    by (subst skip_optional.simps) (auto dest: at_code_length)
next
  case (3 c d ds)
  let ?u = "t + length c + 2"
  have at: "at_code g ?u (alt_tail (d # ds))" and t: "strip g ! t = OOR2 (length c + 2)"
    using "3.prems"(1) by (simp_all add: add.assoc)
  then have "?u < length (strip g)"
    using alt_tail_length [of "d # ds"] by (auto dest: at_code_length)
  then show ?case
    using "3.IH" [OF at] t by (subst skip_optional.simps) (auto simp: Let_def)
qed simp

text \<open>The scan of the code for an expression is the scan of the expression.\<close>

definition scanned :: "re_guts \<Rightarrow> nat \<Rightarrow> nat \<Rightarrow> nat \<times> nat \<times> nat \<times> nat \<Rightarrow> string \<times> string \<Rightarrow> bool" where
  "scanned g a z q s \<longleftrightarrow> (\<exists>q'. scan_from (strip g) a q = scan_from (strip g) z q' \<and> scan_at (strip g) z q' s)"

lemma scanned_char:
  assumes "scanned g a b q s" "b < length (strip g)" "strip g ! b = OCHAR c"
  shows "scanned g a (Suc b) q (fst s @ [c], snd s)"
  using assms scan_char [of b "strip g" c] unfolding scanned_def by (metis prod.collapse)

lemma scanned_skip:
  assumes "scanned g a b q s" "b < length (strip g)" "strip g ! b = OQUEST k \<or> strip g ! b = OCH k"
    "skip_optional (strip g) b = Some j"
  shows "scanned g a j q (longer s)"
  using assms scan_skip [of b "strip g" k j] unfolding scanned_def by metis

lemma scanned_pass:
  assumes "scanned g a b q s" "b < length (strip g)"
    "strip g ! b = OPLUS k \<or> strip g ! b = OLPAREN k \<or> strip g ! b = ORPAREN k"
  shows "scanned g a (Suc b) q s"
  using assms scan_pass [of b "strip g" k] unfolding scanned_def by metis

lemma scanned_ends:
  assumes "scanned g a b q s" "b < length (strip g)" "ends_must (strip g ! b)"
  shows "scanned g a (Suc b) q (longer s)"
  using assms scan_ends [of b "strip g"] unfolding scanned_def by metis

theorem scan_code:
  "\<lbrakk>at_code g a (code_of r); re_ok r; scanned g z a q s\<rbrakk> \<Longrightarrow> scanned g z (a + length (code_of r)) q (must_of r s)"
proof (induction r arbitrary: a s)
  case (Atom x)
  then show ?case
    using scanned_ends [OF Atom.prems(3)] scanned_char [OF Atom.prems(3)] by (cases x) auto
next
  case (Cat r t)
  then show ?case by (simp add: add.assoc [symmetric])
next
  case (Plus r)
  then have "scanned g z (Suc a) q s"
    by (intro scanned_pass) auto
  then have "scanned g z (Suc a + length (code_of r)) q (must_of r s)"
    using Plus.IH [of "Suc a" s] Plus.prems by simp
  from scanned_ends [OF this] Plus.prems(1) show ?case by simp
next
  case (Quest r)
  let ?e = "Suc a + length (code_of r)"
  have "skip_optional (strip g) a = Some ?e"
    using Quest.prems(1) by (subst skip_optional.simps) (auto simp: Let_def)
  then have "scanned g z ?e q (longer s)"
    using scanned_skip [OF Quest.prems(3)] Quest.prems(1) by auto
  from scanned_ends [OF this] Quest.prems(1) show ?case by simp
next
  case (Alt r rs)
  let ?t = "a + length (code_of r) + 2" and ?T = "alt_tail (map code_of rs)"
  let ?e = "?t + length ?T - 1"
  have T: "at_code g ?t ?T" "map code_of rs \<noteq> []" and a: "strip g ! a = OCH (length (code_of r) + 2)" "a < length (strip g)"
    using Alt.prems(1,2) by (simp_all add: add.assoc)
  have len: "2 \<le> length ?T" "?t + length ?T \<le> length (strip g)"
    using alt_tail_length [OF T(2)] at_code_length [OF T(1)] by auto
  have "skip_optional (strip g) a = Some ?e"
    using skip_optional_tail [OF T] a len by (subst skip_optional.simps) (auto simp: Let_def)
  then have "scanned g z ?e q (longer s)"
    using scanned_skip [OF Alt.prems(3)] a by auto
  moreover obtain k where "strip g ! ?e = O_CH k"
    using tail_O_CH [OF T] by auto
  ultimately have "scanned g z (Suc ?e) q (longer s)"
    using scanned_ends [of g z ?e q "longer s"] len by simp
  moreover have "Suc ?e = a + length (code_of (Alt r rs))" using len by simp
  ultimately show ?case by (simp only: must_of.simps)
next
  case (Paren n r)
  then have "scanned g z (Suc a) q s"
    by (intro scanned_pass) auto
  then have "scanned g z (Suc a + length (code_of r)) q (must_of r s)"
    using Paren.IH [of "Suc a" s] Paren.prems by simp
  from scanned_pass [OF this] Paren.prems(1) show ?case by simp
next
  case (Back n r)
  then have "scanned g z (Suc a) q (longer s)"
    by (intro scanned_ends) auto
  then have "scanned g z (Suc a + length (code_of r)) q (must_of r (longer s))"
    using Back.IH [of "Suc a" "longer s"] Back.prems by simp
  from scanned_ends [OF this] Back.prems(1) show ?case by simp
qed auto

section \<open>findmust and pluscount\<close>

text \<open>A strip with the code for an expression between two end marks.\<close>

definition holds_code :: "re_guts \<Rightarrow> re \<Rightarrow> bool" where
  "holds_code g r \<longleftrightarrow> re_ok r \<and> strip g = OEND # code_of r @ [OEND]"

definition must_string :: "re \<Rightarrow> string" where
  "must_string r = snd (longer (must_of r ([], [])))"

lemma holds_code_at: "holds_code g r \<Longrightarrow> at_code g 1 (code_of r)"
  by (simp add: holds_code_def at_code_iff) (metis append_Cons append_Nil length_Cons list.size(3) One_nat_def)

lemma must_scan_code:
  assumes "holds_code g r"
  obtains start where "must_scan (strip g) 1 0 0 0 0 = Some (start, length (must_string r))"
    "must_string r \<noteq> [] \<longrightarrow> take (length (must_string r)) (chars_of (drop start (strip g))) = must_string r"
proof -
  let ?z = "1 + length (code_of r)" and ?s = "must_of r ([], [])"
  have "scanned g 1 1 (0, 0, 0, 0) ([], [])"
    by (force simp: scanned_def scan_at_def)
  then have "scanned g 1 ?z (0, 0, 0, 0) ?s"
    using scan_code [OF holds_code_at [OF assms]] assms by (simp add: holds_code_def)
  then obtain q where q: "must_scan (strip g) 1 0 0 0 0 = scan_from (strip g) ?z q" "scan_at (strip g) ?z q ?s"
    unfolding scanned_def by (metis scan_from_def prod.case)
  moreover have "strip g ! ?z = OEND" "?z < length (strip g)"
    using assms by (auto simp: holds_code_def nth_append)
  then have "scan_from (strip g) ?z q = Some (snd (snd (scan_best q)))"
    unfolding scan_from_def scan_best_def must_scan.simps [of "strip g" ?z] by (cases q) simp
  moreover have "scan_at (strip g) 0 (scan_best q) (longer ?s)"
    by (rule scan_at_best [OF q(2)])
  ultimately show ?thesis
    using that by (cases "scan_best q") (auto simp: scan_at_def must_string_def)
qed

theorem findmust_code:
  assumes "holds_code g r" "perr p = None"
  shows "findmust p g = (if must_string r = [] then g else g\<lparr>must := Some (must_string r)\<rparr>)"
proof -
  obtain start where "must_scan (strip g) 1 0 0 0 0 = Some (start, length (must_string r))"
    "must_string r \<noteq> [] \<longrightarrow> take (length (must_string r)) (chars_of (drop start (strip g))) = must_string r"
    using must_scan_code [OF assms(1)] by blast
  then show ?thesis
    by (simp add: findmust_def assms(2))
qed

theorem must_string_sound:
  assumes "rmatch m r i j"
  shows "sublist (must_string r) (text_of m i j)"
proof -
  have "must_inv m i i ([], [])" by (simp add: must_inv_def)
  from must_inv_longer [OF must_of_sound [OF assms this] order_refl] show ?thesis
    by (simp add: must_inv_def must_string_def)
qed

lemma has_must_sublist: "mu \<noteq> [] \<Longrightarrow> has_must mu s \<longleftrightarrow> sublist mu s"
proof (induction s)
  case (Cons c s)
  have "take (length mu) (c # s) = mu \<longleftrightarrow> prefix mu (c # s)"
    by (metis append_take_drop_id prefixI prefix_def append_eq_conv_conj)
  with Cons show ?case by (simp add: sublist_Cons_right)
qed simp

text \<open>The search for that string does not reject a text with a match.\<close>

lemma prescreen_match:
  assumes "rmatch m r i j" "start \<le> i" "j \<le> stop" "stop \<le> length (str m)"
    and "must g = (if must_string r = [] then None else Some (must_string r))"
  shows "prescreen g (str m) start stop"
proof -
  have "i \<le> j" by (rule rmatch_le [OF assms(1)])
  then have "text_of m start stop = text_of m start i @ text_of m i j @ text_of m j stop"
    using assms(2,3) text_of_append [of start i stop m] text_of_append [of i j stop m] by simp
  then have "sublist (must_string r) (text_of m start stop)"
    using must_string_sound [OF assms(1)] by (simp add: sublist_append)
  then show ?thesis
    using has_must_sublist [of "must_string r"] text_of_drop [OF assms(4), of start]
    by (simp add: prescreen_def assms(5))
qed

text \<open>The loops are nested properly.\<close>

fun no_plus :: "sop \<Rightarrow> bool" where
  "no_plus (OPLUS k) = False"
| "no_plus (O_PLUS k) = False"
| "no_plus OEND = False"
| "no_plus _ = True"

lemma plus_scan_other: "no_plus s \<Longrightarrow> plus_scan (s # ops) n mx = plus_scan ops n mx"
  by (cases s) auto

definition plus_passed :: "sop list \<Rightarrow> bool" where
  "plus_passed c \<longleftrightarrow> (\<forall>ops n mx. \<exists>mx'. plus_scan (c @ ops) n mx = plus_scan ops n mx')"

lemma plus_passed_Nil [simp]: "plus_passed []"
  by (auto simp: plus_passed_def)

lemma plus_passed_append: "plus_passed c \<Longrightarrow> plus_passed d \<Longrightarrow> plus_passed (c @ d)"
  unfolding plus_passed_def append_assoc by metis

lemma plus_passed_other: "no_plus s \<Longrightarrow> plus_passed c \<Longrightarrow> plus_passed (s # c)"
  by (simp add: plus_passed_def plus_scan_other del: plus_scan.simps)

lemma plus_passed_one: "no_plus s \<Longrightarrow> plus_passed [s]"
  by (simp add: plus_passed_other)

lemma plus_passed_tail: "\<forall>c\<in>set cs. plus_passed c \<Longrightarrow> plus_passed (alt_tail cs)"
  by (induction cs rule: alt_tail.induct)
    (auto intro!: plus_passed_other plus_passed_append)

lemma plus_passed_code: "plus_passed (code_of r)"
proof (induction r)
  case (Atom x)
  then show ?case by (cases x) (auto intro: plus_passed_one)
next
  case (Plus r)
  show ?case
    unfolding plus_passed_def
  proof (intro allI)
    fix ops n mx
    obtain mx' where "plus_scan (code_of r @ O_PLUS (length (code_of r) + 1) # ops) (n + 1) mx =
        plus_scan (O_PLUS (length (code_of r) + 1) # ops) (n + 1) mx'"
      using Plus unfolding plus_passed_def by metis
    then show "\<exists>mx'. plus_scan (code_of (Plus r) @ ops) n mx = plus_scan ops n mx'"
      by auto
  qed
next
  case (Alt r rs)
  then show ?case
    by (auto intro!: plus_passed_other plus_passed_append plus_passed_tail)
qed (auto intro!: plus_passed_other plus_passed_append plus_passed_one)

theorem pluscount_code:
  assumes "holds_code g r" "perr p = None"
  obtains n where "pluscount p g = g\<lparr>nplus := n\<rparr>"
proof -
  obtain n where "plus_scan (code_of r @ [OEND]) 0 0 = plus_scan [OEND] 0 n"
    using plus_passed_code [of r] unfolding plus_passed_def by metis
  then show ?thesis
    using that assms by (simp add: pluscount_def holds_code_def)
qed

end
