(* ===== verification/RegEmit.thy ===== *)
theory RegEmit
  imports RegMust
begin

text \<open>
  What the functions that emit operators do to the strip (\<open>doemit\<close> to \<open>repeat\<close> in \<open>regcomp.c\<close>):
  the strip stays within the memory that is allocated for it, and each repetition operator turns
  the code of an expression into the code of the repeated expression.
\<close>

section \<open>The strip in use\<close>

definition emitted :: "parse \<Rightarrow> sop list" where
  "emitted p = take (slen p) (pstrip p)"

definition strip_ok :: "parse \<Rightarrow> bool" where
  "strip_ok p \<longleftrightarrow> slen p \<le> length (pstrip p) \<and> length (pstrip p) \<le> ssize p \<and> 0 < ssize p"

text \<open>A parse without error, with some operators in its strip.\<close>

definition holds :: "parse \<Rightarrow> sop list \<Rightarrow> bool" where
  "holds p c \<longleftrightarrow> strip_ok p \<and> perr p = None \<and> emitted p = c"

lemma holds_slen: "holds p c \<Longrightarrow> slen p = length c"
  by (auto simp: holds_def strip_ok_def emitted_def)

lemma holds_perr: "holds p c \<Longrightarrow> perr p = None"
  by (simp add: holds_def)

lemma holds_iff:
  "holds p c \<longleftrightarrow> perr p = None \<and> slen p = length c \<and> prefix c (pstrip p) \<and> length (pstrip p) \<le> ssize p \<and> 0 < ssize p"
  unfolding holds_def strip_ok_def emitted_def
  by (metis append_eq_conv_conj append_take_drop_id length_take min.absorb2 min.cobounded1 prefix_def take_is_prefix prefix_length_le)

lemma holds_frame [simp]:
  "holds (p\<lparr>rest := r\<rparr>) c = holds p c" "holds (p\<lparr>beyond := b\<rparr>) c = holds p c"
  "holds (p\<lparr>pg := g\<rparr>) c = holds p c" "holds (p\<lparr>ncsalloc := n\<rparr>) c = holds p c"
  "holds (p\<lparr>pbegin := x\<rparr>) c = holds p c" "holds (p\<lparr>pend := x\<rparr>) c = holds p c"
  by (simp_all add: holds_iff)

lemma doemit_simps [simp]:
  "rest (doemit s p) = rest p" "beyond (doemit s p) = beyond p" "perr (doemit s p) = perr p" "pg (doemit s p) = pg p"
  by (simp_all add: doemit_def Let_def enlarge_def)

lemma holds_doemit:
  assumes "holds p c"
  shows "holds (doemit s p) (c @ [s])"
proof -
  from assms obtain zs where "pstrip p = c @ zs" by (auto simp: holds_iff prefix_def)
  then show ?thesis
    using assms unfolding holds_iff
    by (cases zs) (auto simp: doemit_def Let_def enlarge_def write_at_def)
qed

lemma write_prefix: "prefix (c @ d) mem \<Longrightarrow> write_at (length c) d mem = mem"
  by (auto simp: write_at_def prefix_def)

lemma INSERT_simps [simp]:
  "rest (INSERT s n p) = rest p" "beyond (INSERT s n p) = beyond p" "perr (INSERT s n p) = perr p" "pg (INSERT s n p) = pg p"
  by (simp_all add: INSERT_def doinsert_def Let_def)

lemma holds_INSERT:
  assumes "holds p (pre @ c)"
  shows "holds (INSERT s (length pre) p) (pre @ s (length c + 1) # c)"
proof -
  let ?op = "s (length c + 1)"
  have p1: "holds (doemit ?op p) ((pre @ c) @ [?op])"
    by (rule holds_doemit [OF assms])
  then obtain z where z: "pstrip (doemit ?op p) = pre @ c @ ?op # z"
    by (auto simp: holds_iff prefix_def)
  have n: "slen p = length pre + length c"
    using holds_slen [OF assms] by simp
  have "pstrip (INSERT s (length pre) p) = write_at (length pre) (?op # c) (pre @ c @ ?op # z)"
    using holds_perr [OF assms] n z by (simp add: INSERT_def doinsert_def Let_def)
  also have "\<dots> = pre @ ?op # c @ z"
    by (simp add: write_at_def)
  finally show ?thesis
    using p1 z n holds_perr [OF assms] by (simp add: holds_iff INSERT_def doinsert_def Let_def)
qed

lemma AHEAD_simps [simp]:
  "rest (AHEAD n p) = rest p" "beyond (AHEAD n p) = beyond p" "perr (AHEAD n p) = perr p" "pg (AHEAD n p) = pg p"
  "slen (AHEAD n p) = slen p"
  by (simp_all add: AHEAD_def dofwd_def)

lemma holds_AHEAD:
  assumes "holds p (pre @ s # c)"
  shows "holds (AHEAD (length pre) p) (pre @ with_operand s (length c + 1) # c)"
  using assms holds_slen [OF assms] unfolding holds_iff
  by (auto simp: AHEAD_def dofwd_def prefix_def nth_append list_update_append)

lemma ASTERN_simps [simp]:
  "rest (ASTERN s n p) = rest p" "beyond (ASTERN s n p) = beyond p" "perr (ASTERN s n p) = perr p" "pg (ASTERN s n p) = pg p"
  by (simp_all add: ASTERN_def)

lemma holds_ASTERN:
  assumes "holds p (pre @ c)"
  shows "holds (ASTERN s (length pre) p) (pre @ c @ [s (length c)])"
  using holds_doemit [OF assms, of "s (length c)"] holds_slen [OF assms] by (simp add: ASTERN_def)

section \<open>Repetition operators\<close>

lemma holds_emit_plus:
  assumes "holds p (pre @ code_of r)"
  shows "holds (emit_plus (length pre) p) (pre @ code_of (Plus r))"
  using holds_ASTERN [OF holds_INSERT [OF assms, of OPLUS], of O_PLUS] by (simp add: emit_plus_def)

lemma holds_emit_star:
  assumes "holds p (pre @ code_of r)"
  shows "holds (emit_star (length pre) p) (pre @ code_of (Quest (Plus r)))"
  using holds_ASTERN [OF holds_INSERT [OF holds_emit_plus [OF assms], of OQUEST], of O_QUEST]
  by (simp add: emit_star_def emit_plus_def)

lemma holds_close_option:
  assumes "holds p (pre @ OCH k # code_of r)"
  shows "holds (close_option (length pre) p) (pre @ code_of (Alt r [Eps]))"
proof -
  let ?n = "length (code_of r)"
  have "holds (ASTERN OOR1 (length pre) p) (pre @ OCH k # code_of r @ [OOR1 (?n + 1)])"
    using holds_ASTERN [OF assms, of OOR1] by simp
  then have "holds (AHEAD (length pre) (ASTERN OOR1 (length pre) p)) (pre @ OCH (?n + 2) # code_of r @ [OOR1 (?n + 1)])"
    using holds_AHEAD by fastforce
  from holds_doemit [OF this, of "OOR2 0"]
  have p3: "holds (doemit (OOR2 0) (AHEAD (length pre) (ASTERN OOR1 (length pre) p)))
      ((pre @ OCH (?n + 2) # code_of r @ [OOR1 (?n + 1)]) @ OOR2 0 # [])" (is "holds ?p3 (?c @ _)")
    by simp
  from holds_AHEAD [OF this] have p4: "holds (AHEAD (THERE ?p3) ?p3) (?c @ [OOR2 1])" (is "holds ?p4 _")
    using holds_slen [OF p3] by simp
  then have "holds ?p4 ((pre @ OCH (?n + 2) # code_of r) @ [OOR1 (?n + 1), OOR2 1])"
    by simp
  from holds_ASTERN [OF this, of O_CH] show ?thesis
    using holds_slen [OF p4] by (simp add: close_option_def Let_def)
qed

lemma close_option_simps [simp]:
  "rest (close_option n p) = rest p" "beyond (close_option n p) = beyond p"
  "perr (close_option n p) = perr p" "pg (close_option n p) = pg p"
  by (simp_all add: close_option_def Let_def)

lemma holds_emit_quest:
  assumes "holds p (pre @ code_of r)"
  shows "holds (emit_quest (length pre) p) (pre @ code_of (Alt r [Eps]))"
  using holds_close_option [OF holds_INSERT [OF assms, of OCH]] by (simp add: emit_quest_def)

lemma holds_dupl:
  assumes "holds p (pre @ c @ d)"
  obtains q where "dupl (length pre) (length pre + length c) p = (length (pre @ c @ d), q)" "holds q (pre @ c @ d @ c)"
    "rest q = rest p" "beyond q = beyond p" "pg q = pg p"
proof (cases "c = []")
  case True
  then show ?thesis
    using that assms holds_slen [OF assms] by (simp add: dupl_def)
next
  case False
  let ?q = "snd (dupl (length pre) (length pre + length c) p)"
  have "holds ?q (pre @ c @ d @ c)"
    using assms False unfolding holds_iff
    by (auto simp: dupl_def Let_def enlarge_def write_at_def prefix_def)
  then show ?thesis
    using that [of ?q] holds_slen [OF assms] False by (simp add: dupl_def Let_def enlarge_def)
qed

section \<open>Bounded repetition\<close>

text \<open>The expression that \<open>repeat\<close> makes the code of; no upper bound is \<open>None\<close>.\<close>

fun rep_upto :: "nat \<Rightarrow> re \<Rightarrow> re" where
  "rep_upto (Suc (Suc n)) r = Cat (Alt r [Eps]) (rep_upto (Suc n) r)"
| "rep_upto _ r = r"

primrec rep_least :: "nat \<Rightarrow> nat option \<Rightarrow> re \<Rightarrow> re" where
  "rep_least 0 hi r = (case hi of None \<Rightarrow> Plus r | Some h \<Rightarrow> rep_upto h r)"
| "rep_least (Suc n) hi r = Cat r (rep_least n (map_option (\<lambda>h. h - 1) hi) r)"

definition rep_re :: "nat \<Rightarrow> nat option \<Rightarrow> re \<Rightarrow> re" where
  "rep_re lo hi r =
     (if lo = 0 then if hi = Some 0 then Eps else Alt (rep_least 0 hi r) [Eps] else rep_least (lo - 1) hi r)"

definition bound_of :: "nat option \<Rightarrow> nat" where
  "bound_of hi = (case hi of None \<Rightarrow> INFINITY | Some h \<Rightarrow> h)"

definition bounds_ok :: "nat \<Rightarrow> nat option \<Rightarrow> bool" where
  "bounds_ok lo hi \<longleftrightarrow> lo \<le> DUPMAX \<and> (case hi of None \<Rightarrow> True | Some h \<Rightarrow> lo \<le> h \<and> h \<le> DUPMAX)"

text \<open>The same parse apart from the strip.\<close>

definition same_input :: "parse \<Rightarrow> parse \<Rightarrow> bool" where
  "same_input p q \<longleftrightarrow> rest q = rest p \<and> beyond q = beyond p \<and> pg q = pg p"

lemma repeat_upto:
  assumes "holds p (pre @ code_of r)" "0 < h" "h \<le> DUPMAX"
  shows "holds (repeat (length pre) 1 h p) (pre @ code_of (rep_upto h r)) \<and> same_input p (repeat (length pre) 1 h p)"
  using assms
proof (induction h r arbitrary: pre p rule: rep_upto.induct)
  case (1 n r)
  let ?n = "length (code_of r)"
  have e: "perr p = None" "slen p = length pre + ?n"
    using holds_perr [OF "1.prems"(1)] holds_slen [OF "1.prems"(1)] by simp_all
  let ?p = "close_option (length pre) (INSERT OCH (length pre) p)"
  have "holds ?p (pre @ code_of (Alt r [Eps]))"
    by (rule holds_close_option [OF holds_INSERT [OF "1.prems"(1)]])
  then have "holds ?p ((pre @ [OCH (?n + 2)]) @ code_of r @ [OOR1 (?n + 1), OOR2 1, O_CH 2])"
    by (simp add: numeral_2_eq_2)
  from holds_dupl [OF this] obtain q where
    "dupl (length (pre @ [OCH (?n + 2)])) (length (pre @ [OCH (?n + 2)]) + ?n) ?p =
       (length ((pre @ [OCH (?n + 2)]) @ code_of r @ [OOR1 (?n + 1), OOR2 1, O_CH 2]), q)"
    "holds q ((pre @ [OCH (?n + 2)]) @ code_of r @ [OOR1 (?n + 1), OOR2 1, O_CH 2] @ code_of r)"
    "rest q = rest ?p" "beyond q = beyond ?p" "pg q = pg ?p" by blast
  then have q: "dupl (length pre + 1) (slen p + 1) ?p = (length (pre @ code_of (Alt r [Eps])), q)"
      "holds q ((pre @ code_of (Alt r [Eps])) @ code_of r)" "rest q = rest p" "beyond q = beyond p" "pg q = pg p"
    using e(2) by (simp_all add: numeral_2_eq_2)
  have "repeat (length pre) 1 (Suc (Suc n)) p = repeat (length (pre @ code_of (Alt r [Eps]))) 1 (Suc n) q"
    using e q(1) "1.prems"(3) by (subst repeat.simps) (simp add: INFINITY_def)
  then show ?case
    using "1.IH" [OF q(2)] "1.prems"(3) q(3-5) by (simp add: same_input_def)
next
  case 2: "2_2"
  have "repeat (length pre) 1 1 p = p"
    by (subst repeat.simps) simp
  then show ?case
    using 2(1) by (simp add: same_input_def)
qed simp

lemma repeat_least:
  assumes "holds p (pre @ code_of r)" "bounds_ok (Suc n) hi"
  shows "holds (repeat (length pre) (Suc n) (bound_of hi) p) (pre @ code_of (rep_least n hi r)) \<and>
    same_input p (repeat (length pre) (Suc n) (bound_of hi) p)"
  using assms
proof (induction n arbitrary: pre p hi)
  case 0
  show ?case
  proof (cases hi)
    case None
    have "repeat (length pre) 1 INFINITY p = emit_plus (length pre) p"
      using holds_perr [OF "0.prems"(1)] by (subst repeat.simps) (simp add: INFINITY_def DUPMAX_def emit_plus_def)
    then show ?thesis
      using holds_emit_plus [OF "0.prems"(1)] None by (simp add: bound_of_def same_input_def emit_plus_def)
  next
    case (Some h)
    then show ?thesis
      using repeat_upto [OF "0.prems"(1), of h] "0.prems"(2) by (simp add: bound_of_def bounds_ok_def)
  qed
next
  case (Suc n)
  have e: "perr p = None" "slen p = length pre + length (code_of r)"
    using holds_perr [OF Suc.prems(1)] holds_slen [OF Suc.prems(1)] by simp_all
  let ?hi = "map_option (\<lambda>h. h - 1) hi"
  obtain q where q: "dupl (length pre) (slen p) p = (length (pre @ code_of r), q)" "holds q ((pre @ code_of r) @ code_of r)"
    "rest q = rest p" "beyond q = beyond p" "pg q = pg p"
    using holds_dupl [of p pre "code_of r" "[]"] Suc.prems(1) e by auto
  have "repeat (length pre) (Suc (Suc n)) (bound_of hi) p = repeat (length (pre @ code_of r)) (Suc n) (bound_of ?hi) q"
    using e q(1) Suc.prems(2)
    by (subst repeat.simps) (auto simp: bound_of_def bounds_ok_def INFINITY_def DUPMAX_def split: option.splits)
  moreover have "bounds_ok (Suc n) ?hi"
    using Suc.prems(2) by (auto simp: bounds_ok_def split: option.splits)
  ultimately show ?case
    using Suc.IH [OF q(2)] q(3-5) by (simp add: same_input_def)
qed

theorem repeat_code:
  assumes "holds p (pre @ code_of r)" "bounds_ok lo hi"
  shows "holds (repeat (length pre) lo (bound_of hi) p) (pre @ code_of (rep_re lo hi r)) \<and>
    same_input p (repeat (length pre) lo (bound_of hi) p)"
proof (cases lo)
  case 0
  have e: "perr p = None" "slen p = length pre + length (code_of r)"
    using holds_perr [OF assms(1)] holds_slen [OF assms(1)] by simp_all
  show ?thesis
  proof (cases "hi = Some 0")
    case True
    have "repeat (length pre) 0 0 p = DROP (slen p - length pre) p"
      using e by (subst repeat.simps) simp
    moreover have "holds (DROP (slen p - length pre) p) pre"
      using assms(1) e unfolding holds_iff by (auto simp: DROP_def dest: append_prefixD)
    ultimately show ?thesis
      using 0 True by (simp add: bound_of_def rep_re_def same_input_def DROP_def)
  next
    case False
    let ?k = "length (code_of r) + 1" and ?p = "INSERT OCH (length pre) p"
    have "holds ?p ((pre @ [OCH ?k]) @ code_of r)"
      using holds_INSERT [OF assms(1), of OCH] by simp
    from repeat_least [OF this, of 0 hi]
    have "holds (repeat (Suc (length pre)) 1 (bound_of hi) ?p) (pre @ OCH ?k # code_of (rep_least 0 hi r))"
      "same_input p (repeat (Suc (length pre)) 1 (bound_of hi) ?p)"
      using False assms(2) by (auto simp: bounds_ok_def same_input_def DUPMAX_def split: option.splits)
    moreover have "repeat (length pre) 0 (bound_of hi) p =
        close_option (length pre) (repeat (Suc (length pre)) 1 (bound_of hi) ?p)"
      using e False by (subst repeat.simps) (auto simp: bound_of_def INFINITY_def split: option.splits)
    ultimately show ?thesis
      using 0 False holds_close_option by (simp add: rep_re_def same_input_def del: rep_least.simps code_of.simps)
  qed
next
  case (Suc n)
  then show ?thesis
    using repeat_least [of p pre r n hi] assms by (simp add: rep_re_def)
qed

section \<open>What repeated expressions match\<close>

definition reps :: "(nat \<Rightarrow> nat \<Rightarrow> bool) \<Rightarrow> nat \<Rightarrow> nat option \<Rightarrow> nat \<Rightarrow> nat \<Rightarrow> bool" where
  "reps R lo hi i j \<longleftrightarrow> (\<exists>k. lo \<le> k \<and> (\<forall>h. hi = Some h \<longrightarrow> k \<le> h) \<and> (R ^^ k) i j)"

lemma relpowp_Suc_left: "(R ^^ Suc k) i j \<longleftrightarrow> (\<exists>l. R i l \<and> (R ^^ k) l j)"
  by (metis relpowp_Suc_D2 relpowp_Suc_I2)

lemma ex_Suc_le: "(\<exists>k. Suc n \<le> k \<and> P k) \<longleftrightarrow> (\<exists>k. n \<le> k \<and> P (Suc k))"
  by (metis Suc_le_D Suc_le_mono)

lemma reps_Suc:
  "reps R (Suc n) hi i j \<longleftrightarrow> (\<exists>l. R i l \<and> reps R n (map_option (\<lambda>h. h - 1) hi) l j)" if "\<forall>h. hi = Some h \<longrightarrow> 0 < h"
proof -
  have "(\<forall>h. hi = Some h \<longrightarrow> Suc k \<le> h) \<longleftrightarrow> (\<forall>h. map_option (\<lambda>h. h - 1) hi = Some h \<longrightarrow> k \<le> h)" for k
    using that by (cases hi) auto
  then show ?thesis
    unfolding reps_def ex_Suc_le relpowp_Suc_left by blast
qed

lemma reps_0: "reps R 0 hi i j \<longleftrightarrow> i = j \<or> hi \<noteq> Some 0 \<and> reps R 1 hi i j"
proof -
  have "(\<exists>k. (\<forall>h. hi = Some h \<longrightarrow> k \<le> h) \<and> (R ^^ k) i j) \<longleftrightarrow>
      i = j \<or> (\<exists>k. 1 \<le> k \<and> (\<forall>h. hi = Some h \<longrightarrow> k \<le> h) \<and> (R ^^ k) i j)"
    by (metis One_nat_def Suc_leI le0 neq0_conv relpowp_0_E relpowp_0_I)
  then show ?thesis
    unfolding reps_def by (auto intro: le_trans)
qed

lemma reps_one: "reps R 1 (Some 1) = R"
  by (intro ext) (auto simp: reps_def le_antisym relpowp_Suc_left dest: le_antisym intro!: exI [of _ 1])

lemma reps_plus: "reps R 1 None = R\<^sup>+\<^sup>+"
  by (intro ext) (auto simp: reps_def tranclp_power Suc_le_eq)

lemma reps_star: "reps R 0 None = R\<^sup>*\<^sup>*"
  by (intro ext) (simp add: reps_def rtranclp_power)

lemma rmatch_rep_upto: "0 < h \<Longrightarrow> rmatch m (rep_upto h r) = reps (rmatch m r) 1 (Some h)"
proof (induction h r rule: rep_upto.induct)
  case (1 n r)
  let ?R = "rmatch m r"
  have "reps ?R 1 (Some (Suc (Suc n))) i j \<longleftrightarrow>
      (\<exists>l. ?R i l \<and> reps ?R 1 (Some (Suc n)) l j) \<or> reps ?R 1 (Some (Suc n)) i j" for i j
  proof -
    have "reps ?R 1 (Some (Suc (Suc n))) i j \<longleftrightarrow> (\<exists>l. ?R i l \<and> reps ?R 0 (Some (Suc n)) l j)"
      using reps_Suc [of "Some (Suc (Suc n))" ?R 0 i j] by simp
    moreover have "reps ?R 1 (Some (Suc n)) i j \<longleftrightarrow> (\<exists>l. ?R i l \<and> reps ?R 0 (Some n) l j)"
      using reps_Suc [of "Some (Suc n)" ?R 0 i j] by simp
    moreover have "reps ?R 0 (Some (Suc n)) l j \<longleftrightarrow> l = j \<or> reps ?R 1 (Some (Suc n)) l j" for l
      by (simp add: reps_0)
    moreover have "reps ?R 0 (Some n) l j \<Longrightarrow> reps ?R 0 (Some (Suc n)) l j" for l
      unfolding reps_def by (clarsimp, metis le_SucI)
    moreover have "reps ?R 0 (Some n) j j"
      by (simp add: reps_0)
    ultimately show ?thesis by metis
  qed
  then show ?case
    using 1 by (intro ext) auto
qed (simp_all add: reps_one [unfolded One_nat_def])

lemma rmatch_rep_least:
  "bounds_ok (Suc n) hi \<Longrightarrow> rmatch m (rep_least n hi r) = reps (rmatch m r) (Suc n) hi"
proof (induction n arbitrary: hi)
  case 0
  then show ?case
    using rmatch_rep_upto [of _ m r] reps_plus by (auto simp: bounds_ok_def split: option.splits)
next
  case (Suc n)
  have "bounds_ok (Suc n) (map_option (\<lambda>h. h - 1) hi)"
    using Suc.prems by (auto simp: bounds_ok_def split: option.splits)
  then show ?case
    using Suc reps_Suc [of hi "rmatch m r" "Suc n"]
    by (intro ext) (auto simp: bounds_ok_def OO_def split: option.splits)
qed

theorem rmatch_rep: "bounds_ok lo hi \<Longrightarrow> rmatch m (rep_re lo hi r) = reps (rmatch m r) lo hi"
proof (cases lo)
  case 0
  assume b: "bounds_ok lo hi"
  show ?thesis
  proof (cases "hi = Some 0")
    case True
    then show ?thesis
      using 0 by (intro ext) (auto simp: rep_re_def reps_def)
  next
    case False
    then have "bounds_ok 1 hi"
      using b by (auto simp: bounds_ok_def DUPMAX_def split: option.splits)
    then show ?thesis
      using 0 False rmatch_rep_least [of 0 hi m r]
      by (intro ext) (auto simp: rep_re_def reps_0 simp del: rep_least.simps)
  qed
qed (simp add: rep_re_def rmatch_rep_least)

lemma re_ok_rep: "re_ok r \<Longrightarrow> re_ok (rep_re lo hi r)"
proof -
  assume r: "re_ok r"
  then have "re_ok (rep_upto h r)" for h
    by (induction h r rule: rep_upto.induct) auto
  then have "re_ok (rep_least n hi r)" for n hi
    using r by (induction n arbitrary: hi) (auto split: option.splits)
  then show ?thesis
    by (simp add: rep_re_def del: rep_least.simps)
qed

text \<open>Anchors are only copied when there are two or more operands.\<close>

definition is_anchor :: "sop \<Rightarrow> bool" where
  "is_anchor s \<longleftrightarrow> s = OBOL \<or> s = OEOL"

definition between_chars :: "sop \<Rightarrow> bool" where
  "between_chars s \<longleftrightarrow> is_anchor s \<or> s = OBOW \<or> s = OEOW"

lemma count_rep_none: "between_chars s \<Longrightarrow> s \<notin> set (code_of r) \<Longrightarrow> s \<notin> set (code_of (rep_re lo hi r))"
proof -
  assume s: "between_chars s" "s \<notin> set (code_of r)"
  then have "s \<notin> set (code_of (rep_upto h r))" for h
    by (induction h r rule: rep_upto.induct) (auto simp: between_chars_def is_anchor_def)
  then have "s \<notin> set (code_of (rep_least n hi r))" for n hi
    using s by (induction n arbitrary: hi) (auto simp: between_chars_def is_anchor_def split: option.splits)
  then show ?thesis
    using s(1) by (auto simp: rep_re_def between_chars_def is_anchor_def simp del: rep_least.simps)
qed

lemma count_rep_once:
  assumes "is_anchor s" "lo \<le> 1" "\<forall>h. hi = Some h \<longrightarrow> h \<le> 1"
  shows "count_list (code_of (rep_re lo hi r)) s \<le> count_list (code_of r) s"
proof -
  have "count_list (code_of (rep_least 0 hi r)) s = count_list (code_of r) s"
    using assms by (cases hi) (auto simp: is_anchor_def le_Suc_eq)
  then show ?thesis
    using assms(1,2) by (auto simp: rep_re_def is_anchor_def le_Suc_eq simp del: rep_least.simps)
qed

end
