(* ===== verification/RegSyntax.thy ===== *)
theory RegSyntax
  imports RegEmit
begin

text \<open>
  The syntax of extended regular expressions as a grammar, and what they match, without the
  parser and the compiled form.  The bracket expressions that the parser accepts are words of
  the grammar, and the set it computes is the one they mean.
\<close>

section \<open>Expressions\<close>

datatype ere =
    ECls "char set" | EBol | EEol | EEmpty | ESeq ere ere | EAlt ere ere | ERep ere nat "nat option" | EGroup ere

text \<open>Which parts of the string of a match structure an expression matches.\<close>

primrec ematch :: "re_match \<Rightarrow> ere \<Rightarrow> nat \<Rightarrow> nat \<Rightarrow> bool" where
  "ematch m (ECls S) = (\<lambda>i j. j = Suc i \<and> i < endp m \<and> str m ! i \<in> S)"
| "ematch m EBol = (\<lambda>i j. j = i \<and> at_bol m (char_before m i))"
| "ematch m EEol = (\<lambda>i j. j = i \<and> at_eol m (char_here m i))"
| "ematch m EEmpty = (=)"
| "ematch m (ESeq e f) = ematch m e OO ematch m f"
| "ematch m (EAlt e f) = (\<lambda>i j. ematch m e i j \<or> ematch m f i j)"
| "ematch m (ERep e lo hi) = reps (ematch m e) lo hi"
| "ematch m (EGroup e) = ematch m e"

text \<open>Both cases of a letter, the characters of a dot, and those of a negated set.\<close>

definition folded :: "u32 \<Rightarrow> char set \<Rightarrow> char set" where
  "folded flags S = (if has_flag flags REG_ICASE then S \<union> {c. othercase c \<in> S} else S)"

definition dot_chars :: "u32 \<Rightarrow> char set" where
  "dot_chars flags = (if has_flag flags REG_NEWLINE then - {newline} else UNIV)"

definition bracket_chars :: "u32 \<Rightarrow> bool \<Rightarrow> char set \<Rightarrow> char set" where
  "bracket_chars flags neg S = (if neg then dot_chars flags - folded flags S else folded flags S)"

section \<open>The grammar of bracket expressions\<close>

definition names_char :: "string \<Rightarrow> char \<Rightarrow> bool" where
  "names_char name c \<longleftrightarrow> (case map_of cnames name of Some d \<Rightarrow> c = d | None \<Rightarrow> name = [c])"

inductive symbol :: "string \<Rightarrow> char \<Rightarrow> bool" where
  symbol_char: "c \<noteq> CHR '']'' \<Longrightarrow> symbol [c] c"
| symbol_name: "names_char name c \<Longrightarrow> symbol (''[.'' @ name @ ''.]'') c"

text \<open>
  A hyphen is no term by itself.  An opening bracket is one only if what follows does not make it
  the beginning of a class, of an equivalence class or of a collating symbol.
\<close>

definition starts_in :: "string \<Rightarrow> string \<Rightarrow> bool" where
  "starts_in v cs = (case v of [] \<Rightarrow> False | c # _ \<Rightarrow> c \<in> set cs)"

definition cut_ok :: "string \<Rightarrow> string \<Rightarrow> bool" where
  "cut_ok w v \<longleftrightarrow> (w = ''['' \<longrightarrow> \<not> starts_in v ''.:='') \<and> (suffix ''-['' w \<longrightarrow> \<not> starts_in v ''.'')"

inductive bracket_term :: "string \<Rightarrow> char set \<Rightarrow> bool" where
  term_class: "map_of cclasses name = Some cs \<Longrightarrow> bracket_term (''[:'' @ name @ '':]'') (set cs)"
| term_equivalent: "names_char name c \<Longrightarrow> bracket_term (''[='' @ name @ ''=]'') {c}"
| term_symbol: "\<lbrakk>symbol w c; w \<noteq> ''-''\<rbrakk> \<Longrightarrow> bracket_term w {c}"
| term_range: "\<lbrakk>symbol w a; w \<noteq> ''-''; symbol v b; schar a \<le> schar b\<rbrakk> \<Longrightarrow>
    bracket_term (w @ ''-'' @ v) {c. schar a \<le> schar c \<and> schar c \<le> schar b}"

inductive bracket_items :: "string \<Rightarrow> char set \<Rightarrow> bool" where
  items_Nil: "bracket_items [] {}"
| items_Cons: "\<lbrakk>bracket_term w S; bracket_items v T; cut_ok w v\<rbrakk> \<Longrightarrow> bracket_items (w @ v) (S \<union> T)"

text \<open>
  A bracket expression after its opening bracket.  A circumflex at the start negates it.  Next, a
  closing bracket or a hyphen stands for itself, so that the expression cannot be ended or
  continued by them there.
\<close>

inductive bracket :: "u32 \<Rightarrow> string \<Rightarrow> char set \<Rightarrow> bool" where
  bracketI: "\<lbrakk>v = [] \<or> v = '']'' \<or> v = ''-''; bracket_items w S; u = [] \<or> u = ''-'';
      v = [] \<longrightarrow> \<not> starts_in (w @ u @ '']'') '']-''; \<not> neg \<longrightarrow> \<not> starts_in (v @ w @ u @ '']'') ''^''\<rbrakk> \<Longrightarrow>
    bracket flags ((if neg then ''^'' else []) @ v @ w @ u @ '']'') (bracket_chars flags neg (set v \<union> S \<union> set u))"

section \<open>Reading\<close>

text \<open>From one parse to another without error, only the text in between has been read.\<close>

definition moved :: "parse \<Rightarrow> parse \<Rightarrow> string \<Rightarrow> bool" where
  "moved p q w \<longleftrightarrow> rest p = w @ rest q \<and> q = p\<lparr>rest := rest q\<rparr>"

lemma moved_refl [simp]: "moved p p w \<longleftrightarrow> w = []"
  by (simp add: moved_def)

lemma moved_trans: "\<lbrakk>moved p q w; moved q r v\<rbrakk> \<Longrightarrow> moved p r (w @ v)"
  unfolding moved_def by (metis append.assoc parse.surjective parse.update_convs(1))

lemma moved_perr: "moved p q w \<Longrightarrow> perr q = perr p"
  unfolding moved_def by (metis parse.select_convs(3) parse.surjective parse.update_convs(1))

lemma perr_seterr [simp]: "perr (seterr e p) \<noteq> None"
  by (simp add: seterr_def)

lemma perr_REQUIRE [simp]: "perr (REQUIRE b e p) = None \<longleftrightarrow> b \<and> perr p = None"
  by (simp add: REQUIRE_def)

lemma REQUIRE_True [simp]: "REQUIRE True e p = p"
  by (simp add: REQUIRE_def)

lemma perr_NEXTn [simp]: "perr (NEXTn n p) = perr p"
  by (simp add: NEXTn_def)

lemma moved_NEXTn: "n \<le> length (rest p) \<Longrightarrow> moved p (NEXTn n p) (take n (rest p))"
  by (simp add: moved_def NEXTn_def)

lemma moved_EAT: "EAT c p = (b, q) \<Longrightarrow> moved p q (if b then [c] else [])"
  by (auto simp: EAT_def SEE_def NEXTn_def moved_def split: if_splits list.splits)

lemma moved_EATTWO: "EATTWO c d p = (b, q) \<Longrightarrow> moved p q (if b then [c, d] else [])"
  by (auto simp: EATTWO_def SEETWO_def NEXTn_def moved_def split: if_splits list.splits)

lemma moved_GETNEXT: "MORE p \<Longrightarrow> moved p (snd (GETNEXT p)) [fst (GETNEXT p)]"
  by (cases "rest p") (auto simp: GETNEXT_def PEEK_def MORE_def moved_def NEXTn_def)

lemma moved_MUSTEAT: "perr (MUSTEAT c e p) = None \<Longrightarrow> moved p (MUSTEAT c e p) [c]"
  by (cases "rest p") (auto simp: MUSTEAT_def MORE_def PEEK_def REQUIRE_def moved_def NEXTn_def split: if_splits)

section \<open>Bracket expressions\<close>

lemma coll_name_split:
  "coll_name endc cs = (name, r) \<Longrightarrow> cs = name @ r \<and> (r \<noteq> [] \<longrightarrow> (\<exists>t. r = endc # CHR '']'' # t))"
proof (induction endc cs arbitrary: name rule: coll_name.induct)
  case (2 endc c cs)
  show ?case
  proof (cases "c = endc \<and> (case cs of d # _ \<Rightarrow> d = CHR '']'' | [] \<Rightarrow> False)")
    case True
    then have "name = []" "r = c # cs" using "2.prems" by auto
    then show ?thesis using True by (cases cs) auto
  next
    case False
    obtain n r' where n: "coll_name endc cs = (n, r')" by fastforce
    then have "name = c # n" "r = r'" using "2.prems" False by auto
    then show ?thesis using "2.IH" [OF False] n by simp
  qed
qed simp

lemma coll_elem_read:
  assumes "p_b_coll_elem endc p = (c, q)" "perr q = None"
  obtains name t where "moved p q name" "rest q = endc # CHR '']'' # t" "names_char name c"
proof -
  obtain name r where n: "coll_name endc (rest p) = (name, r)" by fastforce
  note split = coll_name_split [OF n]
  show ?thesis
  proof (cases "r = []")
    case True
    then show ?thesis using assms n by (auto simp: p_b_coll_elem_def)
  next
    case False
    then obtain t where t: "r = endc # CHR '']'' # t" using split by blast
    have "q = p\<lparr>rest := r\<rparr>" "names_char name c"
      using assms n False
      by (auto simp: p_b_coll_elem_def names_char_def length_Suc_conv Let_def split: option.splits if_splits)
    then show ?thesis
      using that split t by (simp add: moved_def)
  qed
qed

lemma symbol_read:
  assumes "p_b_symbol p = (c, q)" "perr q = None" "PEEK p \<noteq> CHR '']''"
  obtains w where "moved p q w" "symbol w c" "perr p = None" "w = ''['' \<longrightarrow> \<not> starts_in (rest q) ''.''"
proof -
  let ?p = "REQUIRE (MORE p) REG_EBRACK p"
  obtain two p1 where p1: "EATTWO (CHR ''['') (CHR ''.'') ?p = (two, p1)" by fastforce
  show ?thesis
  proof (cases two)
    case False
    then have "p1 = ?p" "GETNEXT ?p = (c, q)"
      using p1 assms(1) by (auto simp: p_b_symbol_def EATTWO_def Let_def split: if_splits)
    then have g: "MORE p" "perr p = None" "GETNEXT p = (c, q)"
      using assms(2) by (auto simp: GETNEXT_def REQUIRE_def split: if_splits)
    then have "c \<noteq> CHR '']''" using assms(3) by (simp add: GETNEXT_def)
    moreover have "\<not> starts_in (rest q) ''.''" if "c = CHR ''[''"
      using p1 False g that by (cases "rest p")
        (auto simp: EATTWO_def SEETWO_def GETNEXT_def PEEK_def NEXTn_def starts_in_def split: if_splits list.splits)
    ultimately show ?thesis
      using that [of "[c]"] moved_GETNEXT [OF g(1)] symbol_char [of c] g by simp
  next
    case True
    obtain d p2 where p2: "p_b_coll_elem (CHR ''.'') p1 = (d, p2)" by fastforce
    obtain closed p3 where p3: "EATTWO (CHR ''.'') (CHR '']'') p2 = (closed, p3)" by fastforce
    have "c = d" "q = REQUIRE closed REG_ECOLLATE p3"
      using assms(1) p1 p2 p3 True by (auto simp: p_b_symbol_def Let_def)
    then have q: "c = d" "q = p3" closed "perr p3 = None"
      using assms(2) by auto
    then have p2': "moved p2 p3 ''.]''" "perr p2 = None"
      using moved_EATTWO [OF p3] moved_perr [of p2 p3] by auto
    obtain name t where n: "moved p1 p2 name" "names_char name c"
      using coll_elem_read [OF p2 p2'(2)] q(1) by metis
    have "moved ?p p1 ''[.''"
      using moved_EATTWO [OF p1] True by simp
    moreover have "perr ?p = None"
      using calculation n(1) p2'(2) by (auto dest!: moved_perr)
    ultimately have "moved p p1 ''[.''" "perr p = None" by auto
    then have "moved p p3 (''[.'' @ name @ ''.]'')"
      using moved_trans n(1) p2'(1) by blast
    then show ?thesis
      using that [of "''[.'' @ name @ ''.]''"] n(2) q(2) symbol_name [of name c] \<open>perr p = None\<close> by simp
  qed
qed

lemma CHIN_fold_add [simp]: "CHIN (fold (\<lambda>c s. CHadd s c) xs cs) d \<longleftrightarrow> d \<in> set xs \<or> CHIN cs d"
  by (induction xs arbitrary: cs) auto

lemma schar_char: "char_of (nat (schar c mod 256)) = c"
proof -
  have "nat (schar c mod 256) = uch c"
    using uch_less [of c] mod_add_self2 [of "int (uch c) - 256" 256] by (simp add: schar_def del: mod_add_self2)
  then show ?thesis by (simp add: uch_def)
qed

lemma schar_range: "- 128 \<le> schar c" "schar c \<le> 127"
  using uch_less [of c] by (auto simp: schar_def)

lemma char_schar: "- 128 \<le> i \<Longrightarrow> i \<le> 127 \<Longrightarrow> schar (char_of (nat (i mod 256))) = i"
proof -
  assume i: "- 128 \<le> i" "i \<le> 127"
  show ?thesis
  proof (cases "0 \<le> i")
    case True
    then show ?thesis using i by (simp add: schar_def uch_def)
  next
    case False
    then have "i mod 256 = i + 256"
      using i mod_add_self2 [of i 256] by (simp add: mod_pos_pos_trivial del: mod_add_self2)
    then show ?thesis using False i by (simp add: schar_def uch_def)
  qed
qed

lemma schar_eq: "schar a = schar b \<longleftrightarrow> a = b"
  by (metis schar_char)

lemma set_char_range: "set (char_range a b) = {c. schar a \<le> schar c \<and> schar c \<le> schar b}"
proof
  show "set (char_range a b) \<subseteq> {c. schar a \<le> schar c \<and> schar c \<le> schar b}"
    using schar_range [of a] schar_range [of b] char_schar by (auto simp: char_range_def)
  show "{c. schar a \<le> schar c \<and> schar c \<le> schar b} \<subseteq> set (char_range a b)"
    by (auto simp: char_range_def image_iff) (metis atLeastAtMost_iff schar_char)
qed

lemma range_read:
  assumes "p_b_range p cs = (q, cs')" "perr q = None" "PEEK p \<noteq> CHR '']''" "\<not> SEE (CHR ''-'') p"
    and "\<not> SEETWO (CHR ''['') (CHR '':'') p" "\<not> SEETWO (CHR ''['') (CHR ''='') p"
  obtains w S where "moved p q w" "bracket_term w S" "\<forall>c. CHIN cs' c \<longleftrightarrow> c \<in> S \<or> CHIN cs c" "perr p = None" "cut_ok w (rest q)"
proof -
  obtain a p1 where a: "p_b_symbol p = (a, p1)" by fastforce
  have dash: "w \<noteq> ''-''" if "moved p p' w" for p' w
    using that assms(4) by (auto simp: moved_def SEE_def)
  show ?thesis
  proof (cases "SEE (CHR ''-'') p1 \<and> length (rest p1) > 1 \<and> rest p1 ! 1 \<noteq> CHR '']''")
    case False
    then have "q = p1" "cs' = fold (\<lambda>c s. CHadd s c) (char_range a a) cs"
      using assms a by (auto simp: p_b_range_def Let_def)
    moreover have "{c. schar a \<le> schar c \<and> schar c \<le> schar a} = {a}"
      by (auto simp: schar_eq dest: order_antisym)
    moreover obtain w where w: "moved p p1 w" "symbol w a" "perr p = None" "w = ''['' \<longrightarrow> \<not> starts_in (rest p1) ''.''"
      using symbol_read [OF a _ assms(3)] calculation(1) assms(2) by blast
    moreover have "\<not> starts_in (rest p1) '':=''" if "w = ''[''"
      using w(1) that assms(5,6) by (auto simp: moved_def SEETWO_def starts_in_def split: list.splits)
    moreover have "\<not> suffix ''-['' w"
      using w(2) by cases (auto simp: suffix_def)
    ultimately show ?thesis
      using that [OF _ term_symbol, of w] dash [OF w(1)] by (auto simp: set_char_range cut_ok_def starts_in_def split: list.splits)
  next
    case True
    obtain dash p3 where d: "EAT (CHR ''-'') (NEXTn 1 p1) = (dash, p3)" by fastforce
    define b p4 where "b = fst (if dash then (CHR ''-'', p3) else p_b_symbol p3)"
      and "p4 = snd (if dash then (CHR ''-'', p3) else p_b_symbol p3)"
    have q: "q = REQUIRE (schar a \<le> schar b) REG_ERANGE p4" "cs' = fold (\<lambda>c s. CHadd s c) (char_range a b) cs"
      using assms(1) a d True by (auto simp: p_b_range_def Let_def b_def p4_def split: prod.splits)
    then have le: "schar a \<le> schar b" "q = p4" "perr p4 = None" using assms(2) by auto
    obtain v where v: "moved (NEXTn 1 p1) p4 v" "symbol v b" "perr p1 = None" "v = ''['' \<longrightarrow> \<not> starts_in (rest p4) ''.''"
    proof (cases dash)
      case dash: True
      then show ?thesis
        using that [of "''-''"] moved_EAT [OF d] le(3) symbol_char [of "CHR ''-''"]
        by (auto simp: b_def p4_def dest: moved_perr)
    next
      case False
      then have "p3 = NEXTn 1 p1" using d by (simp add: EAT_def split: if_splits)
      moreover have "p_b_symbol p3 = (b, p4)" using False by (simp add: b_def p4_def)
      moreover have "PEEK (NEXTn 1 p1) \<noteq> CHR '']''"
        using True by (cases "rest p1"; cases "tl (rest p1)") (auto simp: PEEK_def NEXTn_def)
      ultimately obtain v where "moved (NEXTn 1 p1) p4 v" "symbol v b" "perr (NEXTn 1 p1) = None"
        "v = ''['' \<longrightarrow> \<not> starts_in (rest p4) ''.''"
        using symbol_read [OF _ le(3)] by metis
      then show ?thesis
        using that by simp
    qed
    have "moved p1 (NEXTn 1 p1) ''-''"
      using True moved_NEXTn [of 1 p1] by (cases "rest p1") (auto simp: SEE_def)
    moreover obtain w where w: "moved p p1 w" "symbol w a" "perr p = None"
      using symbol_read [OF a v(3) assms(3)] by blast
    ultimately have "moved p q (w @ ''-'' @ v)"
      using v(1) le(2) moved_trans by blast
    moreover have "v = ''[''" if "suffix ''-['' (w @ ''-'' @ v)"
      using v(2) that by cases (auto simp: suffix_def append_eq_append_conv2 Cons_eq_append_conv)
    then have "cut_ok (w @ ''-'' @ v) (rest q)"
      using v(4) le(2) by (auto simp: cut_ok_def append_eq_Cons_conv)
    ultimately show ?thesis
      using that term_range [OF w(2) dash [OF w(1)] v(2) le(1)] w(3) q(2) by (simp add: set_char_range)
  qed
qed

lemma class_read:
  assumes "p_b_class letter e body p cs = (q, cs')" "perr q = None"
    and "rest p = CHR ''['' # letter # r"
    and body: "\<And>p q cs'. body p cs = (q, cs') \<Longrightarrow> perr q = None \<Longrightarrow>
      \<exists>name. moved p q name \<and> perr p = None \<and> P name cs'"
  obtains name where "moved p q (CHR ''['' # letter # name @ [letter, CHR '']''])" "P name cs'" "perr p = None"
proof -
  let ?p1 = "NEXTn 2 p" let ?p2 = "REQUIRE (MORE ?p1) REG_EBRACK ?p1"
  let ?p3 = "REQUIRE (PEEK ?p2 \<noteq> CHR ''-'' \<and> PEEK ?p2 \<noteq> CHR '']'') e ?p2"
  obtain p4 cs4 where b: "body ?p3 cs = (p4, cs4)" by fastforce
  let ?p5 = "REQUIRE (MORE p4) REG_EBRACK p4"
  obtain closed p6 where c: "EATTWO letter (CHR '']'') ?p5 = (closed, p6)" by fastforce
  have q: "q = REQUIRE closed e p6" "cs' = cs4"
    using assms(1) b c by (simp_all add: p_b_class_def Let_def)
  then have cl: closed "q = p6" "perr p6 = None" using assms(2) by auto
  then have m6: "moved ?p5 p6 [letter, CHR '']'']" using moved_EATTWO [OF c] by simp
  then have "perr ?p5 = None" using cl(3) by (simp add: moved_perr)
  then have p4: "perr p4 = None" "?p5 = p4" by simp_all
  from body [OF b p4(1)] obtain name where n: "moved ?p3 p4 name" "perr ?p3 = None" "P name cs4"
    by blast
  then have p3: "?p3 = ?p1" "perr p = None" by (auto simp: REQUIRE_def split: if_splits)
  have "moved p ?p1 [CHR ''['', letter]"
    using moved_NEXTn [of 2 p] assms(3) by simp
  from moved_trans [OF this moved_trans [OF n(1) [unfolded p3(1)] m6 [unfolded p4(2)]]]
  show ?thesis using that n(3) p3(2) cl(2) q(2) by simp
qed

lemma cclass_read:
  assumes "p_b_cclass p cs = (q, cs')" "perr q = None"
  shows "\<exists>name. moved p q name \<and> perr p = None \<and>
    (\<exists>chars. map_of cclasses name = Some chars \<and> (\<forall>c. CHIN cs' c \<longleftrightarrow> c \<in> set chars \<or> CHIN cs c))"
  using assms
  by (intro exI [of _ "takeWhile isalpha (rest p)"]) (auto simp: p_b_cclass_def Let_def moved_def split: option.splits)

lemma eclass_read:
  assumes "p_b_eclass p cs = (q, cs')" "perr q = None"
  shows "\<exists>name. moved p q name \<and> perr p = None \<and>
    (\<exists>d. names_char name d \<and> (\<forall>c. CHIN cs' c \<longleftrightarrow> c = d \<or> CHIN cs c))"
proof -
  obtain d p1 where d: "p_b_coll_elem (CHR ''='') p = (d, p1)" by fastforce
  then have "q = p1" "cs' = CHadd cs d" using assms(1) by (simp_all add: p_b_eclass_def)
  moreover obtain name t where "moved p p1 name" "names_char name d"
    using coll_elem_read [OF d] assms(2) \<open>q = p1\<close> by metis
  ultimately show ?thesis using assms(2) moved_perr [of p p1 name]
    by (intro exI [of _ name] conjI exI [of _ d]) simp_all
qed

lemma class_cut: "cut_ok (CHR ''['' # letter # name @ [letter, CHR '']'']) v"
  by (auto simp: cut_ok_def suffix_def append_eq_append_conv2 Cons_eq_append_conv)

lemma term_read:
  assumes "p_b_term p cs = (q, cs')" "perr q = None" "PEEK p \<noteq> CHR '']''"
  obtains w S where "moved p q w" "bracket_term w S" "\<forall>c. CHIN cs' c \<longleftrightarrow> c \<in> S \<or> CHIN cs c" "perr p = None" "cut_ok w (rest q)"
proof -
  consider r where "rest p = CHR ''['' # CHR '':'' # r" "p_b_class (CHR '':'') REG_ECTYPE p_b_cclass p cs = (q, cs')"
    | r where "rest p = CHR ''['' # CHR ''='' # r" "p_b_class (CHR ''='') REG_ECOLLATE p_b_eclass p cs = (q, cs')"
    | "p_b_range p cs = (q, cs')" "\<not> SEE (CHR ''-'') p" "\<not> SEETWO (CHR ''['') (CHR '':'') p" "\<not> SEETWO (CHR ''['') (CHR ''='') p"
  proof (cases "\<exists>d r. (d = CHR '':'' \<or> d = CHR ''='') \<and> rest p = CHR ''['' # d # r")
    case True
    then show ?thesis
      using that(1,2) assms(1) by (auto simp: p_b_term_def)
  next
    case False
    have "p_b_term p cs = (seterr REG_ERANGE p, cs) \<or> p_b_term p cs = p_b_range p cs \<and> \<not> SEE (CHR ''-'') p"
      using False by (cases "rest p"; cases "tl (rest p)") (auto simp: p_b_term_def SEE_def)
    moreover have "\<not> SEETWO (CHR ''['') (CHR '':'') p" "\<not> SEETWO (CHR ''['') (CHR ''='') p"
      using False by (auto simp: SEETWO_def split: list.splits)
    ultimately show ?thesis using that(3) assms by auto
  qed
  then show ?thesis
  proof cases
    case 1
    obtain name where "moved p q (CHR ''['' # CHR '':'' # name @ [CHR '':'', CHR '']''])"
      "\<exists>chars. map_of cclasses name = Some chars \<and> (\<forall>c. CHIN cs' c \<longleftrightarrow> c \<in> set chars \<or> CHIN cs c)" "perr p = None"
      by (rule class_read [OF 1(2) assms(2) 1(1) cclass_read])
    then show ?thesis using that term_class [of name] class_cut [of "CHR '':''" name] by force
  next
    case 2
    obtain name where "moved p q (CHR ''['' # CHR ''='' # name @ [CHR ''='', CHR '']''])"
      "\<exists>d. names_char name d \<and> (\<forall>c. CHIN cs' c \<longleftrightarrow> c = d \<or> CHIN cs c)" "perr p = None"
      by (rule class_read [OF 2(2) assms(2) 2(1) eclass_read])
    then show ?thesis using that term_equivalent [of name] class_cut [of "CHR ''=''" name] by force
  next
    case 3
    obtain w S where "moved p q w" "bracket_term w S" "\<forall>c. CHIN cs' c \<longleftrightarrow> c \<in> S \<or> CHIN cs c" "perr p = None" "cut_ok w (rest q)"
      by (rule range_read [OF 3(1) assms(2,3) 3(2-4)])
    then show ?thesis by (rule that)
  qed
qed

lemma items_read:
  assumes "bracket_terms p cs = (q, cs')" "perr q = None"
  shows "\<exists>w S. moved p q w \<and> bracket_items w S \<and> (\<forall>c. CHIN cs' c \<longleftrightarrow> c \<in> S \<or> CHIN cs c) \<and> perr p = None"
  using assms
proof (induction p cs rule: bracket_terms.induct)
  case (1 p cs)
  show ?case
  proof (cases "MORE p \<and> PEEK p \<noteq> CHR '']'' \<and> \<not> SEETWO (CHR ''-'') (CHR '']'') p")
    case True
    obtain p1 cs1 where t: "p_b_term p cs = (p1, cs1)" by fastforce
    then have "bracket_terms p1 cs1 = (q, cs')"
      using "1.prems"(1) True by (subst (asm) bracket_terms.simps) simp
    then obtain w S where w: "moved p1 q w" "bracket_items w S" "\<forall>c. CHIN cs' c \<longleftrightarrow> c \<in> S \<or> CHIN cs1 c" "perr p1 = None"
      using "1.IH" [OF True] t "1.prems"(2) by auto
    have "PEEK p \<noteq> CHR '']''" using True by blast
    then obtain v T where "moved p p1 v" "bracket_term v T" "\<forall>c. CHIN cs1 c \<longleftrightarrow> c \<in> T \<or> CHIN cs c" "perr p = None" "cut_ok v (rest p1)"
      by (rule term_read [OF t w(4)])
    moreover from this(5) have "cut_ok v w"
      using w(1) by (auto simp: cut_ok_def starts_in_def moved_def split: list.splits)
    ultimately have "moved p q (v @ w)" "bracket_items (v @ w) (T \<union> S)" "\<forall>c. CHIN cs' c \<longleftrightarrow> c \<in> T \<union> S \<or> CHIN cs c" "perr p = None"
      using w moved_trans items_Cons by auto
    then show ?thesis by blast
  next
    case False
    then have "q = p" "cs' = cs"
      using "1.prems"(1) by (auto simp: bracket_terms.simps [of p cs])
    then show ?thesis
      using "1.prems"(2) items_Nil by (intro exI [of _ "[]"] exI [of _ "{}"]) simp
  qed
qed

lemma EAT_see: "EAT c p = (b, q) \<Longrightarrow> rest p = w @ v \<Longrightarrow> w \<noteq> [] \<Longrightarrow> b \<longleftrightarrow> starts_in w [c]"
  by (cases w) (auto simp: EAT_def SEE_def starts_in_def split: if_splits)

lemma bracket_set_read:
  assumes "bracket_set p = (neg, q, cs)" "perr q = None"
  obtains w S where "moved p q w" "bracket flags w (bracket_chars flags neg S)" "\<forall>c. CHIN cs c \<longleftrightarrow> c \<in> S" "perr p = None"
proof -
  obtain neg' p1 where p1: "EAT (CHR ''^'') p = (neg', p1)" by fastforce
  obtain close p2 where p2: "EAT (CHR '']'') p1 = (close, p2)" by fastforce
  obtain dash p3 where p3: "(if close then (False, p2) else EAT (CHR ''-'') p2) = (dash, p3)" by fastforce
  let ?v = "(if close then '']'' else if dash then ''-'' else [])"
  let ?cs = "if close then CHadd empty_cset (CHR '']'') else if dash then CHadd empty_cset (CHR ''-'') else empty_cset"
  obtain p4 cs4 where p4: "bracket_terms p3 ?cs = (p4, cs4)" by fastforce
  obtain last p5 where p5: "EAT (CHR ''-'') p4 = (last, p5)" by fastforce
  let ?u = "(if last then ''-'' else [])"
  have q: "q = MUSTEAT (CHR '']'') REG_EBRACK p5" "cs = (if last then CHadd cs4 (CHR ''-'') else cs4)" "neg' = neg"
    using assms(1) p1 p2 p3 p4 p5 by (simp_all add: bracket_set_def Let_def)
  have m5: "moved p5 q '']''" using moved_MUSTEAT assms(2) q(1) by simp
  have m4: "moved p4 p5 ?u" using moved_EAT [OF p5] by simp
  have "perr p4 = None" using assms(2) moved_perr [OF m5] moved_perr [OF m4] by simp
  then obtain w S where w: "moved p3 p4 w" "bracket_items w S" "\<forall>c. CHIN cs4 c \<longleftrightarrow> c \<in> S \<or> CHIN ?cs c" "perr p3 = None"
    using items_read [OF p4] by blast
  have m1: "moved p p1 (if neg then ''^'' else [])" using moved_EAT [OF p1] q(3) by simp
  have "moved p1 p3 ?v"
  proof (cases close)
    case True
    then show ?thesis using moved_EAT [OF p2] p3 by simp
  next
    case False
    then have "p2 = p1" using p2 by (simp add: EAT_def split: if_splits)
    then show ?thesis using moved_EAT [of "CHR ''-''" p2 dash p3] p3 False by simp
  qed
  from moved_trans [OF m1 moved_trans [OF this moved_trans [OF w(1) moved_trans [OF m4 m5]]]]
  have "moved p q ((if neg then ''^'' else []) @ ?v @ w @ ?u @ '']'')" .
  moreover have "bracket flags ((if neg then ''^'' else []) @ ?v @ w @ ?u @ '']'') (bracket_chars flags neg (set ?v \<union> S \<union> set ?u))"
  proof (rule bracketI [OF _ w(2)])
    have r: "rest p1 = (?v @ w @ ?u @ '']'') @ rest q"
      using moved_trans [OF \<open>moved p1 p3 ?v\<close> moved_trans [OF w(1) moved_trans [OF m4 m5]]] by (simp add: moved_def)
    show "\<not> neg \<longrightarrow> \<not> starts_in (?v @ w @ ?u @ '']'') ''^''"
    proof
      assume "\<not> neg"
      then have "rest p = (?v @ w @ ?u @ '']'') @ rest q" using r m1 by (simp add: moved_def)
      then show "\<not> starts_in (?v @ w @ ?u @ '']'') ''^''" using EAT_see [OF p1] \<open>\<not> neg\<close> q(3) by blast
    qed
    show "?v = [] \<longrightarrow> \<not> starts_in (w @ ?u @ '']'') '']-''"
    proof
      assume v: "?v = []"
      then have "\<not> close" "\<not> dash" by (auto split: if_splits)
      moreover from this have "p2 = p1" using p2 by (simp add: EAT_def split: if_splits)
      moreover have r': "rest p1 = (w @ ?u @ '']'') @ rest q" using r v by simp
      ultimately have "\<not> starts_in (w @ ?u @ '']'') '']''" "\<not> starts_in (w @ ?u @ '']'') ''-''"
        using EAT_see [OF p2 r'] EAT_see [of "CHR ''-''" p1 dash p3, OF _ r'] p3 by auto
      then show "\<not> starts_in (w @ ?u @ '']'') '']-''" by (auto simp: starts_in_def split: list.splits)
    qed
  qed auto
  moreover have "CHIN ?cs c \<longleftrightarrow> c \<in> set ?v" for c by simp
  then have "\<forall>c. CHIN cs c \<longleftrightarrow> c \<in> set ?v \<union> S \<union> set ?u"
    using w(3) q(2) by (cases last) auto
  moreover have "perr p = None"
    using w(4) moved_perr [OF m1] moved_perr [OF \<open>moved p1 p3 ?v\<close>] by simp
  ultimately show ?thesis using that by blast
qed

lemma set_all_chars [simp]: "set all_chars = UNIV"
proof -
  have "c \<in> set all_chars" for c
    using uch_less [of c] unfolding all_chars_def uch_def
    by (metis atLeastLessThan_iff char_of_char image_eqI le0 set_map set_upt)
  then show ?thesis by auto
qed

lemma distinct_all_chars: "distinct all_chars"
  by (simp add: all_chars_def distinct_map inj_on_def)

lemma othercase_twice [simp]: "othercase (othercase c) = c"
proof -
  have "uch (char_of n) = n" if "n < 256" for n
    using that by (simp add: uch_def)
  moreover have "char_of (uch c) = c" by (simp add: uch_def)
  ultimately show ?thesis
    by (auto simp: othercase_def isupper_def islower_def)
qed

lemma othercase_no_letter: "\<not> isalpha c \<Longrightarrow> othercase c = c"
  by (simp add: othercase_def isalpha_def)

lemma CHIN_add_case: "CHIN (add_case c cs) d \<longleftrightarrow> CHIN cs d \<or> CHIN cs c \<and> d = othercase c"
  using othercase_no_letter [of c] by (auto simp: add_case_def)

lemma CHIN_fold_add_case:
  "CHIN (fold add_case xs cs) d \<longleftrightarrow> CHIN cs d \<or> CHIN cs (othercase d) \<and> (othercase d \<in> set xs)"
proof (induction xs arbitrary: cs)
  case (Cons x xs)
  have "d = othercase x \<longleftrightarrow> othercase d = x" "othercase d = othercase x \<longleftrightarrow> d = x"
    by (metis othercase_twice)+
  then show ?case
    unfolding fold_Cons comp_apply Cons.IH CHIN_add_case by (cases "othercase d = x"; cases "d = x") (simp_all, blast+)
qed simp

lemma CHIN_fold_flip: "distinct xs \<Longrightarrow> CHIN (fold flip xs cs) d \<longleftrightarrow> (CHIN cs d \<noteq> (d \<in> set xs))"
  by (induction xs arbitrary: cs) (auto simp: flip_def)

theorem CHIN_finish_set: "CHIN (finish_set flags neg cs) c \<longleftrightarrow> c \<in> bracket_chars flags neg {c. CHIN cs c}"
proof -
  have "CHIN (fold flip (rev all_chars) cs') c \<longleftrightarrow> \<not> CHIN cs' c" for cs'
    by (simp add: CHIN_fold_flip distinct_all_chars)
  then show ?thesis
    by (auto simp: finish_set_def Let_def bracket_chars_def folded_def dot_chars_def CHIN_fold_add_case)
qed

end
