(* ===== verification/RegMatch.thy ===== *)
theory RegMatch
  imports RegMust
begin

text \<open>
  What \<open>regexec\<close> finds with the code for an expression: whether there is a match, and which one
  it reports.
\<close>

section \<open>Compiled expressions\<close>

text \<open>The structure that the compiler leaves for an expression.\<close>

definition compiled :: "re_guts \<Rightarrow> re \<Rightarrow> bool" where
  "compiled g r \<longleftrightarrow>
     holds_code g r \<and> firststate g = 0 \<and> laststate g = length (code_of r) + 1 \<and> nstates g = length (strip g) \<and>
     must g = (if must_string r = [] then None else Some (must_string r)) \<and> \<not> bad g"

text \<open>
  The anchors are counted where they are parsed, which misses the copies that a bounded repetition
  makes of them.  Word boundaries are left out.
\<close>

definition anchors_ok :: "re_guts \<Rightarrow> bool" where
  "anchors_ok g \<longleftrightarrow>
     count_list (strip g) OBOL \<le> nbol g \<and> count_list (strip g) OEOL \<le> neol g \<and>
     OBOW \<notin> set (strip g) \<and> OEOW \<notin> set (strip g)"

lemma count_list_card: "count_list xs x = card {i. i < length xs \<and> xs ! i = x}"
  by (simp add: count_list_eq_length_filter length_filter_conv_card) (metis (mono_tags))

lemma anchors_ok_counted:
  assumes "anchors_ok g" "z \<le> length (strip g)"
  shows "anchors_counted g a z"
proof -
  have "card {pc. a \<le> pc \<and> pc < z \<and> strip g ! pc = s} \<le> count_list (strip g) s" for s
    unfolding count_list_card by (rule card_mono) (use assms(2) in auto)
  moreover have "strip g ! pc \<noteq> s" if "pc < z" "s \<notin> set (strip g)" for pc s
    using that assms(2) nth_mem [of pc "strip g"] by auto
  ultimately show ?thesis
    using assms(1) unfolding anchors_counted_def anchors_ok_def by (meson le_trans)
qed

lemma compiled_code:
  assumes "compiled g r"
  shows "re_ok r" "at_code g 1 (code_of r)"
  using assms holds_code_at [of g r] by (simp_all add: compiled_def holds_code_def)

lemma compiled_bounds:
  assumes "compiled g r"
  shows "gf g = 1" "gl g = 1 + length (code_of r)" "gl g < nstates g" "seg_ok g (gf g) (gl g)"
  using assms code_seg_ok [OF compiled_code [OF assms]]
  by (auto simp: compiled_def gf_def gl_def holds_code_def)

lemma compiled_matches:
  assumes "compiled (guts m) r"
  shows "matches m i j \<longleftrightarrow> rmatch m r i j"
  using code_runsD [OF run_code [OF compiled_code(1) [OF assms]] compiled_code(2) [OF assms] refl]
    compiled_bounds [OF assms] by (simp add: matches_def)

context state_set
begin

lemma compiled_searchable:
  assumes "compiled (guts m) r" "anchors_ok (guts m)" "nstates (guts m) = n" "beginp m \<le> endp m"
  shows "searchable ops ok m (gf (guts m)) (gl (guts m))"
  using compiled_bounds [OF assms(1)] assms
  by (auto simp: searchable_def compiled_def intro!: between_correct anchors_ok_counted)

end

section \<open>Leftmost matches\<close>

text \<open>An expression that begins with one character, a set or a dot.\<close>

fun begins_with_char :: "re \<Rightarrow> bool" where
  "begins_with_char (Atom x) = (case x of Chr c \<Rightarrow> True | Any \<Rightarrow> True | AnyOf n \<Rightarrow> True | _ \<Rightarrow> False)"
| "begins_with_char (Cat r s) = begins_with_char r"
| "begins_with_char (Paren n r) = begins_with_char r"
| "begins_with_char _ = False"

definition entry :: "re_guts \<Rightarrow> nat \<Rightarrow> nat \<Rightarrow> nat \<Rightarrow> bool" where
  "entry g a z b \<longleftrightarrow>
     a \<le> b \<and> b < z \<and> (\<forall>pc. a \<le> pc \<longrightarrow> pc < b \<longrightarrow> (\<exists>k. strip g ! pc = OLPAREN k)) \<and>
     (\<exists>x. strip g ! b = atom_op x \<and> begins_with_char (Atom x)) \<and> seg_ok g (Suc b) z"

lemma entry_code:
  "\<lbrakk>begins_with_char r; re_ok r; at_code g a (code_of r)\<rbrakk> \<Longrightarrow> \<exists>b. entry g a (a + length (code_of r)) b"
proof (induction r arbitrary: a)
  case (Atom x)
  then show ?case by (intro exI [of _ a]) (auto simp: entry_def)
next
  case (Cat r s)
  then obtain b where "entry g a (a + length (code_of r)) b" by auto
  moreover have "seg_ok g (a + length (code_of r)) (a + length (code_of r) + length (code_of s))"
    using Cat.prems by (auto intro: code_seg_ok)
  ultimately have "entry g a (a + length (code_of (Cat r s))) b"
    unfolding entry_def by (auto simp: add.assoc dest: seg_ok_join)
  then show ?case ..
next
  case (Paren n r)
  let ?e = "Suc a + length (code_of r)"
  from Paren obtain b where b: "entry g (Suc a) ?e b" by fastforce
  have "seg_ok g ?e (Suc ?e)"
    using Paren.prems(3) by (auto simp: seg_ok_ops op_ok_def eps_simple le_less_Suc_eq)
  with b have "entry g a (Suc ?e) b"
    using Paren.prems(3) unfolding entry_def
    by (auto dest: seg_ok_join) (metis Suc_leI le_neq_implies_less)
  then show ?case by auto
qed auto

lemma op_ok_from: "\<lbrakk>op_ok g a z pc; a \<le> pc; q \<in> eps g pc\<rbrakk> \<Longrightarrow> a \<le> q"
  unfolding op_ok_def by (force simp: eps_simple)

lemma entry_before:
  assumes "entry g a z b" "a \<le> q" "q < b"
  obtains k where "strip g ! q = OLPAREN k"
  using assms unfolding entry_def by blast

lemma entry_here:
  assumes "entry g a z b"
  shows "eps g b = {}" "strip g ! b \<noteq> OBOL" "strip g ! b \<noteq> OEOL"
proof -
  obtain x where x: "strip g ! b = atom_op x" "begins_with_char (Atom x)"
    using assms unfolding entry_def by blast
  then show "eps g b = {}" "strip g ! b \<noteq> OBOL" "strip g ! b \<noteq> OEOL"
    by (simp add: eps_atom, use x in \<open>cases x; simp\<close>, use x in \<open>cases x; simp\<close>)
qed

lemma entry_run:
  assumes "entry (guts m) a z b" "run m a z a i q j"
  shows "q \<le> b \<and> j = i \<or> b < q \<and> i < j"
  using assms(2)
proof induction
  case run_refl
  then show ?case using assms(1) by (auto simp: entry_def)
next
  case (run_eps q j r)
  consider "q < b" | "q = b" | "b < q" by linarith
  then show ?case
  proof cases
    case 1
    then obtain k where "strip (guts m) ! q = OLPAREN k"
      using entry_before [OF assms(1) run_eps.hyps(2)] by blast
    then show ?thesis using run_eps 1 by (auto simp: eps_simple)
  next
    case 2
    then show ?thesis using run_eps.hyps entry_here(1) [OF assms(1)] by simp
  next
    case 3
    then have "op_ok (guts m) (Suc b) z q"
      using assms(1) run_eps.hyps by (auto simp: entry_def seg_ok_ops)
    then show ?thesis
      using op_ok_from run_eps 3 by fastforce
  qed
next
  case (run_anchor q j)
  have "\<not> q < b"
  proof
    assume "q < b"
    then obtain k where "strip (guts m) ! q = OLPAREN k"
      by (rule entry_before [OF assms(1) run_anchor.hyps(2)])
    then show False using run_anchor.hyps(4) by (simp add: anchor_def)
  qed
  moreover have "q \<noteq> b"
    using entry_here [OF assms(1)] run_anchor.hyps(4) by (auto simp: anchor_def)
  ultimately show ?case using run_anchor.IH by auto
next
  case (run_char q j)
  have "\<not> q < b"
  proof
    assume "q < b"
    then obtain k where "strip (guts m) ! q = OLPAREN k"
      by (rule entry_before [OF assms(1) run_char.hyps(2)])
    then show False using run_char.hyps(5) by simp
  qed
  then show ?case using run_char.IH by auto
qed

lemma begins_no_return:
  assumes "compiled (guts m) r" "begins_with_char r"
  shows "no_return m (gf (guts m)) (gl (guts m))"
proof -
  obtain b where "entry (guts m) (gf (guts m)) (gl (guts m)) b"
    using entry_code [OF assms(2) compiled_code [OF assms(1)]] compiled_bounds [OF assms(1)] by auto
  then show ?thesis
    unfolding no_return_def using entry_run by (metis less_irrefl not_le)
qed

section \<open>regexec\<close>

text \<open>The part of the string that is searched.\<close>

definition matching :: "regex \<Rightarrow> string \<Rightarrow> regmatch list \<Rightarrow> u32 \<Rightarrow> re_match" where
  "matching preg s pm flags =
     (let f = GOODFLAGS flags;
          (start, stop) = (if has_flag f REG_STARTEND then (nat (fst (pm ! 0)), nat (snd (pm ! 0))) else (0, length s))
      in \<lparr>guts = re_g preg, eflags = f, str = s, beginp = start, endp = stop\<rparr>)"

definition has_match :: "re_match \<Rightarrow> (nat \<Rightarrow> nat \<Rightarrow> bool) \<Rightarrow> bool" where
  "has_match m M \<longleftrightarrow> (\<exists>i j. beginp m \<le> i \<and> j \<le> endp m \<and> M i j)"

text \<open>
  The match that is reported: the longest one from its start.  A match with an earlier start is
  also one from the start that is reported; with \<open>first\<close> there is no such match, so that the
  leftmost one is reported.
\<close>

definition chosen :: "re_match \<Rightarrow> (nat \<Rightarrow> nat \<Rightarrow> bool) \<Rightarrow> bool \<Rightarrow> nat \<Rightarrow> nat \<Rightarrow> bool" where
  "chosen m M first i j \<longleftrightarrow>
     beginp m \<le> i \<and> j \<le> endp m \<and> M i j \<and>
     (\<forall>j'. M i j' \<longrightarrow> j' \<le> endp m \<longrightarrow> j' \<le> j) \<and>
     (\<forall>i' j'. beginp m \<le> i' \<longrightarrow> i' < i \<longrightarrow> j' \<le> endp m \<longrightarrow> M i' j' \<longrightarrow> M i j' \<and> \<not> first)"

lemma fill_in_0: "fill_in g 0 i j found pm = pm"
  by (simp add: fill_in_def map_nth)

lemma fill_in_1: "pm \<noteq> [] \<Longrightarrow> fill_in g 1 i j found pm = pm[0 := (int i, int j)]"
  by (rule nth_equalityI) (simp_all add: fill_in_def nth_list_update Suc_le_eq)

text \<open>The result of a search with at most one place for a match.\<close>

definition search_result ::
    "re_match \<Rightarrow> (nat \<Rightarrow> nat \<Rightarrow> bool) \<Rightarrow> bool \<Rightarrow> nat \<Rightarrow> regmatch list \<Rightarrow> reg_error option \<times> regmatch list \<Rightarrow> bool" where
  "search_result m M first nmatch pm res \<longleftrightarrow>
     (if \<not> has_match m M then res = (Some REG_NOMATCH, pm)
      else if nmatch = 0 then res = (None, pm)
      else (\<exists>i j. chosen m M first i j \<and> res = (None, pm[0 := (int i, int j)])))"

lemma chosen_weaken: "chosen m M first i j \<Longrightarrow> (first' \<longrightarrow> first) \<Longrightarrow> chosen m M first' i j"
  by (auto simp: chosen_def)

lemma search_result_weaken:
  "search_result m M first nmatch pm res \<Longrightarrow> (first' \<longrightarrow> first) \<Longrightarrow> search_result m M first' nmatch pm res"
  unfolding search_result_def using chosen_weaken by metis

context state_set
begin

theorem matcher_correct:
  fixes preg s pm flags
  defines "g \<equiv> re_g preg" and "m \<equiv> matching preg s pm flags"
  assumes g: "compiled g r" "anchors_ok g" "\<not> backrefs g" "nstates g = n"
    and w: "beginp m \<le> endp m" "endp m \<le> length s" and n: "nmatch0 \<le> 1" "nmatch0 \<le> length pm"
    and nm: "nmatch = (if has_flag (cflags g) REG_NOSUB then 0 else nmatch0)"
  shows "\<exists>res. matcher ops g s nmatch0 pm (GOODFLAGS flags) = Some res \<and> search_result m (rmatch m r) (begins_with_char r) nmatch pm res"
proof -
  have [simp]: "guts m = g" "str m = s"
    by (simp_all add: m_def matching_def g_def Let_def split: prod.splits)
  have M: "matches m = rmatch m r"
    using compiled_matches [of m r] g(1) by (intro ext) simp
  have S: "searchable ops ok m (gf g) (gl g)"
    using compiled_searchable [of m r] g w(1) by simp
  have run: "matcher ops g s nmatch0 pm (GOODFLAGS flags) =
      (if \<not> prescreen g s (beginp m) (endp m) then Some (Some REG_NOMATCH, pm)
       else Option.bind (matcher_loop ops m nmatch (beginp m) (endp m))
         (\<lambda>r. Some (case r of None \<Rightarrow> (Some REG_NOMATCH, pm)
                            | Some (c, e, found) \<Rightarrow> (None, fill_in g nmatch c e found pm))))"
    using w(1) unfolding nm m_def g_def
    by (cases "has_flag (GOODFLAGS flags) REG_STARTEND") 
      (simp_all add: matcher_def matching_def Let_def del: zless_nat_conj)
  show ?thesis
  proof (cases "prescreen g s (beginp m) (endp m)")
    case False
    then have "\<not> has_match m (rmatch m r)"
      using prescreen_match [of m r _ _ "beginp m" "endp m" g] g(1) w(2) by (auto simp: has_match_def compiled_def)
    then show ?thesis using run False by (simp add: search_result_def)
  next
    case True
    have le: "nmatch \<le> 1" "nmatch = 1 \<Longrightarrow> pm \<noteq> []" using n by (auto simp: nm)
    obtain x where x: "matcher_loop ops m nmatch (beginp m) (endp m) = Some x"
      "case x of None \<Rightarrow> unmatched m (beginp m) (endp m)
       | Some (i, j, pm) \<Rightarrow> \<not> unmatched m (beginp m) (endp m) \<and>
           (nmatch = 1 \<longrightarrow> reported m (beginp m) (endp m) i j \<and>
             (no_return m (gf (guts m)) (gl (guts m)) \<longrightarrow> first_match m (beginp m) (endp m) i j))"
      using matcher_loop_correct [of m "beginp m" "endp m" nmatch] S g(3,4) w(1) le(1)
      unfolding \<open>guts m = g\<close> by blast
    have un: "unmatched m (beginp m) (endp m) \<longleftrightarrow> \<not> has_match m (rmatch m r)"
      by (auto simp: unmatched_def has_match_def M)
    have ch: "chosen m (rmatch m r) (begins_with_char r) i j"
      if "reported m (beginp m) (endp m) i j"
        "no_return m (gf (guts m)) (gl (guts m)) \<longrightarrow> first_match m (beginp m) (endp m) i j" for i j
      using that begins_no_return [of m r] g(1) unfolding chosen_def reported_def first_match_def M by auto
    show ?thesis
    proof (cases x)
      case None
      then show ?thesis using run True x un by (simp add: search_result_def)
    next
      case (Some y)
      then obtain i j found where y: "x = Some (i, j, found)" by (cases y) auto
      with x(2) un have "has_match m (rmatch m r)" "nmatch = 1 \<Longrightarrow> chosen m (rmatch m r) (begins_with_char r) i j" using ch by auto
      then show ?thesis
        using run True x(1) y le by (cases nmatch) (auto simp: search_result_def fill_in_0 fill_in_1 [unfolded One_nat_def])
    qed
  qed
qed

end

text \<open>The words of the small version have room for the states whenever it is used.\<close>

theorem regexec_correct:
  fixes preg s pm flags
  defines "g \<equiv> re_g preg" and "m \<equiv> matching preg s pm flags"
  assumes "compiled g r" "anchors_ok g" "\<not> backrefs g" "re_magic preg = MAGIC1" "g_magic preg = MAGIC2"
    and "beginp m \<le> endp m" "endp m \<le> length s" "nmatch \<le> 1" "nmatch \<le> length pm"
  shows "\<exists>res. regexec TYPE('w::len) preg s nmatch pm flags = Some res \<and>
    search_result m (rmatch m r) (begins_with_char r) (if has_flag (cflags g) REG_NOSUB then 0 else nmatch) pm res"
proof -
  have "\<not> bad g" using assms(3) by (simp add: compiled_def)
  then have "regexec TYPE('w) preg s nmatch pm flags =
      (if nstates g \<le> LENGTH('w) \<and> \<not> has_flag (GOODFLAGS flags) REG_LARGE
       then matcher (small_ops :: 'w word state_ops) g s nmatch pm (GOODFLAGS flags)
       else matcher large_ops g s nmatch pm (GOODFLAGS flags))"
    using assms(6,7) by (simp add: regexec_def Let_def flip: g_def)
  moreover have "\<exists>res. matcher (small_ops :: 'w word state_ops) g s nmatch pm (GOODFLAGS flags) = Some res \<and>
      search_result m (rmatch m r) (begins_with_char r) (if has_flag (cflags g) REG_NOSUB then 0 else nmatch) pm res" if "nstates g \<le> LENGTH('w)"
    unfolding g_def m_def
    by (rule small.matcher_correct [where k = "nstates g"]) (use assms that in \<open>simp_all add: min_def g_def m_def\<close>)
  moreover have "\<exists>res. matcher large_ops g s nmatch pm (GOODFLAGS flags) = Some res \<and>
      search_result m (rmatch m r) (begins_with_char r) (if has_flag (cflags g) REG_NOSUB then 0 else nmatch) pm res"
    unfolding g_def m_def
    by (rule large.matcher_correct) (use assms in \<open>simp_all add: g_def m_def\<close>)
  ultimately show ?thesis by presburger
qed

end
