(* ===== verification/RegGrammar.thy ===== *)
theory RegGrammar
  imports RegSyntax RegMatch
begin

text \<open>
  The parser of extended expressions (\<open>p_ere\<close> in \<open>regcomp.c\<close>): what it accepts is a word of the
  grammar, and the code it emits matches what the word means.
\<close>

section \<open>The grammar\<close>

text \<open>The value of some digits.\<close>

definition digits_value :: "nat \<Rightarrow> string \<Rightarrow> nat" where
  "digits_value n w = foldl (\<lambda>n c. n * 10 + (uch c - 48)) n w"

definition count_text :: "string \<Rightarrow> nat \<Rightarrow> bool" where
  "count_text w n \<longleftrightarrow> w \<noteq> [] \<and> (\<forall>c\<in>set w. isdigit c) \<and> digits_value 0 w = n \<and> n \<le> DUPMAX"

inductive bounds_text :: "string \<Rightarrow> nat \<Rightarrow> nat option \<Rightarrow> bool" where
  bounds_exact: "count_text w n \<Longrightarrow> bounds_text w n (Some n)"
| bounds_from: "count_text w n \<Longrightarrow> bounds_text (w @ '','') n None"
| bounds_between: "\<lbrakk>count_text w n; count_text v k; n \<le> k\<rbrakk> \<Longrightarrow> bounds_text (w @ '','' @ v) n (Some k)"

inductive quantifier :: "string \<Rightarrow> nat \<Rightarrow> nat option \<Rightarrow> bool" where
  quant_star: "quantifier ''*'' 0 None"
| quant_plus: "quantifier ''+'' 1 None"
| quant_quest: "quantifier ''?'' 0 (Some 1)"
| quant_bounds: "bounds_text w lo hi \<Longrightarrow> quantifier (''{'' @ w @ ''}'') lo hi"

definition special :: "char \<Rightarrow> bool" where
  "special c \<longleftrightarrow> c \<in> set ''()^$|*+?.['' \<or> c = CHR 0x5C"

text \<open>
  Atoms, atoms with a quantifier, sequences of these, and choices.  A brace is an ordinary
  character if no digit follows.
\<close>

inductive atom_text :: "u32 \<Rightarrow> string \<Rightarrow> ere \<Rightarrow> bool"
  and piece_text :: "u32 \<Rightarrow> string \<Rightarrow> ere \<Rightarrow> bool"
  and branch_text :: "u32 \<Rightarrow> string \<Rightarrow> ere \<Rightarrow> bool"
  and ere_text :: "u32 \<Rightarrow> string \<Rightarrow> ere \<Rightarrow> bool" for flags :: u32 where
  atom_bol: "atom_text flags ''^'' EBol"
| atom_eol: "atom_text flags ''$'' EEol"
| atom_dot: "atom_text flags ''.'' (ECls (dot_chars flags))"
| atom_char: "\<not> special c \<Longrightarrow> atom_text flags [c] (ECls (folded flags {c}))"
| atom_escaped: "atom_text flags [CHR 0x5C, c] (ECls (folded flags {c}))"
| atom_bracket: "bracket flags w S \<Longrightarrow> atom_text flags (''['' @ w) (ECls S)"
| atom_empty: "atom_text flags ''()'' (EGroup EEmpty)"
| atom_group: "ere_text flags w e \<Longrightarrow> atom_text flags (''('' @ w @ '')'') (EGroup e)"
| piece_atom: "atom_text flags w e \<Longrightarrow> piece_text flags w e"
| piece_quantified: "\<lbrakk>atom_text flags w e; w \<noteq> ''^''; quantifier v lo hi\<rbrakk> \<Longrightarrow> piece_text flags (w @ v) (ERep e lo hi)"
| branch_one: "piece_text flags w e \<Longrightarrow> branch_text flags w e"
| branch_more: "\<lbrakk>piece_text flags w e; branch_text flags v f; w = ''{'' \<longrightarrow> \<not> isdigit (hd v)\<rbrakk> \<Longrightarrow>
    branch_text flags (w @ v) (ESeq e f)"
| ere_branch: "branch_text flags w e \<Longrightarrow> ere_text flags w e"
| ere_choice: "\<lbrakk>branch_text flags w e; ere_text flags v f\<rbrakk> \<Longrightarrow> ere_text flags (w @ ''|'' @ v) (EAlt e f)"

text \<open>No anchor at all; and no anchor in an operand of which a bounded repetition makes copies.\<close>

primrec no_anchor :: "ere \<Rightarrow> bool" where
  "no_anchor (ECls S) = True"
| "no_anchor EBol = False"
| "no_anchor EEol = False"
| "no_anchor EEmpty = True"
| "no_anchor (ESeq e f) = (no_anchor e \<and> no_anchor f)"
| "no_anchor (EAlt e f) = (no_anchor e \<and> no_anchor f)"
| "no_anchor (ERep e lo hi) = no_anchor e"
| "no_anchor (EGroup e) = no_anchor e"

primrec anchors_once :: "ere \<Rightarrow> bool" where
  "anchors_once (ECls S) = True"
| "anchors_once EBol = True"
| "anchors_once EEol = True"
| "anchors_once EEmpty = True"
| "anchors_once (ESeq e f) = (anchors_once e \<and> anchors_once f)"
| "anchors_once (EAlt e f) = (anchors_once e \<and> anchors_once f)"
| "anchors_once (ERep e lo hi) =
     (anchors_once e \<and> (no_anchor e \<or> lo \<le> 1 \<and> (case hi of None \<Rightarrow> True | Some h \<Rightarrow> h \<le> 1)))"
| "anchors_once (EGroup e) = anchors_once e"

primrec starts_with_class :: "ere \<Rightarrow> bool" where
  "starts_with_class (ECls S) = True"
| "starts_with_class EBol = False"
| "starts_with_class EEol = False"
| "starts_with_class EEmpty = False"
| "starts_with_class (ESeq e f) = starts_with_class e"
| "starts_with_class (EAlt e f) = False"
| "starts_with_class (ERep e lo hi) = False"
| "starts_with_class (EGroup e) = starts_with_class e"

section \<open>Growing code\<close>

text \<open>The code of an expression, for a table of sets that may grow.\<close>

definition implements :: "cset list \<Rightarrow> re \<Rightarrow> ere \<Rightarrow> bool" where
  "implements ss r e \<longleftrightarrow>
     re_ok r \<and> (\<forall>m ss'. sets (guts m) = ss @ ss' \<longrightarrow> rmatch m r = ematch m e) \<and>
     (starts_with_class e \<longrightarrow> begins_with_char r) \<and>
     (no_anchor e \<longrightarrow> (\<forall>s. is_anchor s \<longrightarrow> s \<notin> set (code_of r))) \<and>
     OBOW \<notin> set (code_of r) \<and> OEOW \<notin> set (code_of r)"

lemma implements_grow: "implements ss r e \<Longrightarrow> implements (ss @ ts) r e"
  by (simp add: implements_def)

text \<open>What parsing leaves of the structure that is compiled.\<close>

definition kept :: "re_guts \<Rightarrow> re_guts \<Rightarrow> bool" where
  "kept g h \<longleftrightarrow>
     cflags h = cflags g \<and> firststate h = firststate g \<and> must h = must g \<and> bad h = bad g \<and>
     backrefs h = backrefs g \<and> (\<exists>ss. sets h = sets g @ ss)"

lemma kept_refl [simp]: "kept g g"
  by (simp add: kept_def)

lemma kept_trans: "kept g h \<Longrightarrow> kept h k \<Longrightarrow> kept g k"
  by (auto simp: kept_def)

definition anchor_count :: "re_guts \<Rightarrow> sop \<Rightarrow> nat" where
  "anchor_count g s = (if s = OBOL then nbol g else neol g)"

text \<open>
  From \<open>p\<close> to \<open>q\<close> the text \<open>w\<close> was read, and the code for \<open>r\<close> was put after the operators \<open>c\<close>,
  where it means \<open>e\<close>.
\<close>

definition grown :: "parse \<Rightarrow> sop list \<Rightarrow> parse \<Rightarrow> string \<Rightarrow> re \<Rightarrow> ere \<Rightarrow> bool" where
  "grown p c q w r e \<longleftrightarrow>
     holds q (c @ code_of r) \<and> implements (sets (pg q)) r e \<and> rest p = w @ rest q \<and> kept (pg p) (pg q) \<and>
     (anchors_once e \<longrightarrow>
        (\<forall>s. is_anchor s \<longrightarrow> anchor_count (pg p) s + count_list (code_of r) s \<le> anchor_count (pg q) s))"

lemma implements_Cat: "implements ss r e \<Longrightarrow> implements ss r' e' \<Longrightarrow> implements ss (Cat r r') (ESeq e e')"
  by (simp add: implements_def)

lemma kept_implements:
  assumes "kept g h" "implements (sets g) r e"
  shows "implements (sets h) r e"
  using assms implements_grow by (auto simp: kept_def)

lemma grown_seq:
  assumes "grown p c q w r e" "grown q (c @ code_of r) q' w' r' e'"
  shows "grown p c q' (w @ w') (Cat r r') (ESeq e e')"
  using assms kept_implements [of "pg q" "pg q'" r e] kept_trans [of "pg p" "pg q" "pg q'"] implements_Cat
  unfolding grown_def by (auto simp: add.assoc [symmetric]) (meson add_le_mono1 le_trans)

section \<open>Characters and sets\<close>

lemma implements_char: "implements ss (Atom (Chr d)) (ECls {d})"
  by (auto simp: implements_def atom_match_def anchor_def is_anchor_def fun_eq_iff)

lemma implements_any: "implements ss (Atom Any) (ECls UNIV)"
  by (auto simp: implements_def atom_match_def anchor_def is_anchor_def fun_eq_iff)

lemma implements_set:
  assumes "i < length ss"
  shows "implements ss (Atom (AnyOf i)) (ECls {c. CHIN (ss ! i) c})"
  using assms
  by (auto simp: implements_def atom_match_def anchor_def is_anchor_def in_set_def nth_append fun_eq_iff)

lemma implements_set_eq:
  "i < length ss \<Longrightarrow> \<forall>c. CHIN (ss ! i) c \<longleftrightarrow> c \<in> S \<Longrightarrow> implements ss (Atom (AnyOf i)) (ECls S)"
  using implements_set [of i ss] by simp

lemma new_category_simps [simp]:
  "kept g (new_category c h) = kept g h" "sets (new_category c h) = sets h"
  "anchor_count (new_category c h) s = anchor_count h s" "cflags (new_category c h) = cflags h"
  by (simp_all add: new_category_def kept_def anchor_count_def)

lemma grown_atom:
  assumes "holds q (c @ code_of (Atom x))" "implements (sets (pg q)) (Atom x) (ECls S)" "rest p = w @ rest q"
    "kept (pg p) (pg q)" "nbol (pg q) = nbol (pg p)" "neol (pg q) = neol (pg p)"
  shows "grown p c q w (Atom x) (ECls S)"
proof -
  have "count_list (code_of (Atom x)) s = 0" if "is_anchor s" for s
    using assms(2) that by (auto simp: implements_def)
  then show ?thesis
    using assms by (simp add: grown_def anchor_count_def)
qed

lemma grown_one_char:
  assumes "holds p c"
  shows "grown p c (one_char d p) [] (Atom (Chr d)) (ECls {d})"
proof (rule grown_atom)
  show "holds (one_char d p) (c @ code_of (Atom (Chr d)))"
    using holds_doemit [OF assms] by (simp add: one_char_def)
qed (simp_all add: one_char_def implements_char new_category_def Let_def kept_def)

text \<open>The set of a bracket expression contains both cases of a letter or none.\<close>

lemma finish_set_cases:
  assumes "has_flag flags REG_ICASE"
  shows "CHIN (finish_set flags neg cs) (othercase c) \<longleftrightarrow> CHIN (finish_set flags neg cs) c"
proof -
  have "othercase newline = newline"
    by (simp add: othercase_def newline_def isupper_def islower_def uch_def)
  then have "othercase c = newline \<longleftrightarrow> c = newline"
    by (metis othercase_twice)
  then show ?thesis
    using assms by (auto simp: CHIN_finish_set bracket_chars_def folded_def dot_chars_def)
qed

lemma members_set: "c \<in> set (members cs) \<longleftrightarrow> CHIN cs c"
  by (simp add: members_def)

lemma single_set:
  assumes "nch cs = 1"
  shows "CHIN cs c \<longleftrightarrow> c = firstch cs"
proof -
  obtain d where "members cs = [d]" using assms by (auto simp: nch_def length_Suc_conv)
  then show ?thesis using members_set [of c cs] by (simp add: firstch_def)
qed

theorem p_bracket_one_char: "p_bracket = p_bracket_with one_char"
proof
  fix p
  have "ordinary (firstch cs') q = one_char (firstch cs') q"
    if "cs' = finish_set flags neg cs" "nch cs' = 1" "cflags (pg q) = flags" for cs' q flags neg cs
  proof (cases "has_flag (cflags (pg q)) REG_ICASE")
    case True
    then have "CHIN cs' (othercase (firstch cs'))"
      using finish_set_cases [of "cflags (pg q)" neg cs "firstch cs'"] that single_set [of cs' "firstch cs'"] by simp
    then have "othercase (firstch cs') = firstch cs'"
      using single_set [OF that(2)] by simp
    then show ?thesis by (simp add: ordinary_def)
  qed (simp add: ordinary_def)
  moreover have "cflags (pg (with_sets f q)) = cflags (pg q)" for f q
    by (simp add: with_sets_def)
  ultimately show "p_bracket p = p_bracket_with one_char p"
    by (simp add: p_bracket_def p_bracket_with_def Let_def split: prod.split)
qed

lemma with_sets_simps [simp]:
  "holds (with_sets f p) c = holds p c" "rest (with_sets f p) = rest p" "perr (with_sets f p) = perr p"
  "sets (pg (with_sets f p)) = f (sets (pg p))" "nbol (pg (with_sets f p)) = nbol (pg p)"
  "neol (pg (with_sets f p)) = neol (pg p)" "cflags (pg (with_sets f p)) = cflags (pg p)"
  by (simp_all add: with_sets_def)

lemma kept_with_sets: "kept g (pg p) \<Longrightarrow> \<exists>ss. f (sets (pg p)) = sets g @ ss \<Longrightarrow> kept g (pg (with_sets f p))"
  by (simp add: kept_def with_sets_def)

text \<open>A new set at the end of the table is kept there, or dropped for an equal one before it.\<close>

lemma freezeset_last:
  assumes "sets (pg p) = ss @ [cs]"
  obtains i f where "freezeset (length ss) p = (i, with_sets f p)" "f (ss @ [cs]) = ss \<or> f (ss @ [cs]) = ss @ [cs]"
    "i < length (f (ss @ [cs]))" "\<And>c. CHIN (f (ss @ [cs]) ! i) c \<longleftrightarrow> CHIN cs c"
proof -
  let ?same = "\<lambda>i. hash ((ss @ [cs]) ! i) = hash cs \<and> i \<noteq> length ss \<and> same_chars ((ss @ [cs]) ! i) cs"
  have fz: "freezeset (length ss) p =
      (case filter ?same [0..<Suc (length ss)] of [] \<Rightarrow> (length ss, p) | i # _ \<Rightarrow> (i, freeset (length ss) p))"
    using assms by (simp add: freezeset_def Let_def)
  show ?thesis
  proof (cases "filter ?same [0..<Suc (length ss)]")
    case Nil
    moreover have "p = with_sets id p" by (simp add: with_sets_def)
    ultimately show ?thesis
      using that [of "length ss" id] fz by simp
  next
    case (Cons i js)
    then have "i \<in> set (filter ?same [0..<Suc (length ss)])" by simp
    then have i: "i < length ss" "same_chars (ss ! i) cs"
      by (auto simp: nth_append less_Suc_eq)
    let ?f = "\<lambda>ts. if length ss + 1 = length ts then butlast ts
                  else ts[length ss := fold (\<lambda>c cs. CHsub cs c) all_chars (ts ! length ss)]"
    have "freezeset (length ss) p = (i, with_sets ?f p)" "?f (ss @ [cs]) = ss"
      using fz Cons by (simp_all add: freeset_def)
    then show ?thesis
      using that [of i ?f] i by (simp add: same_chars_def)
  qed
qed

lemma bracket_emits:
  assumes p: "holds p c" and words: "\<not> starts_with (rest p) ''[:<:]]''" "\<not> starts_with (rest p) ''[:>:]]''"
    and b: "bracket_set (snd (allocset p)) = (neg, p2, cs)" "moved (snd (allocset p)) p2 w"
  obtains x where "grown p c (p_bracket_with one_char p) w (Atom x) (ECls (bracket_chars (cflags (pg p)) neg {c. CHIN cs c}))"
proof -
  let ?ss = "sets (pg p)" and ?p1 = "snd (allocset p)" and ?S = "bracket_chars (cflags (pg p)) neg {c. CHIN cs c}"
  define cs' where "cs' = finish_set (cflags (pg p)) neg cs"
  define p3 where "p3 = with_sets (\<lambda>ts. ts[length ?ss := cs']) p2"
  have S: "CHIN cs' d \<longleftrightarrow> d \<in> ?S" for d by (simp add: cs'_def CHIN_finish_set)
  have p1: "holds ?p1 c" "rest ?p1 = rest p" "sets (pg ?p1) = ?ss @ [empty_cset]" "kept (pg p) (pg ?p1)"
    "nbol (pg ?p1) = nbol (pg p)" "neol (pg ?p1) = neol (pg p)" "cflags (pg ?p1) = cflags (pg p)"
    using p by (simp_all add: allocset_def Let_def kept_with_sets)
  from b(2) have p2: "p2 = ?p1\<lparr>rest := rest p2\<rparr>" "rest p = w @ rest p2"
    using p1(2) by (simp_all add: moved_def)
  from p2(1) have pg2: "pg p2 = pg ?p1" "holds p2 c" using p1(1)
    by (metis parse.select_convs(8) parse.surjective parse.update_convs(1), metis holds_frame(1))
  have p3: "holds p3 c" "rest p3 = rest p2" "sets (pg p3) = ?ss @ [cs']" "kept (pg p) (pg p3)"
    "nbol (pg p3) = nbol (pg p)" "neol (pg p3) = neol (pg p)" "cflags (pg p3) = cflags (pg p)"
    using p1 pg2 by (simp_all add: p3_def kept_with_sets)
  have run: "p_bracket_with one_char p =
      (if nch cs' = 1 then freeset (length ?ss) (one_char (firstch cs') p3)
       else let (i, p4) = freezeset (length ?ss) p3 in doemit (OANYOF i) p4)"
    using words b(1) holds_perr [OF pg2(2)] pg2(1) p1(7)
    by (simp add: p_bracket_with_def p3_def cs'_def allocset_def Let_def)
  show ?thesis
  proof (cases "nch cs' = 1")
    case True
    let ?d = "firstch cs'" let ?q = "freeset (length ?ss) (one_char ?d p3)"
    have g: "grown p3 c (one_char ?d p3) [] (Atom (Chr ?d)) (ECls {?d})"
      by (rule grown_one_char [OF p3(1)])
    have s: "sets (pg (one_char ?d p3)) = ?ss @ [cs']" "nbol (pg (one_char ?d p3)) = nbol (pg p)"
      "neol (pg (one_char ?d p3)) = neol (pg p)"
      using p3 by (simp_all add: one_char_def Let_def new_category_def)
    have "{?d} = ?S" using single_set [OF True] S by auto
    moreover have "grown p c ?q w (Atom (Chr ?d)) (ECls {?d})"
    proof (rule grown_atom)
      show "holds ?q (c @ code_of (Atom (Chr ?d)))" "rest p = w @ rest ?q"
        using g p2 p3(2) by (simp_all add: grown_def freeset_def)
      show "kept (pg p) (pg ?q)"
        using g p3(4) s(1) kept_trans unfolding freeset_def grown_def by (intro kept_with_sets) auto
    qed (use s in \<open>simp_all add: freeset_def implements_char\<close>)
    ultimately show ?thesis using that run True by simp
  next
    case False
    obtain i f where f: "freezeset (length ?ss) p3 = (i, with_sets f p3)" "f (?ss @ [cs']) = ?ss \<or> f (?ss @ [cs']) = ?ss @ [cs']"
      "i < length (f (?ss @ [cs']))" "\<And>c. CHIN (f (?ss @ [cs']) ! i) c \<longleftrightarrow> CHIN cs' c"
      using freezeset_last [OF p3(3)] by blast
    let ?q = "doemit (OANYOF i) (with_sets f p3)"
    have "grown p c ?q w (Atom (AnyOf i)) (ECls ?S)"
    proof (rule grown_atom)
      show "holds ?q (c @ code_of (Atom (AnyOf i)))"
        using holds_doemit p3(1) by simp
      show "implements (sets (pg ?q)) (Atom (AnyOf i)) (ECls ?S)"
        using f(3,4) p3(3) S by (intro implements_set_eq) simp_all
      show "kept (pg p) (pg ?q)"
        using f(2) p3(3,4) by (auto intro!: kept_with_sets)
    qed (use p2 p3 in simp_all)
    then show ?thesis using that run False f(1) by simp
  qed
qed

lemma bracket_grown:
  assumes "holds p c" "\<not> starts_with (rest p) ''[:<:]]''" "\<not> starts_with (rest p) ''[:>:]]''" "perr (p_bracket p) = None"
  obtains w x S where "bracket (cflags (pg p)) w S" "grown p c (p_bracket p) w (Atom x) (ECls S)"
proof -
  obtain neg p2 cs where b: "bracket_set (snd (allocset p)) = (neg, p2, cs)" by (metis prod_cases3)
  have "perr p2 = None"
  proof (rule ccontr)
    assume "perr p2 \<noteq> None"
    then have "p_bracket p = freeset (fst (allocset p)) p2"
      using assms(2,3) b by (simp add: p_bracket_def p_bracket_with_def Let_def case_prod_beta)
    then show False using assms(4) \<open>perr p2 \<noteq> None\<close> by (simp add: freeset_def)
  qed
  then obtain w S where w: "moved (snd (allocset p)) p2 w" "bracket (cflags (pg p)) w (bracket_chars (cflags (pg p)) neg S)"
    "\<forall>c. CHIN cs c \<longleftrightarrow> c \<in> S"
    using bracket_set_read [OF b] by metis
  then have "{c. CHIN cs c} = S" by simp
  then obtain x where "grown p c (p_bracket p) w (Atom x) (ECls (bracket_chars (cflags (pg p)) neg S))"
    using bracket_emits [OF assms(1-3) b w(1)] p_bracket_one_char by metis
  then show ?thesis using that w(2) by blast
qed

text \<open>The texts that the parser makes up for the two cases of a letter and for a dot.\<close>

lemma bracket_terms_single:
  assumes "rest p = [d, CHR '']'']" "d \<notin> set ''[-]''"
  shows "bracket_terms p cs = (p\<lparr>rest := '']''\<rparr>, fold (\<lambda>c s. CHadd s c) (char_range d d) cs)"
proof -
  have "p_b_symbol p = (d, p\<lparr>rest := '']''\<rparr>)"
    using assms by (simp add: p_b_symbol_def MORE_def EATTWO_def SEETWO_def GETNEXT_def PEEK_def NEXTn_def)
  then have "p_b_term p cs = (p\<lparr>rest := '']''\<rparr>, fold (\<lambda>c s. CHadd s c) (char_range d d) cs)"
    using assms by (simp add: p_b_term_def p_b_range_def SEE_def Let_def)
  then show ?thesis
    using assms by (simp add: bracket_terms.simps [of p] bracket_terms.simps [of "p\<lparr>rest := _\<rparr>"] MORE_def PEEK_def SEETWO_def)
qed

lemma bracket_set_single:
  assumes "rest p = (if neg then ''^'' else []) @ [d, CHR '']'']" "d \<notin> set ''[-]^''"
  obtains cs where "bracket_set p = (neg, p\<lparr>rest := []\<rparr>, cs)" "\<forall>c. CHIN cs c \<longleftrightarrow> c = d"
proof -
  let ?cs = "fold (\<lambda>c s. CHadd s c) (char_range d d) empty_cset"
  have "EAT (CHR ''^'') p = (neg, p\<lparr>rest := [d, CHR '']'']\<rparr>)"
    using assms by (auto simp: EAT_def SEE_def NEXTn_def)
  then have "bracket_set p = (neg, p\<lparr>rest := []\<rparr>, ?cs)"
    using assms(2) bracket_terms_single [of "p\<lparr>rest := [d, CHR '']'']\<rparr>" d empty_cset]
    by (simp add: bracket_set_def EAT_def SEE_def MUSTEAT_def MORE_def PEEK_def NEXTn_def)
  moreover have "schar d \<le> schar c \<and> schar c \<le> schar d \<longleftrightarrow> c = d" for c
    by (metis order_antisym order_refl schar_eq)
  then have "\<forall>c. CHIN ?cs c \<longleftrightarrow> c = d"
    by (simp add: set_char_range)
  ultimately show ?thesis using that by blast
qed

lemma grown_on_text:
  assumes "holds p c" "d \<notin> set ''[-]^''"
  obtains x where "grown p c (on_text ((if neg then ''^'' else []) @ [d, CHR '']'']) (p_bracket_with one_char) p) []
    (Atom x) (ECls (bracket_chars (cflags (pg p)) neg {d}))"
proof -
  let ?t = "(if neg then ''^'' else []) @ [d, CHR '']'']" let ?p = "p\<lparr>rest := ?t, beyond := nul\<rparr>"
  have r: "rest (snd (allocset ?p)) = ?t" by (simp add: allocset_def Let_def)
  obtain cs where b: "bracket_set (snd (allocset ?p)) = (neg, snd (allocset ?p)\<lparr>rest := []\<rparr>, cs)"
    "\<forall>c. CHIN cs c \<longleftrightarrow> c = d"
    by (rule bracket_set_single [OF r assms(2)])
  have h: "holds ?p c" "\<not> starts_with (rest ?p) ''[:<:]]''" "\<not> starts_with (rest ?p) ''[:>:]]''"
    using assms by auto
  have mv: "moved (snd (allocset ?p)) (snd (allocset ?p)\<lparr>rest := []\<rparr>) ?t"
    using r by (simp add: moved_def)
  obtain x where "grown ?p c (p_bracket_with one_char ?p) ?t (Atom x) (ECls (bracket_chars (cflags (pg ?p)) neg {c. CHIN cs c}))"
    by (rule bracket_emits [OF h b(1) mv])
  moreover have "{c. CHIN cs c} = {d}" using b(2) by auto
  ultimately have "grown ?p c (p_bracket_with one_char ?p) ?t (Atom x) (ECls (bracket_chars (cflags (pg p)) neg {d}))" by simp
  then show ?thesis
    using that [of x] by (simp add: grown_def on_text_def kept_def anchor_count_def)
qed

lemma folded_single: "\<not> (has_flag flags REG_ICASE \<and> isalpha d \<and> othercase d \<noteq> d) \<Longrightarrow> folded flags {d} = {d}"
proof -
  assume "\<not> (has_flag flags REG_ICASE \<and> isalpha d \<and> othercase d \<noteq> d)"
  then have "has_flag flags REG_ICASE \<Longrightarrow> othercase d = d"
    using othercase_no_letter by blast
  then have "has_flag flags REG_ICASE \<Longrightarrow> othercase c = d \<longleftrightarrow> c = d" for c
    by (metis othercase_twice)
  then show ?thesis by (auto simp: folded_def)
qed

lemma letter_plain: "isalpha d \<Longrightarrow> d \<notin> set ''[-]^''"
  by (auto simp: isalpha_def isupper_def islower_def uch_def)

lemma grown_ordinary:
  assumes "holds p c"
  obtains x where "grown p c (ordinary d p) [] (Atom x) (ECls (folded (cflags (pg p)) {d}))"
proof (cases "has_flag (cflags (pg p)) REG_ICASE \<and> isalpha d \<and> othercase d \<noteq> d")
  case True
  then have d: "d \<notin> set ''[-]^''" using letter_plain by simp
  obtain x where "grown p c (on_text ((if False then ''^'' else []) @ [d, CHR '']'']) (p_bracket_with one_char) p) []
      (Atom x) (ECls (bracket_chars (cflags (pg p)) False {d}))"
    by (rule grown_on_text [OF assms d])
  then show ?thesis
    using that True by (simp add: ordinary_def bothcases_def bracket_chars_def)
next
  case False
  then show ?thesis
    using that grown_one_char [OF assms, of d] folded_single [OF False] by (auto simp: ordinary_def)
qed

lemma grown_any:
  assumes "holds p c"
  obtains x where "grown p c (emit_any p) [] (Atom x) (ECls (dot_chars (cflags (pg p))))"
proof (cases "has_flag (cflags (pg p)) REG_NEWLINE")
  case True
  have nl: "newline \<notin> set ''[-]^''" "\<not> isalpha newline"
    by (simp_all add: newline_def isalpha_def isupper_def islower_def uch_def)
  obtain x where "grown p c (on_text ((if True then ''^'' else []) @ [newline, CHR '']'']) (p_bracket_with one_char) p) []
      (Atom x) (ECls (bracket_chars (cflags (pg p)) True {newline}))"
    by (rule grown_on_text [OF assms nl(1)])
  moreover have "bracket_chars (cflags (pg p)) True {newline} = dot_chars (cflags (pg p))"
    using True folded_single [of "cflags (pg p)" newline] nl(2) by (auto simp: bracket_chars_def dot_chars_def)
  ultimately show ?thesis
    using that True by (simp add: emit_any_def nonnewline_def p_bracket_one_char)
next
  case False
  have "grown p c (doemit OANY p) [] (Atom Any) (ECls UNIV)"
    using holds_doemit [OF assms, of OANY] by (intro grown_atom) (simp_all add: implements_any)
  then show ?thesis
    using that [of Any] False by (simp add: emit_any_def dot_chars_def)
qed

lemma with_guts_simps [simp]:
  "holds (with_guts f p) c = holds p c" "rest (with_guts f p) = rest p" "pg (with_guts f p) = f (pg p)"
  "perr (with_guts f p) = perr p"
  by (simp_all add: with_guts_def)

lemma grown_bol:
  assumes "holds p c"
  shows "grown p c (emit_bol p) [] (Atom Bol) EBol"
  using holds_doemit [OF assms, of OBOL]
  by (auto simp: grown_def emit_bol_def implements_def kept_def anchor_count_def is_anchor_def
      atom_match_def anchor_def fun_eq_iff)

lemma grown_eol:
  assumes "holds p c"
  shows "grown p c (emit_eol p) [] (Atom Eol) EEol"
  using holds_doemit [OF assms, of OEOL]
  by (auto simp: grown_def emit_eol_def implements_def kept_def anchor_count_def is_anchor_def
      atom_match_def anchor_def fun_eq_iff)

text \<open>Texts without word boundaries.\<close>

definition no_words :: "string \<Rightarrow> bool" where
  "no_words s \<longleftrightarrow> \<not> sublist ''[:<:]]'' s \<and> \<not> sublist ''[:>:]]'' s"

lemma no_words_append: "no_words (w @ s) \<Longrightarrow> no_words s"
  by (auto simp: no_words_def sublist_append)

lemma no_words_starts: "no_words s \<Longrightarrow> \<not> starts_with s ''[:<:]]'' \<and> \<not> starts_with s ''[:>:]]''"
  by (auto simp: no_words_def starts_with_iff sublist_append)

lemma moved_grown:
  assumes "moved p q w" "grown q c q' v r e"
  shows "grown p c q' (w @ v) r e"
proof -
  from assms(1) have "pg q = pg p" unfolding moved_def
    by (metis parse.select_convs(8) parse.surjective parse.update_convs(1))
  then show ?thesis using assms unfolding grown_def moved_def by simp
qed

text \<open>An error stays.\<close>

lemma perr_one_char [simp]: "perr (one_char d p) = perr p"
  by (simp add: one_char_def Let_def)

lemma perr_p_bracket_with:
  assumes "perr (p_bracket_with one_char p) = None"
  shows "perr p = None"
proof -
  obtain neg p2 cs where b: "bracket_set (snd (allocset p)) = (neg, p2, cs)" by (metis prod_cases3)
  have a: "perr (snd (allocset p)) = perr p" by (simp add: allocset_def Let_def)
  have "perr (snd (freezeset no q)) = perr q" for no q
    by (simp add: freezeset_def freeset_def Let_def split: list.splits)
  then have "perr (p_bracket_with one_char p) = perr p \<or> perr (p_bracket_with one_char p) = perr p2"
    using b by (auto simp: p_bracket_with_def Let_def case_prod_beta freeset_def)
  then show ?thesis
    using assms bracket_set_read [OF b] a by metis
qed

lemma perr_ordinary: "perr (ordinary d p) = None \<Longrightarrow> perr p = None"
  using perr_p_bracket_with [of "p\<lparr>rest := _, beyond := nul\<rparr>"]
  by (simp add: ordinary_def bothcases_def on_text_def split: if_splits)

lemma perr_emit_any: "perr (emit_any p) = None \<Longrightarrow> perr p = None"
  using perr_p_bracket_with [of "p\<lparr>rest := _, beyond := nul\<rparr>"]
  by (simp add: emit_any_def nonnewline_def p_bracket_one_char on_text_def split: if_splits)

lemma perr_GETNEXT [simp]: "perr (snd (GETNEXT p)) = perr p"
  by (simp add: GETNEXT_def)

lemma perr_ere_simple: "perr (ere_simple d p) = None \<Longrightarrow> perr p = None"
  by (auto simp: ere_simple_def emit_bol_def emit_eol_def p_bracket_one_char Let_def case_prod_beta split: if_splits
      dest!: perr_ordinary perr_emit_any perr_p_bracket_with)

lemma moved_holds: "moved p q w \<Longrightarrow> holds q c = holds p c"
  unfolding moved_def by (metis holds_frame(1))

lemma moved_pg: "moved p q w \<Longrightarrow> pg q = pg p"
  unfolding moved_def by (metis parse.select_convs(8) parse.surjective parse.update_convs(1))

lemma grown_simple:
  assumes p: "holds p c" and ok: "perr (ere_simple d p) = None" and d: "d \<noteq> CHR ''(''" and words: "no_words (rest p)"
  obtains w x e where "atom_text (cflags (pg p)) (d # w) e" "grown p c (ere_simple d p) w (Atom x) e"
proof -
  let ?F = "cflags (pg p)"
  consider "d = CHR ''^''" | "d = CHR ''$''" | "d = CHR ''.''" | "d = CHR ''[''" | "d = CHR 0x5C" | "\<not> special d"
    using ok d by (auto simp: ere_simple_def special_def split: if_splits)
  then show ?thesis
  proof cases
    case 1
    then show ?thesis using that [of "[]" EBol Bol] atom_bol grown_bol [OF p] by (simp add: ere_simple_def)
  next
    case 2
    then show ?thesis using that [of "[]" EEol Eol] atom_eol grown_eol [OF p] by (simp add: ere_simple_def)
  next
    case 3
    obtain x where "grown p c (emit_any p) [] (Atom x) (ECls (dot_chars ?F))" by (rule grown_any [OF p])
    then show ?thesis using that [of "[]" "ECls (dot_chars ?F)" x] atom_dot [of ?F] 3 by (simp add: ere_simple_def)
  next
    case 4
    then have "perr (p_bracket p) = None" using ok by (simp add: ere_simple_def)
    then obtain w x S where "bracket ?F w S" "grown p c (p_bracket p) w (Atom x) (ECls S)"
      using bracket_grown [OF p] no_words_starts [OF words] by metis
    then show ?thesis using that atom_bracket [of ?F w S] 4 by (simp add: ere_simple_def)
  next
    case 5
    obtain b p1 where b: "GETNEXT (REQUIRE (MORE p) REG_EESCAPE p) = (b, p1)" by fastforce
    have s: "ere_simple d p = ordinary b p1" using 5 b by (simp add: ere_simple_def)
    then have "perr (REQUIRE (MORE p) REG_EESCAPE p) = None"
      using perr_ordinary [of b p1] ok b perr_GETNEXT [of "REQUIRE (MORE p) REG_EESCAPE p"] by simp
    then have m: "moved p p1 [b]" using moved_GETNEXT [of p] b by simp
    then have "holds p1 c" using p by (simp add: moved_holds)
    then obtain x where "grown p1 c (ordinary b p1) [] (Atom x) (ECls (folded (cflags (pg p1)) {b}))"
      by (rule grown_ordinary)
    then have "grown p c (ere_simple d p) ([b] @ []) (Atom x) (ECls (folded ?F {b}))"
      using moved_grown [OF m] moved_pg [OF m] s by simp
    then show ?thesis using that atom_escaped [of ?F b] 5 by simp
  next
    case 6
    let ?p = "if d = CHR ''{'' then REQUIRE (\<not> MORE p \<or> \<not> isdigit (PEEK p)) REG_BADRPT p else p"
    have s: "ere_simple d p = ordinary d ?p" using 6 d by (auto simp: ere_simple_def special_def)
    have "perr ?p = None" using ok unfolding s by (rule perr_ordinary)
    then have "?p = p" by (auto split: if_splits)
    moreover obtain x where "grown p c (ordinary d p) [] (Atom x) (ECls (folded ?F {d}))"
      by (rule grown_ordinary [OF p])
    ultimately show ?thesis using that [of "[]" _ x] atom_char [OF 6, of ?F] s by simp
  qed
qed

section \<open>Quantifiers\<close>

lemma count_loop_split:
  "count_loop n k cs = (n', k', r) \<Longrightarrow>
   \<exists>w. cs = w @ r \<and> (\<forall>c\<in>set w. isdigit c) \<and> n' = digits_value n w \<and> k' = k + length w"
proof (induction n k cs rule: count_loop.induct)
  case (2 n k c cs)
  show ?case
  proof (cases "isdigit c \<and> n \<le> DUPMAX")
    case True
    then obtain w where "cs = w @ r" "\<forall>c\<in>set w. isdigit c" "n' = digits_value (n * 10 + (uch c - 48)) w" "k' = k + 1 + length w"
      using "2.IH" [OF True] "2.prems" by auto
    then show ?thesis
      using True by (intro exI [of _ "c # w"]) (simp add: digits_value_def)
  next
    case False
    then show ?thesis
      using "2.prems" by (intro exI [of _ "[]"]) (auto simp: digits_value_def)
  qed
qed (simp add: digits_value_def)

lemma p_count_read:
  assumes "p_count p = (n, q)" "perr q = None"
  obtains w where "moved p q w" "count_text w n" "perr p = None"
proof -
  obtain k r where l: "count_loop 0 0 (rest p) = (n, k, r)" "q = REQUIRE (0 < k \<and> n \<le> DUPMAX) REG_BADBR (p\<lparr>rest := r\<rparr>)"
    using assms(1) by (auto simp: p_count_def Let_def split: prod.splits)
  then have "0 < k \<and> n \<le> DUPMAX" "q = p\<lparr>rest := r\<rparr>" "perr p = None"
    using assms(2) by (simp_all add: REQUIRE_def split: if_splits)
  moreover obtain w where "rest p = w @ r" "\<forall>c\<in>set w. isdigit c" "n = digits_value 0 w" "k = length w"
    using count_loop_split [OF l(1)] by auto
  ultimately show ?thesis
    using that [of w] by (auto simp: moved_def count_text_def)
qed

lemma p_counts_read:
  assumes "p_counts mf p = (lo, hi, q)" "perr q = None"
  obtains w b where "moved p q w" "bounds_text w lo b" "hi = bound_of b" "perr p = None"
proof -
  obtain n p1 where n: "p_count p = (n, p1)" by fastforce
  obtain comma p2 where e: "EAT (CHR '','') p1 = (comma, p2)" by fastforce
  have m2: "moved p1 p2 (if comma then '','' else [])" using moved_EAT [OF e] by simp
  consider "\<not> comma" "(lo, hi, q) = (n, n, p2)" | "comma" "(lo, hi, q) = (n, INFINITY, p2)"
    | k p3 where "comma" "p_count p2 = (k, p3)" "(lo, hi, q) = (n, k, REQUIRE (n \<le> k) REG_BADBR p3)"
  proof (cases "comma \<and> (mf \<longrightarrow> MORE p2) \<and> isdigit (PEEK p2)")
    case True
    obtain k p3 where "p_count p2 = (k, p3)" by fastforce
    then show ?thesis using that(3) [of k p3] True assms(1) n e by (auto simp: p_counts_def)
  next
    case False
    then show ?thesis using that(1,2) assms(1) n e by (cases comma) (simp_all add: p_counts_def split: if_splits)
  qed
  then show ?thesis
  proof cases
    case 1
    then have "perr p1 = None" using assms(2) moved_perr [OF m2] by simp
    then obtain w where "moved p p1 w" "count_text w n" "perr p = None" using p_count_read [OF n] by blast
    then show ?thesis
      using that [of w "Some n"] 1 moved_trans [OF _ m2, of p w] bounds_exact by (simp add: bound_of_def)
  next
    case 2
    then have "perr p1 = None" using assms(2) moved_perr [OF m2] by simp
    then obtain w where "moved p p1 w" "count_text w n" "perr p = None" using p_count_read [OF n] by blast
    then show ?thesis
      using that [of "w @ '',''" None] 2 moved_trans [OF _ m2, of p w] bounds_from by (simp add: bound_of_def)
  next
    case 3
    then have "n \<le> k" "q = p3" "perr p3 = None" using assms(2) by auto
    then obtain v where v: "moved p2 p3 v" "count_text v k" "perr p2 = None" using p_count_read [OF 3(2)] by blast
    then have "perr p1 = None" using moved_perr [OF m2] by simp
    then obtain w where "moved p p1 w" "count_text w n" "perr p = None" using p_count_read [OF n] by blast
    then show ?thesis
      using that [of "w @ '','' @ v" "Some k"] 3 \<open>n \<le> k\<close> \<open>q = p3\<close> v moved_trans [OF _ moved_trans [OF m2 v(1)], of p w]
        bounds_between [of w n v k] by (simp add: bound_of_def)
  qed
qed

lemma bounds_text_ok: "bounds_text w lo b \<Longrightarrow> bounds_ok lo b"
  by (auto simp: bounds_ok_def count_text_def elim!: bounds_text.cases)

lemma perr_repeat: "perr p \<noteq> None \<Longrightarrow> repeat s lo hi p = p"
  unfolding repeat.simps [of s lo hi p] by (rule if_P)

lemma close_brace_read: "perr (ere_close_brace p) = None \<Longrightarrow> moved p (ere_close_brace p) ''}''"
  using moved_EAT [of "CHR ''}''" p] by (auto simp: ere_close_brace_def Let_def split: prod.splits if_splits)

text \<open>The code for a repetition in place of the code for its operand.\<close>

lemma grown_rep:
  assumes g: "grown p c q w r e" and h: "holds q' (c @ code_of r')" "re_ok r'"
    and m: "\<And>m. rmatch m r' = reps (rmatch m r) lo hi"
    and none: "\<And>s. between_chars s \<Longrightarrow> s \<notin> set (code_of r) \<Longrightarrow> s \<notin> set (code_of r')"
    and once: "\<And>s. is_anchor s \<Longrightarrow> lo \<le> 1 \<Longrightarrow> \<forall>h. hi = Some h \<longrightarrow> h \<le> 1 \<Longrightarrow>
      count_list (code_of r') s \<le> count_list (code_of r) s"
    and q': "pg q' = pg q" "rest q = v @ rest q'"
  shows "grown p c q' (w @ v) r' (ERep e lo hi)"
proof -
  have i: "implements (sets (pg q)) r e" using g by (simp add: grown_def)
  have "implements (sets (pg q')) r' (ERep e lo hi)"
    using i h(2) m none q'(1) unfolding implements_def between_chars_def by auto
  moreover have "anchor_count (pg p) s + count_list (code_of r') s \<le> anchor_count (pg q') s"
    if a: "anchors_once (ERep e lo hi)" "is_anchor s" for s
  proof -
    have "anchor_count (pg p) s + count_list (code_of r) s \<le> anchor_count (pg q) s"
      using g a by (simp add: grown_def)
    moreover have "count_list (code_of r') s \<le> count_list (code_of r) s"
    proof (cases "no_anchor e")
      case True
      then have "s \<notin> set (code_of r)" using i a(2) by (auto simp: implements_def)
      then show ?thesis using none [of s] a(2) by (simp add: between_chars_def)
    next
      case False
      then show ?thesis using once [of s] a by (auto split: option.splits)
    qed
    ultimately show ?thesis using q'(1) by simp
  qed
  ultimately show ?thesis
    using g h(1) q' by (simp add: grown_def)
qed

lemma rmatch_star: "rmatch m (Quest (Plus r)) = reps (rmatch m r) 0 None"
  by (simp add: reps_star)

lemma rmatch_plus: "rmatch m (Plus r) = reps (rmatch m r) 1 None"
  by (simp add: reps_plus [unfolded One_nat_def])

lemma rmatch_quest: "rmatch m (Alt r [Eps]) = reps (rmatch m r) 0 (Some 1)"
  using reps_one [of "rmatch m r"] by (intro ext) (auto simp: reps_0)

text \<open>A quantifier that was read turns an atom into a repetition.\<close>

lemma grown_quantifier:
  assumes g: "grown p c q w r e" and q1: "moved q q1 [d]" and ok: "perr (ere_repeat d (length c) q1) = None"
    and d: "d \<in> set ''*+?{''"
  obtains v r' lo hi where "quantifier v lo hi" "grown p c (ere_repeat d (length c) q1) (w @ v) r' (ERep e lo hi)"
proof -
  have h: "holds q1 (c @ code_of r)" and r: "re_ok r" and pg: "pg q1 = pg q" and rest: "rest q = [d] @ rest q1"
    using g q1 moved_holds [OF q1] moved_pg [OF q1] by (simp_all add: grown_def implements_def moved_def)
  note simps = between_chars_def is_anchor_def ere_repeat_def
  consider "d = CHR ''*''" | "d = CHR ''+''" | "d = CHR ''?''" | "d = CHR ''{''" using d by auto
  then show ?thesis
  proof cases
    case 1
    have "grown p c (emit_star (length c) q1) (w @ ''*'') (Quest (Plus r)) (ERep e 0 None)"
      by (rule grown_rep [OF g holds_emit_star [OF h]]) (use r pg rest 1 in \<open>auto simp: simps rmatch_star emit_star_def simp del: rmatch.simps\<close>)
    then show ?thesis using that quant_star 1 by (simp add: ere_repeat_def)
  next
    case 2
    have "grown p c (emit_plus (length c) q1) (w @ ''+'') (Plus r) (ERep e 1 None)"
      by (rule grown_rep [OF g holds_emit_plus [OF h]]) (use r pg rest 2 in \<open>auto simp: simps rmatch_plus emit_plus_def simp del: rmatch.simps\<close>)
    then show ?thesis using that quant_plus 2 by (simp add: ere_repeat_def)
  next
    case 3
    have "grown p c (emit_quest (length c) q1) (w @ ''?'') (Alt r [Eps]) (ERep e 0 (Some 1))"
      by (rule grown_rep [OF g holds_emit_quest [OF h]]) (use r pg rest 3 in \<open>auto simp: simps rmatch_quest emit_quest_def simp del: rmatch.simps\<close>)
    then show ?thesis using that quant_quest 3 by (simp add: ere_repeat_def)
  next
    case 4
    obtain lo hi q2 where c: "p_counts False q1 = (lo, hi, q2)" by (metis prod_cases3)
    let ?q3 = "repeat (length c) lo hi q2"
    have run: "ere_repeat d (length c) q1 = ere_close_brace ?q3"
      using 4 c by (simp add: ere_repeat_def ere_bounds_def)
    have ok4: "perr (ere_close_brace ?q3) = None" using ok unfolding run .
    have m4: "moved ?q3 (ere_close_brace ?q3) ''}''" by (rule close_brace_read [OF ok4])
    have "perr ?q3 = None" using moved_perr [OF m4] ok4 by simp
    then have "perr q2 = None" by (metis perr_repeat)
    then obtain v b where v: "moved q1 q2 v" "bounds_text v lo b" "hi = bound_of b"
      by (rule p_counts_read [OF c])
    have h2: "holds q2 (c @ code_of r)" using h moved_holds [OF v(1)] by blast
    have h3: "holds ?q3 (c @ code_of (rep_re lo b r))" "same_input q2 ?q3"
      unfolding v(3) using repeat_code [OF h2 bounds_text_ok [OF v(2)]] by blast+
    have g4: "pg (ere_close_brace ?q3) = pg q" "rest q = (''{'' @ v @ ''}'') @ rest (ere_close_brace ?q3)"
      using h3(2) moved_pg [OF m4] moved_pg [OF v(1)] pg m4 v(1) rest 4 by (simp_all add: same_input_def moved_def)
    have h4: "holds (ere_close_brace ?q3) (c @ code_of (rep_re lo b r))"
      using h3(1) moved_holds [OF m4] by blast
    have "grown p c (ere_close_brace ?q3) (w @ ''{'' @ v @ ''}'') (rep_re lo b r) (ERep e lo b)"
      by (rule grown_rep [OF g h4 re_ok_rep [OF r] rmatch_rep [OF bounds_text_ok [OF v(2)]] count_rep_none count_rep_once g4])
    then show ?thesis using that quant_bounds [OF v(2)] run by simp
  qed
qed

end
