(* ===== verification/RegEre.thy ===== *)
theory RegEre
  imports RegGrammar
begin

text \<open>
  The parser of extended expressions as a whole: pieces, branches and choices, by induction over
  its calls.  Then \<open>regcomp\<close> for extended expressions: its result, its errors and its end.
\<close>

section \<open>Pieces\<close>

lemma perr_MUSTEAT: "perr (MUSTEAT c e p) = None \<Longrightarrow> perr p = None"
  using moved_perr [OF moved_MUSTEAT] by metis

lemma perr_ere_repeat: "perr (ere_repeat d n p) = None \<Longrightarrow> perr p = None"
proof -
  assume ok: "perr (ere_repeat d n p) = None"
  obtain lo hi q where c: "p_counts False p = (lo, hi, q)" by (metis prod_cases3)
  show ?thesis
  proof (cases "d = CHR ''*'' \<or> d = CHR ''+'' \<or> d = CHR ''?''")
    case True
    then show ?thesis using ok by (auto simp: ere_repeat_def emit_star_def emit_plus_def emit_quest_def)
  next
    case False
    then have "perr (ere_close_brace (repeat n lo hi q)) = None"
      using ok c by (simp add: ere_repeat_def ere_bounds_def)
    from moved_perr [OF close_brace_read [OF this]] this have "perr (repeat n lo hi q) = None" by simp
    then have "perr q = None" by (metis perr_repeat)
    then show ?thesis by (rule p_counts_read [OF c])
  qed
qed

lemma perr_ere_suffix: "perr (ere_suffix n caret p) = None \<Longrightarrow> perr p = None"
proof -
  assume ok: "perr (ere_suffix n caret p) = None"
  show ?thesis
  proof (cases "sees_repetition p")
    case True
    then have "perr (ere_repeat (fst (GETNEXT p)) n (REQUIRE (\<not> caret) REG_BADRPT (snd (GETNEXT p)))) = None"
      using ok by (simp add: ere_suffix_def Let_def case_prod_beta split: if_splits)
    from perr_ere_repeat [OF this] show ?thesis by simp
  qed (use ok in \<open>simp add: ere_suffix_def\<close>)
qed

lemma suffix_grown:
  assumes a: "atom_text F w e" and g: "grown p c q w r e" and ok: "perr (ere_suffix (length c) caret q) = None"
    and caret: "w = ''^'' \<longrightarrow> caret"
  obtains w' r' e' where "piece_text F w' e'" "grown p c (ere_suffix (length c) caret q) w' r' e'"
proof (cases "sees_repetition q")
  case False
  then show ?thesis using that piece_atom [OF a] g by (simp add: ere_suffix_def)
next
  case True
  then obtain d t where d: "rest q = d # t" "d \<in> set ''*+?{''"
    by (auto simp: sees_repetition_def split: list.splits)
  then have n: "GETNEXT q = (d, NEXTn 1 q)" "moved q (NEXTn 1 q) [d]"
    by (simp_all add: GETNEXT_def PEEK_def moved_def NEXTn_def)
  let ?q = "REQUIRE (\<not> caret) REG_BADRPT (NEXTn 1 q)"
  have s: "ere_suffix (length c) caret q = ere_repeat d (length c) ?q" and ok': "perr (ere_repeat d (length c) ?q) = None"
    using True n(1) ok by (simp_all add: ere_suffix_def Let_def split: if_splits)
  have "perr ?q = None" by (rule perr_ere_repeat [OF ok'])
  then have nc: "\<not> caret" "?q = NEXTn 1 q" by simp_all
  then have "moved q ?q [d]" using n(2) by simp
  then obtain v r' lo hi where "quantifier v lo hi" "grown p c (ere_repeat d (length c) ?q) (w @ v) r' (ERep e lo hi)"
    by (rule grown_quantifier [OF g _ ok' d(2)])
  then show ?thesis using that piece_quantified [OF a _ ] caret nc(1) s by metis
qed

section \<open>Groups\<close>

lemma implements_Paren: "implements ss r e \<Longrightarrow> implements ss (Paren n r) (EGroup e)"
  by (auto simp: implements_def is_anchor_def)

lemma implements_Eps: "implements ss Eps EEmpty"
  by (simp add: implements_def)

lemma grown_empty: "holds p c \<Longrightarrow> grown p c p [] Eps EEmpty"
  by (simp add: grown_def implements_Eps)

lemma open_paren_simps:
  assumes "open_paren p = (n, q)"
  shows "perr q = perr p" "rest q = rest p" "kept (pg p) (pg q)" "nbol (pg q) = nbol (pg p)" "neol (pg q) = neol (pg p)"
    "holds p c \<Longrightarrow> holds q (c @ [OLPAREN n])"
proof -
  have q: "q = doemit (OLPAREN n) (if n < NPAREN then with_guts (\<lambda>g. g\<lparr>nsub := nsub g + 1\<rparr>) p
        \<lparr>pbegin := (pbegin p)[n := slen p]\<rparr> else with_guts (\<lambda>g. g\<lparr>nsub := nsub g + 1\<rparr>) p)"
    using assms by (auto simp: open_paren_def Let_def with_guts_def)
  then show "perr q = perr p" "rest q = rest p" "kept (pg p) (pg q)" "nbol (pg q) = nbol (pg p)" "neol (pg q) = neol (pg p)"
    by (simp_all add: kept_def with_guts_def)
  show "holds q (c @ [OLPAREN n])" if "holds p c"
    unfolding q by (rule holds_doemit) (use that in simp)
qed

lemma close_paren_simps:
  "perr (close_paren n p) = perr p" "rest (close_paren n p) = rest p" "pg (close_paren n p) = pg p"
  "holds p c \<Longrightarrow> holds (close_paren n p) (c @ [ORPAREN n])"
  by (simp_all add: close_paren_def Let_def holds_doemit)

lemma grown_paren:
  assumes p: "holds p c" and o: "open_paren p = (n, p1)" and g: "grown p1 (c @ [OLPAREN n]) p2 w r e"
    and ok: "perr (MUSTEAT (CHR '')'') REG_EPAREN (close_paren n p2)) = None"
  shows "grown p c (MUSTEAT (CHR '')'') REG_EPAREN (close_paren n p2)) (w @ '')'') (Paren n r) (EGroup e)"
proof -
  let ?q = "MUSTEAT (CHR '')'') REG_EPAREN (close_paren n p2)"
  have m: "moved (close_paren n p2) ?q '')''" by (rule moved_MUSTEAT [OF ok])
  have "holds (close_paren n p2) ((c @ OLPAREN n # code_of r) @ [ORPAREN n])"
    using g by (intro close_paren_simps) (simp add: grown_def)
  then have "holds ?q (c @ code_of (Paren n r))"
    using moved_holds [OF m] by simp
  moreover have "pg ?q = pg p2" using moved_pg [OF m] by (simp add: close_paren_simps)
  moreover have "rest p2 = '')'' @ rest ?q" using m by (simp add: moved_def close_paren_simps)
  moreover have "count_list (code_of (Paren n r)) s = count_list (code_of r) s" if "is_anchor s" for s
    using that by (auto simp: is_anchor_def)
  moreover have "anchor_count (pg p1) = anchor_count (pg p)"
    using open_paren_simps(4,5) [OF o] by (simp add: anchor_count_def fun_eq_iff)
  ultimately show ?thesis
    using g open_paren_simps(2,3) [OF o] kept_trans [of "pg p" "pg p1" "pg p2"] implements_Paren
    by (simp add: grown_def del: code_of.simps)
qed

section \<open>Choices\<close>

text \<open>The branches of a choice after the first one.\<close>

definition implements_some :: "cset list \<Rightarrow> re list \<Rightarrow> ere \<Rightarrow> bool" where
  "implements_some ss rs e \<longleftrightarrow>
     rs \<noteq> [] \<and> (\<forall>r\<in>set rs. re_ok r) \<and>
     (\<forall>m ss'. sets (guts m) = ss @ ss' \<longrightarrow> (\<forall>i j. (\<exists>r\<in>set rs. rmatch m r i j) \<longleftrightarrow> ematch m e i j)) \<and>
     (no_anchor e \<longrightarrow> (\<forall>s r. is_anchor s \<longrightarrow> r \<in> set rs \<longrightarrow> s \<notin> set (code_of r))) \<and>
     (\<forall>r\<in>set rs. OBOW \<notin> set (code_of r) \<and> OEOW \<notin> set (code_of r))"

definition grown_tail :: "parse \<Rightarrow> sop list \<Rightarrow> parse \<Rightarrow> string \<Rightarrow> re list \<Rightarrow> ere \<Rightarrow> bool" where
  "grown_tail p c q w rs e \<longleftrightarrow>
     holds q (c @ alt_tail (map code_of rs)) \<and> implements_some (sets (pg q)) rs e \<and> rest p = w @ rest q \<and>
     kept (pg p) (pg q) \<and>
     (anchors_once e \<longrightarrow>
        (\<forall>s. is_anchor s \<longrightarrow>
           anchor_count (pg p) s + (\<Sum>r\<leftarrow>rs. count_list (code_of r) s) \<le> anchor_count (pg q) s))"

lemma implements_some_grow: "implements_some ss rs e \<Longrightarrow> implements_some (ss @ ts) rs e"
  by (simp add: implements_some_def)

lemma set_alt_tail: "between_chars s \<Longrightarrow> s \<in> set (alt_tail cs) \<longleftrightarrow> (\<exists>c\<in>set cs. s \<in> set c)"
  by (induction cs rule: alt_tail.induct) (auto simp: between_chars_def is_anchor_def)

lemma count_alt_tail: "between_chars s \<Longrightarrow> count_list (alt_tail cs) s = (\<Sum>c\<leftarrow>cs. count_list c s)"
  by (induction cs rule: alt_tail.induct) (auto simp: between_chars_def is_anchor_def)

lemma implements_one: "implements ss r e \<Longrightarrow> implements_some ss [r] e"
  by (simp add: implements_def implements_some_def)

lemma implements_more:
  "implements ss r e \<Longrightarrow> implements_some ss rs f \<Longrightarrow> implements_some ss (r # rs) (EAlt e f)"
  by (auto simp: implements_def implements_some_def)

lemma implements_Alt:
  "implements ss r e \<Longrightarrow> implements_some ss rs f \<Longrightarrow> implements ss (Alt r rs) (EAlt e f)"
  by (auto simp: implements_def implements_some_def set_alt_tail between_chars_def is_anchor_def fun_eq_iff)

lemma next_branch_first:
  assumes p: "holds p (c @ code_of r)" and n: "next_branch (length c) None p = ((b, f), q)"
  shows "b = length (c @ OCH (length (code_of r) + 2) # code_of r)" "f = Suc b"
    "holds q ((c @ OCH (length (code_of r) + 2) # code_of r) @ [OOR1 (length (code_of r) + 1), OOR2 0])"
    "pg q = pg p" "rest q = rest p" "perr q = perr p"
proof -
  let ?n = "length (code_of r)" and ?p1 = "INSERT OCH (length c) p"
  let ?p2 = "ASTERN OOR1 (length c) ?p1"
  let ?p3 = "AHEAD (length c) ?p2"
  have "holds ?p2 (c @ OCH (?n + 1) # code_of r @ [OOR1 (?n + 1)])"
    using holds_ASTERN [OF holds_INSERT [OF p, of OCH], of OOR1] by simp
  then have p3: "holds ?p3 (c @ OCH (?n + 2) # code_of r @ [OOR1 (?n + 1)])"
    using holds_AHEAD by fastforce
  have q: "b = slen ?p2 - 1" "f = slen ?p3" "q = doemit (OOR2 0) ?p3"
    using n by (auto simp: next_branch_def Let_def)
  show "b = length (c @ OCH (?n + 2) # code_of r)" "f = Suc b"
    using holds_slen [OF p3] q by simp_all
  show "holds q ((c @ OCH (?n + 2) # code_of r) @ [OOR1 (?n + 1), OOR2 0])"
    using holds_doemit [OF p3, of "OOR2 0"] q(3) by simp
  show "pg q = pg p" "rest q = rest p" "perr q = perr p" using q(3) by simp_all
qed

lemma next_branch_more:
  assumes p: "holds p (c @ OOR1 k # OOR2 k' # code_of r)" and n: "next_branch x (Some (length c, Suc (length c))) p = ((b, f), q)"
  shows "b = length (c @ OOR1 k # OOR2 (length (code_of r) + 2) # code_of r)" "f = Suc b"
    "holds q ((c @ OOR1 k # OOR2 (length (code_of r) + 2) # code_of r) @ [OOR1 (length (code_of r) + 2), OOR2 0])"
    "pg q = pg p" "rest q = rest p" "perr q = perr p"
proof -
  let ?n = "length (code_of r)"
  let ?p2 = "ASTERN OOR1 (length c) p"
  let ?p3 = "AHEAD (Suc (length c)) ?p2"
  have "holds ?p2 ((c @ [OOR1 k]) @ OOR2 k' # code_of r @ [OOR1 (?n + 2)])"
    using holds_ASTERN [OF p, of OOR1] by simp
  then have p3: "holds ?p3 ((c @ [OOR1 k]) @ OOR2 (?n + 2) # code_of r @ [OOR1 (?n + 2)])"
    using holds_AHEAD by fastforce
  have q: "b = slen ?p2 - 1" "f = slen ?p3" "q = doemit (OOR2 0) ?p3"
    using n by (auto simp: next_branch_def Let_def)
  show "b = length (c @ OOR1 k # OOR2 (?n + 2) # code_of r)" "f = Suc b"
    using holds_slen [OF p3] q by simp_all
  show "holds q ((c @ OOR1 k # OOR2 (?n + 2) # code_of r) @ [OOR1 (?n + 2), OOR2 0])"
    using holds_doemit [OF p3, of "OOR2 0"] q(3) by simp
  show "pg q = pg p" "rest q = rest p" "perr q = perr p" using q(3) by simp_all
qed

lemma end_choice_simps [simp]: "pg (end_choice prev p) = pg p" "rest (end_choice prev p) = rest p" "perr (end_choice prev p) = perr p"
  by (simp_all add: end_choice_def split: option.splits prod.splits)

lemma end_choice_holds:
  assumes p: "holds p (c @ OOR1 k # OOR2 k' # code_of r)"
  shows "holds (end_choice (Some (length c, Suc (length c))) p) (c @ OOR1 k # alt_tail [code_of r])"
proof -
  let ?n = "length (code_of r)" and ?p = "AHEAD (Suc (length c)) p"
  have "holds p ((c @ [OOR1 k]) @ OOR2 k' # code_of r)" using p by simp
  from holds_AHEAD [OF this] have "holds ?p (c @ OOR1 k # OOR2 (?n + 1) # code_of r)" by simp
  from holds_ASTERN [OF this, of O_CH] show ?thesis by (simp add: end_choice_def)
qed

section \<open>The parser\<close>

lemma perr_next_branch: "next_branch n prev p = (x, q) \<Longrightarrow> perr q = perr p"
  by (auto simp: next_branch_def Let_def split: option.splits prod.splits)

lemma perr_EAT: "EAT c p = (b, q) \<Longrightarrow> perr q = perr p"
  using moved_perr [OF moved_EAT] by blast

text \<open>The calls of the parser on success.\<close>

lemma ere_branchesE:
  assumes "ere_branches (Suc n) stop prev p = Some q"
  obtains p1 bar p3 where "ere_seq n stop p = Some p1" "EAT (CHR ''|'') (REQUIRE (slen p1 \<noteq> slen p) REG_EMPTY p1) = (bar, p3)"
    "bar \<Longrightarrow> \<exists>prev' p4. next_branch (slen p) prev p3 = (prev', p4) \<and> ere_branches n stop (Some prev') p4 = Some q"
    "\<not> bar \<Longrightarrow> q = end_choice prev p3"
proof -
  obtain p1 where p1: "ere_seq n stop p = Some p1" using assms by (auto simp: bind_eq_Some_conv)
  obtain bar p3 where e: "EAT (CHR ''|'') (REQUIRE (slen p1 \<noteq> slen p) REG_EMPTY p1) = (bar, p3)" by fastforce
  obtain prev' p4 where x: "next_branch (slen p) prev p3 = (prev', p4)" by fastforce
  have c: "(if bar then ere_branches n stop (Some prev') p4 else Some (end_choice prev p3)) = Some q"
    using assms p1 e x by (cases bar) simp_all
  show ?thesis
  proof (rule that [OF p1 e])
    show "\<exists>prev' p4. next_branch (slen p) prev p3 = (prev', p4) \<and> ere_branches n stop (Some prev') p4 = Some q" if bar
      using that c x by simp
    show "q = end_choice prev p3" if "\<not> bar" using that c by simp
  qed
qed

lemma p_ere_expE:
  assumes "p_ere_exp (Suc n) p = Some q" "GETNEXT p = (d, p0)"
  obtains (simple) "d \<noteq> CHR ''(''" "q = ere_suffix (slen p0) (d = CHR ''^'') (ere_simple d p0)"
    | (group) m p1 p2 where "d = CHR ''(''" "open_paren (REQUIRE (MORE p0) REG_EPAREN p0) = (m, p1)"
        "SEE (CHR '')'') p1 \<and> p2 = p1 \<or> ere_branches n (Some (CHR '')'')) None p1 = Some p2"
        "q = ere_suffix (slen p0) False (MUSTEAT (CHR '')'') REG_EPAREN (close_paren m p2))"
proof (cases "d = CHR ''(''")
  case True
  obtain m p1 where o: "open_paren (REQUIRE (MORE p0) REG_EPAREN p0) = (m, p1)" by fastforce
  obtain p2 where p2: "(if SEE (CHR '')'') p1 then Some p1 else ere_branches n (Some (CHR '')'')) None p1) = Some p2"
    "q = ere_suffix (slen p0) False (MUSTEAT (CHR '')'') REG_EPAREN (close_paren m p2))"
    using assms o True by (auto simp: bind_eq_Some_conv simp del: ere_branches.simps)
  have "SEE (CHR '')'') p1 \<and> p2 = p1 \<or> ere_branches n (Some (CHR '')'')) None p1 = Some p2"
    using p2(1) by (cases "SEE (CHR '')'') p1") simp_all
  then show ?thesis by (rule group [OF True o _ p2(2)])
next
  case False
  then show ?thesis using simple assms by simp
qed

definition ere_calls :: "(parse \<Rightarrow> parse \<Rightarrow> bool) \<Rightarrow> nat \<Rightarrow> bool" where
  "ere_calls P n \<longleftrightarrow>
     (\<forall>stop prev p q. ere_branches n stop prev p = Some q \<longrightarrow> P p q) \<and>
     (\<forall>stop p q. ere_seq n stop p = Some q \<longrightarrow> P p q) \<and>
     (\<forall>p q. p_ere_exp n p = Some q \<longrightarrow> P p q)"

lemma perr_ere: "ere_calls (\<lambda>p q. perr q = None \<longrightarrow> perr p = None) n"
proof (induction n)
  case (Suc n)
  have "perr p = None" if b: "ere_branches (Suc n) stop prev p = Some q" "perr q = None" for stop prev p q
    using b(1)
  proof (rule ere_branchesE)
    fix p1 bar p3
    assume a: "ere_seq n stop p = Some p1" "EAT (CHR ''|'') (REQUIRE (slen p1 \<noteq> slen p) REG_EMPTY p1) = (bar, p3)"
      "bar \<Longrightarrow> \<exists>prev' p4. next_branch (slen p) prev p3 = (prev', p4) \<and> ere_branches n stop (Some prev') p4 = Some q"
      "\<not> bar \<Longrightarrow> q = end_choice prev p3"
    have "perr p3 = None"
      using a(3,4) b(2) Suc.IH perr_next_branch [of "slen p" prev p3] by (cases bar) (auto simp: ere_calls_def)
    then have "perr p1 = None" using perr_EAT [OF a(2)] by simp
    then show "perr p = None" using a(1) Suc.IH by (auto simp: ere_calls_def)
  qed
  moreover have "perr p = None" if s: "ere_seq (Suc n) stop p = Some q" "perr q = None" for stop p q
    using s Suc.IH by (auto simp: bind_eq_Some_conv ere_calls_def split: if_splits)
  moreover have "perr p = None" if e: "p_ere_exp (Suc n) p = Some q" "perr q = None" for p q
  proof -
    obtain d p0 where d: "GETNEXT p = (d, p0)" by fastforce
    then have p0: "perr p0 = perr p" using perr_GETNEXT [of p] by simp
    from e(1) d show ?thesis
    proof (cases rule: p_ere_expE)
      case simple
      from perr_ere_simple [OF perr_ere_suffix] simple(2) e(2) have "perr p0 = None" by blast
      then show ?thesis using p0 by simp
    next
      case (group m p1 p2)
      from perr_MUSTEAT [OF perr_ere_suffix] group(4) e(2) have "perr (close_paren m p2) = None" by blast
      then have "perr p2 = None" by (simp add: close_paren_simps(1))
      then have "perr p1 = None" using group(3) Suc.IH by (auto simp: ere_calls_def)
      then show ?thesis using open_paren_simps(1) [OF group(2)] p0 by simp
    qed
  qed
  ultimately show ?case unfolding ere_calls_def by blast
qed (simp add: ere_calls_def)

text \<open>What is shown of each function: what it reads is a word of the grammar, with its code.\<close>

definition exp_ok :: "nat \<Rightarrow> bool" where
  "exp_ok n \<longleftrightarrow>
     (\<forall>p q c. p_ere_exp n p = Some q \<longrightarrow> perr q = None \<longrightarrow> MORE p \<longrightarrow> no_words (rest p) \<longrightarrow> holds p c \<longrightarrow>
        (\<exists>w r e. piece_text (cflags (pg p)) w e \<and> grown p c q w r e \<and>
           (w = ''{'' \<longrightarrow> rest q = [] \<or> \<not> isdigit (hd (rest q)))))"

definition seq_ok :: "nat \<Rightarrow> bool" where
  "seq_ok n \<longleftrightarrow>
     (\<forall>stop p q c. ere_seq n stop p = Some q \<longrightarrow> perr q = None \<longrightarrow> no_words (rest p) \<longrightarrow> holds p c \<longrightarrow>
        q = p \<or> (\<exists>w r e. branch_text (cflags (pg p)) w e \<and> grown p c q w r e))"

definition branches_ok :: "nat \<Rightarrow> bool" where
  "branches_ok n \<longleftrightarrow>
     (\<forall>stop p q c. ere_branches n stop None p = Some q \<longrightarrow> perr q = None \<longrightarrow> no_words (rest p) \<longrightarrow> holds p c \<longrightarrow>
        (\<exists>w r e. ere_text (cflags (pg p)) w e \<and> grown p c q w r e))"

definition more_ok :: "nat \<Rightarrow> bool" where
  "more_ok n \<longleftrightarrow>
     (\<forall>stop p q c k k'. ere_branches n stop (Some (length c, Suc (length c))) p = Some q \<longrightarrow> perr q = None \<longrightarrow>
        no_words (rest p) \<longrightarrow> holds p (c @ [OOR1 k, OOR2 k']) \<longrightarrow>
        (\<exists>w rs e. ere_text (cflags (pg p)) w e \<and> grown_tail p (c @ [OOR1 k]) q w rs e))"

lemma grown_moved: "grown p c q w r e \<Longrightarrow> moved q q' v \<Longrightarrow> grown p c q' (w @ v) r e"
  using moved_pg [of q q' v] moved_holds [of q q' v] unfolding grown_def moved_def by auto

lemma grown_cflags: "grown p c q w r e \<Longrightarrow> cflags (pg q) = cflags (pg p)"
  by (simp add: grown_def kept_def)

lemma grown_words: "grown p c q w r e \<Longrightarrow> no_words (rest p) \<Longrightarrow> no_words (rest q)"
  using no_words_append by (auto simp: grown_def)

lemma brace_alone:
  assumes "perr (ere_simple d p0) = None" "rest p = d # rest p0" "rest p = ''{'' @ rest q"
  shows "rest q = [] \<or> \<not> isdigit (hd (rest q))"
proof -
  have "d = CHR ''{''" "rest q = rest p0" using assms(2,3) by simp_all
  moreover from this have "perr (REQUIRE (\<not> MORE p0 \<or> \<not> isdigit (PEEK p0)) REG_BADRPT p0) = None"
    using assms(1) by - (rule perr_ordinary [of "CHR ''{''"], simp add: ere_simple_def)
  ultimately show ?thesis by (cases "rest p0") (auto simp: MORE_def PEEK_def)
qed

lemma exp_step:
  assumes IH: "branches_ok n"
  shows "exp_ok (Suc n)"
  unfolding exp_ok_def
proof (intro allI impI)
  fix p q c
  assume e: "p_ere_exp (Suc n) p = Some q" and ok: "perr q = None" and more: "MORE p" and words: "no_words (rest p)"
    and p: "holds p c"
  let ?F = "cflags (pg p)"
  obtain d p0 where d: "GETNEXT p = (d, p0)" by fastforce
  then have m: "moved p p0 [d]" using moved_GETNEXT [OF more] by simp
  have p0: "holds p0 c" "slen p0 = length c" "cflags (pg p0) = ?F" "no_words (rest p0)"
    using p moved_holds [OF m] moved_pg [OF m] holds_slen m words no_words_append [of "[d]" "rest p0"]
    unfolding moved_def by auto
  from e d show "\<exists>w r e. piece_text ?F w e \<and> grown p c q w r e \<and> (w = ''{'' \<longrightarrow> rest q = [] \<or> \<not> isdigit (hd (rest q)))"
  proof (cases rule: p_ere_expE)
    case simple
    have ok1: "perr (ere_simple d p0) = None" using perr_ere_suffix simple(2) ok by blast
    obtain w x e where w: "atom_text ?F (d # w) e" "grown p0 c (ere_simple d p0) w (Atom x) e"
      using grown_simple [OF p0(1) ok1 simple(1) p0(4)] p0(3) by metis
    from moved_grown [OF m w(2)] have g0: "grown p c (ere_simple d p0) (d # w) (Atom x) e" by simp
    have s: "q = ere_suffix (length c) (d = CHR ''^'') (ere_simple d p0)" using simple(2) p0(2) by simp
    obtain w' r' e' where "piece_text ?F w' e'" "grown p c (ere_suffix (length c) (d = CHR ''^'') (ere_simple d p0)) w' r' e'"
      by (rule suffix_grown [OF w(1) g0 ok [unfolded s]]) simp_all
    then have "piece_text ?F w' e'" "grown p c q w' r' e'" unfolding s by simp_all
    moreover from this(2) have "w' = ''{'' \<longrightarrow> rest q = [] \<or> \<not> isdigit (hd (rest q))"
      using brace_alone [OF ok1, of p q] m by (auto simp: grown_def moved_def)
    ultimately show ?thesis by blast
  next
    case (group n' p1 p2)
    let ?q = "MUSTEAT (CHR '')'') REG_EPAREN (close_paren n' p2)"
    have ok1: "perr ?q = None" using perr_ere_suffix group(4) ok by blast
    have ok2: "perr p2 = None" using perr_MUSTEAT [OF ok1] by (simp add: close_paren_simps(1))
    have "perr p1 = None"
      using group(3) ok2 perr_ere [of n] by (auto simp: ere_calls_def)
    then have o: "open_paren p0 = (n', p1)" "MORE p0"
      using group(2) open_paren_simps(1) [OF group(2)] by auto
    note h1 = open_paren_simps(6) [OF o(1) p0(1)] and s1 = open_paren_simps [OF o(1)]
    have "\<exists>w r e. atom_text ?F (''('' @ w @ '')'') (EGroup e) \<and> grown p1 (c @ [OLPAREN n']) p2 w r e"
    proof (cases "p2 = p1")
      case True
      then show ?thesis
        using grown_empty [OF h1] atom_empty [of ?F] by (intro exI [of _ "[]"] exI [of _ Eps] exI [of _ EEmpty]) simp
    next
      case False
      then have "ere_branches n (Some (CHR '')'')) None p1 = Some p2" using group(3) by blast
      moreover have "cflags (pg p1) = ?F" using s1(3) p0(3) by (simp add: kept_def)
      ultimately show ?thesis
        using IH ok2 h1 s1(2) p0(4) atom_group unfolding branches_ok_def by metis
    qed
    then obtain w r e where w: "atom_text ?F (''('' @ w @ '')'') (EGroup e)" "grown p1 (c @ [OLPAREN n']) p2 w r e" by blast
    from moved_grown [OF m grown_paren [OF p0(1) o(1) w(2) ok1]]
    have g0: "grown p c ?q (''('' @ w @ '')'') (Paren n' r) (EGroup e)" using group(1) by simp
    have s: "q = ere_suffix (length c) False ?q" using group(4) p0(2) by simp
    obtain w' r' e' where "piece_text ?F w' e'" "grown p c (ere_suffix (length c) False ?q) w' r' e'"
      by (rule suffix_grown [OF w(1) g0 ok [unfolded s]]) simp_all
    then have g: "piece_text ?F w' e'" "grown p c q w' r' e'" unfolding s by simp_all
    then have "w' \<noteq> ''{''" using m group(1) by (auto simp: grown_def moved_def)
    then show ?thesis using g by blast
  qed
qed

lemma branch_text_ne: "branch_text F w e \<Longrightarrow> w \<noteq> []"
proof -
  have "(atom_text F w e \<longrightarrow> w \<noteq> []) \<and> (piece_text F w' e' \<longrightarrow> w' \<noteq> []) \<and>
      (branch_text F v f \<longrightarrow> v \<noteq> []) \<and> (ere_text F v' f' \<longrightarrow> v' \<noteq> [])" for w e w' e' v f v' f'
    by (induction rule: atom_text_piece_text_branch_text_ere_text.induct) auto
  then show "branch_text F w e \<Longrightarrow> w \<noteq> []" by blast
qed

lemma seq_step:
  assumes "exp_ok n" "seq_ok n"
  shows "seq_ok (Suc n)"
  unfolding seq_ok_def
proof (intro allI impI)
  fix stop p q c
  assume s: "ere_seq (Suc n) stop p = Some q" and ok: "perr q = None" and words: "no_words (rest p)" and p: "holds p c"
  let ?F = "cflags (pg p)"
  show "q = p \<or> (\<exists>w r e. branch_text ?F w e \<and> grown p c q w r e)"
  proof (cases "MORE p \<and> PEEK p \<noteq> CHR ''|'' \<and> stop \<noteq> Some (PEEK p)")
    case True
    then obtain p1 where p1: "p_ere_exp n p = Some p1" "ere_seq n stop p1 = Some q"
      using s by (auto simp: bind_eq_Some_conv)
    then have "perr p1 = None" using perr_ere [of n] ok by (auto simp: ere_calls_def)
    then obtain w r e where w: "piece_text ?F w e" "grown p c p1 w r e"
      and brace: "w = ''{'' \<longrightarrow> rest p1 = [] \<or> \<not> isdigit (hd (rest p1))"
      using assms(1) p1(1) True words p unfolding exp_ok_def by blast
    then have "holds p1 (c @ code_of r)" by (simp add: grown_def)
    then consider "q = p1" | v t f where "branch_text (cflags (pg p1)) v f" "grown p1 (c @ code_of r) q v t f"
      using assms(2) p1(2) ok grown_words [OF w(2) words] unfolding seq_ok_def by blast
    then show ?thesis
    proof cases
      case 1
      then show ?thesis using w branch_one by blast
    next
      case 2
      have "v \<noteq> []" using branch_text_ne [OF 2(1)] .
      then have "w = ''{'' \<longrightarrow> \<not> isdigit (hd v)" using brace 2(2) by (auto simp: grown_def)
      then have "branch_text ?F (w @ v) (ESeq e f)"
        using 2(1) grown_cflags [OF w(2)] by (intro branch_more [OF w(1)]) simp_all
      then show ?thesis using grown_seq [OF w(2) 2(2)] by blast
    qed
  next
    case False
    then show ?thesis using s by (auto split: if_splits)
  qed
qed

text \<open>One branch, and whether another one follows.\<close>

lemma branch_grown:
  assumes IH: "seq_ok n" and b: "ere_branches (Suc n) stop prev p = Some q" and ok: "perr q = None"
    and words: "no_words (rest p)" and p: "holds p c"
  obtains (last) w r e p3 where "branch_text (cflags (pg p)) w e" "grown p c p3 w r e" "q = end_choice prev p3"
    | (more) w r e p3 prev' p4 where "branch_text (cflags (pg p)) w e" "grown p c p3 (w @ ''|'') r e"
        "next_branch (length c) prev p3 = (prev', p4)" "ere_branches n stop (Some prev') p4 = Some q"
  using b
proof (rule ere_branchesE)
  fix p1 bar p3
  assume a: "ere_seq n stop p = Some p1" "EAT (CHR ''|'') (REQUIRE (slen p1 \<noteq> slen p) REG_EMPTY p1) = (bar, p3)"
    "bar \<Longrightarrow> \<exists>prev' p4. next_branch (slen p) prev p3 = (prev', p4) \<and> ere_branches n stop (Some prev') p4 = Some q"
    "\<not> bar \<Longrightarrow> q = end_choice prev p3"
  have "perr p3 = None"
    using a(3,4) ok perr_ere [of n] perr_next_branch [of "slen p" prev p3] by (cases bar) (auto simp: ere_calls_def)
  then have p1: "perr p1 = None" "slen p1 \<noteq> slen p" "EAT (CHR ''|'') p1 = (bar, p3)"
    using perr_EAT [OF a(2)] a(2) by auto
  then obtain w r e where w: "branch_text (cflags (pg p)) w e" "grown p c p1 w r e"
    using IH a(1) words p unfolding seq_ok_def by blast
  have g: "grown p c p3 (w @ (if bar then ''|'' else [])) r e"
    by (rule grown_moved [OF w(2) moved_EAT [OF p1(3)]])
  show thesis
  proof (cases bar)
    case True
    then obtain prev' p4 where "next_branch (slen p) prev p3 = (prev', p4)" "ere_branches n stop (Some prev') p4 = Some q"
      using a(3) by blast
    then show thesis using more [OF w(1)] g True holds_slen [OF p] by simp
  next
    case False
    then show thesis using last [OF w(1)] g a(4) by simp
  qed
qed

text \<open>A choice from its first branch and the others.\<close>

lemma kept_some: "kept g h \<Longrightarrow> implements_some (sets g) rs e \<Longrightarrow> implements_some (sets h) rs e"
  using implements_some_grow by (auto simp: kept_def)

lemma grown_choice:
  assumes g: "grown p c p3 w r e" and n: "next_branch (length c) None p3 = (prev', p4)"
    and t: "grown_tail p4 ((c @ OCH (length (code_of r) + 2) # code_of r) @ [OOR1 (length (code_of r) + 1)]) q v rs f"
  shows "grown p c q (w @ v) (Alt r rs) (EAlt e f)"
proof -
  obtain b x where prev': "prev' = (b, x)" by fastforce
  note nb = next_branch_first [OF _ n [unfolded prev']]
  have h: "holds p3 (c @ code_of r)" and i: "implements (sets (pg p3)) r e" using g by (simp_all add: grown_def)
  have k: "kept (pg p3) (pg q)" using t nb(4) [OF h] by (simp add: grown_tail_def)
  have "implements (sets (pg q)) (Alt r rs) (EAlt e f)"
    using implements_Alt [OF kept_implements [OF k i]] t by (simp add: grown_tail_def)
  moreover have "count_list (code_of (Alt r rs)) s = count_list (code_of r) s + (\<Sum>r\<leftarrow>rs. count_list (code_of r) s)"
    if "is_anchor s" for s
    using that count_alt_tail [of s "map code_of rs"] by (auto simp: between_chars_def is_anchor_def comp_def)
  moreover have "anchor_count (pg p) s + (count_list (code_of r) s + (\<Sum>r\<leftarrow>rs. count_list (code_of r) s)) \<le> anchor_count (pg q) s"
    if "anchors_once (EAlt e f)" "is_anchor s" for s
  proof -
    have "anchor_count (pg p) s + count_list (code_of r) s \<le> anchor_count (pg p3) s"
      using g that by (simp add: grown_def)
    moreover have "anchor_count (pg p3) s + (\<Sum>r\<leftarrow>rs. count_list (code_of r) s) \<le> anchor_count (pg q) s"
      using t that nb(4) [OF h] by (simp add: grown_tail_def)
    ultimately show ?thesis by linarith
  qed
  ultimately show ?thesis
    using g t k kept_trans [of "pg p" "pg p3" "pg q"] nb(5) [OF h] unfolding grown_def grown_tail_def by simp
qed

lemma grown_tail_last:
  assumes g: "grown p (c @ [OOR1 k, OOR2 k']) p3 w r e"
  shows "grown_tail p (c @ [OOR1 k]) (end_choice (Some (length c, Suc (length c))) p3) w [r] e"
proof -
  have "holds p3 (c @ OOR1 k # OOR2 k' # code_of r)" using g by (simp add: grown_def)
  from end_choice_holds [OF this] show ?thesis
    using g implements_one by (simp add: grown_tail_def grown_def)
qed

lemma grown_tail_more:
  assumes g: "grown p (c @ [OOR1 k, OOR2 k']) p3 w r e"
    and n: "next_branch x (Some (length c, Suc (length c))) p3 = (prev', p4)"
    and t: "grown_tail p4 ((c @ OOR1 k # OOR2 (length (code_of r) + 2) # code_of r) @ [OOR1 (length (code_of r) + 2)]) q v rs f"
  shows "grown_tail p (c @ [OOR1 k]) q (w @ v) (r # rs) (EAlt e f)"
proof -
  obtain b y where prev': "prev' = (b, y)" by fastforce
  have h: "holds p3 (c @ OOR1 k # OOR2 k' # code_of r)" and i: "implements (sets (pg p3)) r e"
    using g by (simp_all add: grown_def)
  note nb = next_branch_more [OF h n [unfolded prev']]
  have k: "kept (pg p3) (pg q)" using t nb(4) by (simp add: grown_tail_def)
  have ne: "rs \<noteq> []" using t by (simp add: grown_tail_def implements_some_def)
  have "holds q ((c @ [OOR1 k]) @ alt_tail (map code_of (r # rs)))"
    using t ne by (cases rs) (simp_all add: grown_tail_def)
  moreover have "implements_some (sets (pg q)) (r # rs) (EAlt e f)"
    using implements_more [OF kept_implements [OF k i]] t by (simp add: grown_tail_def)
  moreover have "anchor_count (pg p) s + (count_list (code_of r) s + (\<Sum>r\<leftarrow>rs. count_list (code_of r) s)) \<le> anchor_count (pg q) s"
    if "anchors_once (EAlt e f)" "is_anchor s" for s
  proof -
    have "anchor_count (pg p) s + count_list (code_of r) s \<le> anchor_count (pg p3) s"
      using g that by (simp add: grown_def)
    moreover have "anchor_count (pg p3) s + (\<Sum>r\<leftarrow>rs. count_list (code_of r) s) \<le> anchor_count (pg q) s"
      using t that nb(4) by (simp add: grown_tail_def)
    ultimately show ?thesis by linarith
  qed
  ultimately show ?thesis
    using g t k kept_trans [of "pg p" "pg p3" "pg q"] nb(5) unfolding grown_def grown_tail_def by simp
qed

lemma branches_step:
  assumes IH: "seq_ok n" "more_ok n"
  shows "branches_ok (Suc n)"
  unfolding branches_ok_def
proof (intro allI impI)
  fix stop p q c
  assume b: "ere_branches (Suc n) stop None p = Some q" and ok: "perr q = None" and words: "no_words (rest p)" and p: "holds p c"
  show "\<exists>w r e. ere_text (cflags (pg p)) w e \<and> grown p c q w r e"
  proof (rule branch_grown [OF IH(1) b ok words p])
    fix w r e p3
    assume "branch_text (cflags (pg p)) w e" "grown p c p3 w r e" "q = end_choice None p3"
    then show ?thesis using ere_branch [of "cflags (pg p)" w e] by (auto simp: end_choice_def)
  next
    fix w r e p3 prev' p4
    assume w: "branch_text (cflags (pg p)) w e" "grown p c p3 (w @ ''|'') r e"
      and n: "next_branch (length c) None p3 = (prev', p4)" "ere_branches n stop (Some prev') p4 = Some q"
    obtain b x where prev': "prev' = (b, x)" by fastforce
    have h: "holds p3 (c @ code_of r)" using w(2) by (simp add: grown_def)
    note nb = next_branch_first [OF h n(1) [unfolded prev']]
    have "no_words (rest p4)" "cflags (pg p4) = cflags (pg p)"
      using grown_words [OF w(2) words] grown_cflags [OF w(2)] nb(4,5) by simp_all
    then obtain v rs f where v: "ere_text (cflags (pg p)) v f"
      "grown_tail p4 ((c @ OCH (length (code_of r) + 2) # code_of r) @ [OOR1 (length (code_of r) + 1)]) q v rs f"
      using IH(2) n(2) ok nb(1-3) unfolding more_ok_def prev' by metis
    from ere_choice [OF w(1) v(1)] grown_choice [OF w(2) n(1) v(2)] show ?thesis by auto
  qed
qed

lemma more_step:
  assumes IH: "seq_ok n" "more_ok n"
  shows "more_ok (Suc n)"
  unfolding more_ok_def
proof (intro allI impI)
  fix stop p q k k' and c :: "sop list"
  let ?prev = "Some (length c, Suc (length c))"
  assume b: "ere_branches (Suc n) stop ?prev p = Some q" and ok: "perr q = None" and words: "no_words (rest p)"
    and p: "holds p (c @ [OOR1 k, OOR2 k'])"
  show "\<exists>w rs e. ere_text (cflags (pg p)) w e \<and> grown_tail p (c @ [OOR1 k]) q w rs e"
  proof (rule branch_grown [OF IH(1) b ok words p])
    fix w r e p3
    assume "branch_text (cflags (pg p)) w e" "grown p (c @ [OOR1 k, OOR2 k']) p3 w r e" "q = end_choice ?prev p3"
    then show ?thesis using ere_branch grown_tail_last by blast
  next
    fix w r e p3 prev' p4
    assume w: "branch_text (cflags (pg p)) w e" "grown p (c @ [OOR1 k, OOR2 k']) p3 (w @ ''|'') r e"
      and n: "next_branch (length (c @ [OOR1 k, OOR2 k'])) ?prev p3 = (prev', p4)" "ere_branches n stop (Some prev') p4 = Some q"
    obtain b x where prev': "prev' = (b, x)" by fastforce
    have h: "holds p3 (c @ OOR1 k # OOR2 k' # code_of r)" using w(2) by (simp add: grown_def)
    note nb = next_branch_more [OF h n(1) [unfolded prev']]
    have "no_words (rest p4)" "cflags (pg p4) = cflags (pg p)"
      using grown_words [OF w(2) words] grown_cflags [OF w(2)] nb(4,5) by simp_all
    then obtain v rs f where v: "ere_text (cflags (pg p)) v f"
      "grown_tail p4 ((c @ OOR1 k # OOR2 (length (code_of r) + 2) # code_of r) @ [OOR1 (length (code_of r) + 2)]) q v rs f"
      using IH(2) n(2) ok nb(1-3) unfolding more_ok_def prev' by metis
    from ere_choice [OF w(1) v(1)] grown_tail_more [OF w(2) n(1) v(2)] show ?thesis by auto
  qed
qed

theorem ere_parser: "exp_ok n \<and> seq_ok n \<and> branches_ok n \<and> more_ok n"
proof (induction n)
  case 0
  show ?case by (simp add: exp_ok_def seq_ok_def branches_ok_def more_ok_def)
next
  case (Suc n)
  then show ?case using exp_step seq_step branches_step more_step by blast
qed

end
