(* ===== verification/RegTotal.thy ===== *)
theory RegTotal
  imports RegEre
begin

text \<open>
  \<open>regcomp\<close> always returns: no function of the parsers gives back more input than it was given,
  every expression takes at least one character, and so the depth that \<open>regcomp\<close> grants, three
  calls for each character and two more, is never used up.
\<close>

section \<open>Input that is left\<close>

definition left :: "parse \<Rightarrow> nat" where
  "left p = length (rest p)"

lemma left_same: "rest q = rest p \<Longrightarrow> left q = left p"
  by (simp add: left_def)

lemma left_simps [simp]:
  "left (doemit s p) = left p" "left (INSERT t n p) = left p" "left (AHEAD n p) = left p" "left (ASTERN t n p) = left p"
  "left (close_option n p) = left p" "left (with_sets f p) = left p" "left (with_guts h p) = left p"
  "left (close_paren n p) = left p" "left (end_choice prev p) = left p" "left (seterr e p) = 0" "left (DROP n p) = left p"
  "left (emit_bol p) = left p" "left (emit_eol p) = left p" "left (emit_star n p) = left p"
  "left (emit_plus n p) = left p" "left (emit_quest n p) = left p" "left (freeset n p) = left p"
  "left (one_char c p) = left p" "left (on_text x k p) = left p"
  by (simp_all add: left_def DROP_def emit_bol_def emit_eol_def emit_star_def emit_plus_def emit_quest_def freeset_def
      one_char_def on_text_def Let_def close_paren_def)

lemma left_pairs [simp]:
  "left (snd (dupl i j p)) = left p" "left (snd (open_paren p)) = left p" "left (snd (allocset p)) = left p"
  "left (snd (freezeset n p)) = left p" "left (snd (next_branch n prev p)) = left p"
  by (simp_all add: left_def dupl_def open_paren_def allocset_def freezeset_def next_branch_def freeset_def enlarge_def
      Let_def split: list.splits option.splits prod.splits)

lemma left_REQUIRE: "left (REQUIRE b e p) \<le> left p"
  by (simp add: left_def)

lemma left_EAT: "EAT c p = (b, q) \<Longrightarrow> left q \<le> left p" "EAT c p = (True, q) \<Longrightarrow> left q < left p"
  by (auto simp: left_def EAT_def SEE_def MORE_def split: if_splits list.splits)

lemma left_EATTWO: "EATTWO c d p = (b, q) \<Longrightarrow> left q \<le> left p"
  by (auto simp: left_def EATTWO_def split: if_splits)

lemma left_MUSTEAT: "left (MUSTEAT c e p) \<le> left p"
  by (auto simp: left_def MUSTEAT_def REQUIRE_def GETNEXT_def Let_def)

lemma left_GETNEXT: "GETNEXT p = (c, q) \<Longrightarrow> left q \<le> left p" "GETNEXT p = (c, q) \<Longrightarrow> MORE p \<Longrightarrow> left q < left p"
  by (auto simp: left_def GETNEXT_def MORE_def)

lemma left_repeat: "left (repeat start lo hi p) \<le> left p"
proof (induction start lo hi p rule: repeat.induct)
  case (1 start lo hi p)
  obtain i p1 where 1: "dupl start (HERE p) p = (i, p1)" by fastforce
  obtain j p2 where 2: "dupl (start + 1) (HERE p + 1) (close_option start (INSERT OCH start p)) = (j, p2)" by fastforce
  have "left p1 = left p" "left p2 = left p"
    using 1 2 left_pairs(1) [of start "HERE p" p] left_pairs(1) [of "start + 1" "HERE p + 1" "close_option start (INSERT OCH start p)"]
    by simp_all
  with 1 2 show ?case
    using "1.IH" by (subst repeat.simps) (simp add: Let_def)
qed

section \<open>Atoms and repetitions\<close>

lemma left_bracket_terms: "left (fst (bracket_terms p cs)) \<le> left p"
proof (induction p cs rule: bracket_terms.induct)
  case (1 p cs)
  show ?case
    using 1 rest_term_less [of p cs] by (subst bracket_terms.simps) (auto simp: left_def)
qed

lemma left_bracket_set:
  assumes "bracket_set p = (i, q, cs)"
  shows "left q \<le> left p"
proof -
  obtain i p1 where 1: "EAT (CHR ''^'') p = (i, p1)" by fastforce
  obtain c p2 where 2: "EAT (CHR '']'') p1 = (c, p2)" by fastforce
  obtain d p3 where 3: "(if c then (False, p2) else EAT (CHR ''-'') p2) = (d, p3)" by fastforce
  obtain p4 cs4 where 4: "bracket_terms p3 (if c then CHadd empty_cset (CHR '']'')
      else if d then CHadd empty_cset (CHR ''-'') else empty_cset) = (p4, cs4)" by fastforce
  obtain d5 p5 where 5: "EAT (CHR ''-'') p4 = (d5, p5)" by fastforce
  have q: "q = MUSTEAT (CHR '']'') REG_EBRACK p5"
    using assms by (simp add: bracket_set_def 1 2 3 4 5)
  have "left p3 \<le> left p2" using 3 left_EAT(1) by (auto split: if_splits)
  moreover have "left p4 \<le> left p3" using left_bracket_terms 4 by (metis fst_conv)
  ultimately show ?thesis
    using left_EAT(1) [OF 1] left_EAT(1) [OF 2] left_EAT(1) [OF 5] left_MUSTEAT [of "CHR '']''" REG_EBRACK p5] unfolding q by linarith
qed

lemma left_p_bracket_with:
  assumes "\<And>c q. left (f c q) = left q"
  shows "left (p_bracket_with f p) \<le> left p"
proof -
  obtain no p1 where 1: "allocset p = (no, p1)" by fastforce
  obtain i p2 cs where 2: "bracket_set p1 = (i, p2, cs)" by (metis prod.collapse)
  have "left p1 = left p" using left_pairs(3) [of p] 1 by simp
  then have le: "left p2 \<le> left p" using left_bracket_set [OF 2] by simp
  have n: "left (NEXTn k q) \<le> left q" for k q by (simp add: left_def)
  have e: "left (NEXTn 6 (doemit s p)) \<le> left p" for s using n [of 6 "doemit s p"] by simp
  have fr: "freezeset no q = (j, r) \<Longrightarrow> left r = left q" for q j r using left_pairs(4) [of no q] by simp
  show ?thesis
    using le e by (auto simp: p_bracket_with_def 1 2 Let_def assms fr split: prod.split)
qed

lemma left_ordinary [simp]: "left (ordinary c p) = left p"
  by (simp add: ordinary_def bothcases_def)

lemma left_p_bracket: "left (p_bracket p) \<le> left p"
  unfolding p_bracket_def by (rule left_p_bracket_with) simp

lemma left_emit_any [simp]: "left (emit_any p) = left p"
  by (simp add: emit_any_def nonnewline_def)

lemma count_loop_left: "count_loop k d cs = (k', d', r) \<Longrightarrow> length r \<le> length cs"
  by (induction k d cs rule: count_loop.induct) (auto split: if_splits)

lemma left_p_count:
  assumes "p_count p = (k, q)"
  shows "left q \<le> left p"
proof -
  obtain k' d r where c: "count_loop 0 0 (rest p) = (k', d, r)" by (metis prod.collapse)
  then have "q = REQUIRE (0 < d \<and> k' \<le> DUPMAX) REG_BADBR (p\<lparr>rest := r\<rparr>)" using assms by (auto simp: p_count_def)
  then show ?thesis using count_loop_left [OF c] left_REQUIRE [of _ REG_BADBR "p\<lparr>rest := r\<rparr>"] by (simp add: left_def REQUIRE_def)
qed

lemma left_p_counts:
  assumes "p_counts b p = (lo, hi, q)"
  shows "left q \<le> left p"
proof -
  obtain lo p1 where 1: "p_count p = (lo, p1)" by fastforce
  obtain c p2 where 2: "EAT (CHR '','') p1 = (c, p2)" by fastforce
  obtain hi p3 where 3: "p_count p2 = (hi, p3)" by fastforce
  have "left q \<le> left p2"
    using assms left_p_count [OF 3] left_REQUIRE [of "lo \<le> hi" REG_BADBR p3]
    by (auto simp: p_counts_def 1 2 3 split: if_splits)
  then show ?thesis using left_p_count [OF 1] left_EAT(1) [OF 2] by linarith
qed

lemma left_ere_simple: "left (ere_simple c p) \<le> left p"
proof -
  obtain d p1 where g: "GETNEXT (REQUIRE (MORE p) REG_EESCAPE p) = (d, p1)" by fastforce
  have "left p1 \<le> left p" using left_GETNEXT(1) [OF g] left_REQUIRE [of "MORE p" REG_EESCAPE p] by linarith
  then show ?thesis
    using left_p_bracket [of p] left_REQUIRE [of _ REG_BADRPT p] by (simp add: ere_simple_def g)
qed

lemma left_ere_close_brace: "left (ere_close_brace p) \<le> left p"
proof -
  obtain b q where e: "EAT (CHR ''}'') p = (b, q)" by fastforce
  show ?thesis using left_EAT(1) [OF e] by (simp add: ere_close_brace_def e Let_def)
qed

lemma left_ere_repeat: "left (ere_repeat c n p) \<le> left p"
proof -
  obtain lo hi q where e: "p_counts False p = (lo, hi, q)" by (metis prod.collapse)
  have "left (ere_bounds n p) \<le> left p"
    using left_p_counts [OF e] left_repeat [of n lo hi q] left_ere_close_brace [of "repeat n lo hi q"]
    by (simp add: ere_bounds_def e)
  then show ?thesis by (simp add: ere_repeat_def)
qed

lemma left_ere_suffix: "left (ere_suffix n w p) \<le> left p"
proof -
  obtain c p1 where g: "GETNEXT p = (c, p1)" by fastforce
  have "left (ere_repeat c n (REQUIRE (\<not> w) REG_BADRPT p1)) \<le> left p"
    using left_GETNEXT(1) [OF g] left_ere_repeat [of c n "REQUIRE (\<not> w) REG_BADRPT p1"] left_REQUIRE [of "\<not> w" REG_BADRPT p1]
    by linarith
  then show ?thesis by (simp add: ere_suffix_def g Let_def)
qed

section \<open>Extended expressions\<close>

text \<open>Each function returns, with no more input left than before; an expression takes some.\<close>

definition ere_returns :: "nat \<Rightarrow> bool" where
  "ere_returns n \<longleftrightarrow>
     (\<forall>stop prev p. 3 * left p + 2 \<le> n \<longrightarrow> (\<exists>q. ere_branches n stop prev p = Some q \<and> left q \<le> left p)) \<and>
     (\<forall>stop p. 3 * left p + 1 \<le> n \<longrightarrow> (\<exists>q. ere_seq n stop p = Some q \<and> left q \<le> left p)) \<and>
     (\<forall>p. MORE p \<longrightarrow> 3 * left p \<le> n \<longrightarrow> (\<exists>q. p_ere_exp n p = Some q \<and> left q < left p))"

lemma ere_branches_returns:
  assumes n: "ere_returns n" and l: "3 * left p + 2 \<le> Suc n"
  shows "\<exists>q. ere_branches (Suc n) stop prev p = Some q \<and> left q \<le> left p"
proof -
  from n l obtain p1 where 1: "ere_seq n stop p = Some p1" "left p1 \<le> left p" unfolding ere_returns_def by fastforce
  obtain bar p3 where 3: "EAT (CHR ''|'') (REQUIRE (slen p1 \<noteq> slen p) REG_EMPTY p1) = (bar, p3)" by fastforce
  obtain prev' p4 where 4: "next_branch (slen p) prev p3 = (prev', p4)" by fastforce
  have l3: "left p3 \<le> left p" using left_EAT(1) [OF 3] left_REQUIRE [of "slen p1 \<noteq> slen p" REG_EMPTY p1] 1(2) by linarith
  show ?thesis
  proof (cases bar)
    case True
    have "left p4 = left p3" using left_pairs(5) [of "slen p" prev p3] 4 by simp
    moreover have "left p3 < left p"
      using left_EAT(2) 3 True left_REQUIRE [of "slen p1 \<noteq> slen p" REG_EMPTY p1] 1(2) by fastforce
    ultimately have "left p4 < left p" by simp
    then have "3 * left p4 + 2 \<le> n" using l by simp
    then obtain q where "ere_branches n stop (Some prev') p4 = Some q" "left q \<le> left p4"
      using n unfolding ere_returns_def by blast
    then show ?thesis using 1 3 4 True \<open>left p4 < left p\<close> by simp
  next
    case False
    then show ?thesis using 1 3 l3 by simp
  qed
qed

lemma ere_seq_returns:
  assumes n: "ere_returns n" and l: "3 * left p + 1 \<le> Suc n"
  shows "\<exists>q. ere_seq (Suc n) stop p = Some q \<and> left q \<le> left p"
proof (cases "MORE p \<and> PEEK p \<noteq> CHR ''|'' \<and> stop \<noteq> Some (PEEK p)")
  case True
  with n l obtain p1 where 1: "p_ere_exp n p = Some p1" "left p1 < left p" unfolding ere_returns_def by fastforce
  then have "3 * left p1 + 1 \<le> n" using l by simp
  then obtain q where "ere_seq n stop p1 = Some q" "left q \<le> left p1" using n unfolding ere_returns_def by blast
  then show ?thesis using 1 True by simp
next
  case False
  then show ?thesis by auto
qed

lemma p_ere_exp_returns:
  assumes n: "ere_returns n" and m: "MORE p" and l: "3 * left p \<le> Suc n"
  shows "\<exists>q. p_ere_exp (Suc n) p = Some q \<and> left q < left p"
proof -
  obtain c p0 where g: "GETNEXT p = (c, p0)" by fastforce
  note less = left_GETNEXT(2) [OF g m]
  obtain m' p1 where o: "open_paren (REQUIRE (MORE p0) REG_EPAREN p0) = (m', p1)" by fastforce
  have p1: "left p1 \<le> left p0"
    using left_pairs(2) [of "REQUIRE (MORE p0) REG_EPAREN p0"] o left_REQUIRE [of "MORE p0" REG_EPAREN p0] by simp
  then have "3 * left p1 + 2 \<le> n" using less l by simp
  then obtain p2 where 2: "ere_branches n (Some (CHR '')'')) None p1 = Some p2" "left p2 \<le> left p1"
    using n unfolding ere_returns_def by blast
  have grp: "left (ere_suffix k b (MUSTEAT c e (close_paren m' q))) < left p" if "left q \<le> left p1" for k b c e q
    using left_ere_suffix [of k b "MUSTEAT c e (close_paren m' q)"] left_MUSTEAT [of c e "close_paren m' q"] p1 less that
    by simp
  have "left (ere_suffix k b (ere_simple c p0)) < left p" for k b
    using left_ere_suffix [of k b "ere_simple c p0"] left_ere_simple [of c p0] less by linarith
  then show ?thesis using g o 2 grp [of p1] grp [of p2] by (simp add: Let_def del: ere_branches.simps)
qed

lemma ere_returns: "ere_returns n"
proof (induction n)
  case 0
  then show ?case by (simp add: ere_returns_def left_def MORE_def)
next
  case (Suc n)
  then show ?case
    unfolding ere_returns_def [of "Suc n"] using ere_branches_returns ere_seq_returns p_ere_exp_returns by blast
qed

section \<open>Basic expressions\<close>

lemma left_bre_char:
  assumes "bre_char p = (b, c, q)" "MORE p"
  shows "left q < left p"
proof -
  obtain d p1 where 1: "GETNEXT p = (d, p1)" by fastforce
  obtain e p2 where 2: "GETNEXT (REQUIRE (MORE p1) REG_EESCAPE p1) = (e, p2)" by fastforce
  have "left p2 \<le> left p1" using left_GETNEXT(1) [OF 2] left_REQUIRE [of "MORE p1" REG_EESCAPE p1] by linarith
  then show ?thesis using assms(1) left_GETNEXT(2) [OF 1 assms(2)] by (auto simp: bre_char_def 1 2 split: if_splits)
qed

lemma left_bre_simple: "left (bre_simple s b c p) \<le> left p"
  using left_p_bracket [of p] left_REQUIRE [of s REG_BADRPT p]
  by (simp add: bre_simple_def bre_backref_def Let_def)

lemma left_bre_suffix:
  assumes "bre_suffix n d p = (b, q)"
  shows "left q \<le> left p"
proof -
  obtain s p1 where 1: "EAT (CHR ''*'') p = (s, p1)" by fastforce
  obtain t p2 where 2: "EATTWO (CHR 0x5C) (CHR ''{'') p1 = (t, p2)" by fastforce
  obtain lo hi p3 where 3: "p_counts True p2 = (lo, hi, p3)" by (metis prod.collapse)
  have close: "left (bre_close_brace r) \<le> left r" for r
    using left_EATTWO [of "CHR 0x5C" "CHR ''}''" r] by (auto simp: bre_close_brace_def Let_def split: prod.split)
  show ?thesis
    using assms left_EAT(1) [OF 1] left_EATTWO [OF 2] left_p_counts [OF 3] left_repeat [of n lo hi p3]
      close [of "repeat n lo hi p3"]
    by (auto simp: bre_suffix_def 1 2 3 split: if_splits)
qed

definition bre_returns :: "nat \<Rightarrow> bool" where
  "bre_returns n \<longleftrightarrow>
     (\<forall>ends p. 3 * left p + 2 \<le> n \<longrightarrow> (\<exists>q. p_bre n ends p = Some q \<and> left q \<le> left p)) \<and>
     (\<forall>ends f d p. 3 * left p + 1 \<le> n \<longrightarrow> (\<exists>b q. bre_seq n ends f d p = Some (b, q) \<and> left q \<le> left p)) \<and>
     (\<forall>s p. MORE p \<longrightarrow> 3 * left p \<le> n \<longrightarrow> (\<exists>b q. p_simp_re n s p = Some (b, q) \<and> left q < left p))"

lemma p_bre_returns:
  assumes n: "bre_returns n" and l: "3 * left p + 2 \<le> Suc n"
  shows "\<exists>q. p_bre (Suc n) ends p = Some q \<and> left q \<le> left p"
proof -
  obtain c p1 where 1: "EAT (CHR ''^'') p = (c, p1)" by fastforce
  have p1: "left (if c then emit_bol p1 else p1) \<le> left p" using left_EAT(1) [OF 1] by simp
  then have "3 * left (if c then emit_bol p1 else p1) + 1 \<le> n" using l by linarith
  then obtain d p2 where 2: "bre_seq n ends True False (if c then emit_bol p1 else p1) = Some (d, p2)"
    "left p2 \<le> left (if c then emit_bol p1 else p1)"
    using n unfolding bre_returns_def by blast
  have "left (REQUIRE b e (if d then emit_eol (DROP 1 p2) else p2)) \<le> left p" for b e
    using left_REQUIRE [of b e "if d then emit_eol (DROP 1 p2) else p2"] 2(2) p1 by (simp split: if_splits)
  then show ?thesis using 1 2(1) by (simp add: Let_def)
qed

lemma bre_seq_returns:
  assumes n: "bre_returns n" and l: "3 * left p + 1 \<le> Suc n"
  shows "\<exists>b q. bre_seq (Suc n) ends f d p = Some (b, q) \<and> left q \<le> left p"
proof (cases "MORE p \<and> \<not> (case ends of None \<Rightarrow> False | Some (a, b) \<Rightarrow> SEETWO a b p)")
  case True
  have "3 * left p \<le> n" using l by simp
  then obtain e p1 where 1: "p_simp_re n f p = Some (e, p1)" "left p1 < left p"
    using n True unfolding bre_returns_def by blast
  then have "3 * left p1 + 1 \<le> n" using l by simp
  then obtain b q where "bre_seq n ends False e p1 = Some (b, q)" "left q \<le> left p1"
    using n unfolding bre_returns_def by blast
  moreover from this have "bre_seq (Suc n) ends f d p = Some (b, q)"
    using True 1(1) by (simp only: bre_seq.simps if_True simp_thms bind.bind_lunit prod.case)
  ultimately show ?thesis using 1(2) by simp
next
  case False
  then show ?thesis by auto
qed

lemma p_simp_re_returns:
  assumes n: "bre_returns n" and m: "MORE p" and l: "3 * left p \<le> Suc n"
  shows "\<exists>b q. p_simp_re (Suc n) s p = Some (b, q) \<and> left q < left p"
proof -
  obtain bs c p0 where g: "bre_char p = (bs, c, p0)" by (metis prod.collapse)
  note less = left_bre_char [OF g m]
  obtain m' p1 where o: "open_paren p0 = (m', p1)" by fastforce
  have p1: "left p1 = left p0" using left_pairs(2) [of p0] o by simp
  then have "3 * left p1 + 2 \<le> n" using less l by simp
  then obtain p2 where 2: "p_bre n (Some (CHR 0x5C, CHR '')'')) p1 = Some p2" "left p2 \<le> left p1"
    using n unfolding bre_returns_def by blast
  have suf: "\<exists>b q. Some (bre_suffix k d r) = Some (b, q) \<and> left q < left p" if "left r \<le> left p0" for k d r
  proof -
    obtain b q where "bre_suffix k d r = (b, q)" by fastforce
    then show ?thesis using left_bre_suffix [of k d r b q] less that by simp
  qed
  show ?thesis
  proof (cases "bs \<and> c = CHR ''(''")
    case True
    define r where "r = (if MORE p1 \<and> \<not> SEETWO (CHR 0x5C) (CHR '')'') p1 then p2 else p1)"
    obtain x p3 where 3: "EATTWO (CHR 0x5C) (CHR '')'') (close_paren m' r) = (x, p3)" by fastforce
    have "left r \<le> left p0" using 2(2) p1 by (simp add: r_def)
    then have "left (REQUIRE x REG_EPAREN p3) \<le> left p0"
      using left_EATTWO [OF 3] left_REQUIRE [of x REG_EPAREN p3] by simp
    moreover have "(if MORE p1 \<and> \<not> SEETWO (CHR 0x5C) (CHR '')'') p1
        then p_bre n (Some (CHR 0x5C, CHR '')'')) p1 else Some p1) = Some r"
      using 2(1) by (simp add: r_def)
    then have "p_simp_re (Suc n) s p = Some (bre_suffix (HERE p) False (REQUIRE x REG_EPAREN p3))"
      using True by (simp only: p_simp_re.simps Let_def g o 3 prod.case if_True simp_thms bind.bind_lunit)
    ultimately show ?thesis using suf by simp
  next
    case False
    then have "p_simp_re (Suc n) s p = Some (bre_suffix (HERE p) (\<not> bs \<and> c = CHR ''$'') (bre_simple s bs c p0))"
      using g by (simp only: p_simp_re.simps Let_def prod.case if_False)
    then show ?thesis using suf left_bre_simple [of s bs c p0] by simp
  qed
qed

lemma bre_returns: "bre_returns n"
proof (induction n)
  case 0
  then show ?case by (simp add: bre_returns_def left_def MORE_def)
next
  case (Suc n)
  then show ?case
    unfolding bre_returns_def [of "Suc n"] using p_bre_returns bre_seq_returns p_simp_re_returns by blast
qed

section \<open>regcomp returns\<close>

lemma parse_pattern_returns: "\<exists>q. parse_pattern flags p = Some q"
proof -
  have "3 * left p + 2 \<le> parse_depth (rest p)" by (simp add: parse_depth_def left_def)
  then obtain q q' where "ere_branches (parse_depth (rest p)) None None p = Some q" "p_bre (parse_depth (rest p)) None p = Some q'"
    using ere_returns [of "parse_depth (rest p)"] bre_returns [of "parse_depth (rest p)"]
    unfolding ere_returns_def bre_returns_def by blast
  then show ?thesis by (simp add: parse_pattern_def p_ere_def)
qed

lemma compile_returns: "\<exists>q. compile flags p = Some q"
proof -
  define p1 where "p1 = doemit OEND p"
  obtain q where "parse_pattern flags (with_guts (\<lambda>g. g\<lparr>firststate := THERE p1\<rparr>) p1) = Some q"
    using parse_pattern_returns by blast
  then show ?thesis by (simp add: compile_def p1_def Let_def)
qed

text \<open>
  C15.  Compiling always ends with a result, whatever the pattern, the flags and the structure are:
  for extended, basic and literal patterns the depth of calls that the pattern needs is below the
  bound that its length gives.
\<close>

theorem regcomp_total: "\<exists>res. regcomp preg pattern flags = Some res"
proof -
  define f where "f = and flags (not REG_DUMP)"
  obtain s a where t: "pattern_text preg pattern f = (s, a)" by fastforce
  obtain q where "compile f (initial_parse s a f) = Some q"
    using compile_returns by blast
  then show ?thesis unfolding regcomp_def f_def [symmetric] by (simp add: t Let_def)
qed

end
