(* ===== verification/RegUnique.thy ===== *)
theory RegUnique
  imports RegGrammar
begin

text \<open>
  A text has at most one reading: the grammar of extended expressions is unambiguous.  The
  statements are about a word of the grammar at the beginning of a text, so that they say both
  where the word ends and what it means.
\<close>

section \<open>Bracket expressions\<close>

text \<open>Names do not contain the character that ends them, unless they are single characters.\<close>

lemma cut_once: "w @ c # v = w' @ c # v' \<Longrightarrow> c \<notin> set w \<Longrightarrow> c \<notin> set w' \<Longrightarrow> w = w' \<and> v = v'"
proof (induction w arbitrary: w')
  case Nil
  then show ?case by (cases w') auto
next
  case (Cons d w)
  then show ?case by (cases w') auto
qed

lemma class_names: "map_of cclasses name = Some cs \<Longrightarrow> CHR '':'' \<notin> set name"
  by (auto simp: cclasses_def Let_def split: if_splits)

lemma char_names:
  assumes "names_char name c" "d \<in> set ''.=''"
  shows "length name = 1 \<or> d \<notin> set name" "name \<noteq> []"
proof -
  have "\<forall>(n, c)\<in>set cnames. CHR ''.'' \<notin> set n \<and> CHR ''='' \<notin> set n \<and> n \<noteq> []"
    by (simp add: cnames_def)
  moreover have "(name, c) \<in> set cnames \<or> name = [c]"
    using assms(1) by (auto simp: names_char_def split: option.splits dest: map_of_SomeD)
  ultimately show "length name = 1 \<or> d \<notin> set name" "name \<noteq> []" using assms(2) by auto
qed

lemma names_char_unique: "names_char name c \<Longrightarrow> names_char name c' \<Longrightarrow> c = c'"
  by (auto simp: names_char_def split: option.splits)

lemma name_cut:
  assumes "names_char n c" "names_char n' c'" "d \<in> set ''.=''" "n @ d # CHR '']'' # v = n' @ d # CHR '']'' # v'"
  shows "n = n' \<and> v = v' \<and> c = c'"
proof -
  have "n = n' \<and> v = v'"
    using char_names [OF assms(1,3)] char_names [OF assms(2,3)] assms(4) cut_once [of n d "CHR '']'' # v" n' "CHR '']'' # v'"]
    by (auto simp: length_Suc_conv append_eq_Cons_conv Cons_eq_append_conv)
  then show ?thesis using names_char_unique assms(1,2) by blast
qed

lemma symbol_unique:
  assumes "symbol w c" "symbol w' c'" "w @ x = w' @ x'"
    and "w = ''['' \<longrightarrow> \<not> starts_in x ''.''" "w' = ''['' \<longrightarrow> \<not> starts_in x' ''.''"
  shows "w = w' \<and> x = x' \<and> c = c'"
  using assms(1)
proof cases
  case symbol_char
  show ?thesis using assms(2) symbol_char assms(3-5) by cases (auto simp: starts_in_def)
next
  case (symbol_name n)
  show ?thesis
    using assms(2)
  proof cases
    case symbol_char
    then show ?thesis using symbol_name assms(3-5) by (auto simp: starts_in_def)
  next
    case (symbol_name n')
    then show ?thesis using \<open>w = ''[.'' @ n @ ''.]''\<close> \<open>names_char n c\<close> assms(3) name_cut [of n c n' c' "CHR ''.''" x x'] by simp
  qed
qed

lemma symbol_nonempty: "symbol w c \<Longrightarrow> w \<noteq> []"
  by (auto elim: symbol.cases)

text \<open>A symbol that is not followed by a hyphen is not the beginning of a range.\<close>

definition no_range :: "string \<Rightarrow> bool" where
  "no_range x \<longleftrightarrow> (\<forall>c y. x = CHR ''-'' # c # y \<longrightarrow> c = CHR '']'') \<and> x \<noteq> ''-''"

text \<open>What is read as a single character or a range.\<close>

inductive char_term :: "string \<Rightarrow> string \<Rightarrow> char set \<Rightarrow> bool" where
  char_single: "\<lbrakk>symbol w a; w \<noteq> ''-''; w = ''['' \<longrightarrow> \<not> starts_in x ''.:=''; no_range x\<rbrakk> \<Longrightarrow> char_term w x {a}"
| char_range: "\<lbrakk>symbol w a; w \<noteq> ''-''; symbol v b; schar a \<le> schar b; v = ''['' \<longrightarrow> \<not> starts_in x ''.''\<rbrakk> \<Longrightarrow>
    char_term (w @ ''-'' @ v) x {c. schar a \<le> schar c \<and> schar c \<le> schar b}"

lemma char_term_start:
  assumes "char_term w x S"
  obtains y a z where "symbol y a" "w @ x = y @ z" "y = ''['' \<longrightarrow> \<not> starts_in z ''.:=''" "y \<noteq> ''-''"
    "no_range z \<longrightarrow> w = y \<and> z = x \<and> S = {a}"
    "\<not> no_range z \<longrightarrow> (\<exists>v b. symbol v b \<and> w = y @ ''-'' @ v \<and> S = {c. schar a \<le> schar c \<and> schar c \<le> schar b} \<and>
       z = ''-'' @ v @ x \<and> (v = ''['' \<longrightarrow> \<not> starts_in x ''.''))"
  using assms
proof cases
  case (char_single a)
  then show ?thesis by (intro that [of w a x]) auto
next
  case (char_range y a v b)
  have "\<not> no_range (''-'' @ v @ x)" using \<open>symbol v b\<close> by cases (auto simp: no_range_def)
  then show ?thesis using char_range by (intro that [of y a "''-'' @ v @ x"]) (auto simp: starts_in_def)
qed

lemma char_term_unique:
  assumes "char_term w x S" "char_term w' x' S'" "w @ x = w' @ x'"
  shows "w = w' \<and> S = S'"
proof -
  obtain y a z where 1: "symbol y a" "w @ x = y @ z" "y = ''['' \<longrightarrow> \<not> starts_in z ''.:=''"
    "no_range z \<longrightarrow> w = y \<and> z = x \<and> S = {a}"
    "\<not> no_range z \<longrightarrow> (\<exists>v b. symbol v b \<and> w = y @ ''-'' @ v \<and> S = {c. schar a \<le> schar c \<and> schar c \<le> schar b} \<and>
       z = ''-'' @ v @ x \<and> (v = ''['' \<longrightarrow> \<not> starts_in x ''.''))"
    by (rule char_term_start [OF assms(1)])
  obtain y' a' z' where 2: "symbol y' a'" "w' @ x' = y' @ z'" "y' = ''['' \<longrightarrow> \<not> starts_in z' ''.:=''"
    "no_range z' \<longrightarrow> w' = y' \<and> z' = x' \<and> S' = {a'}"
    "\<not> no_range z' \<longrightarrow> (\<exists>v b. symbol v b \<and> w' = y' @ ''-'' @ v \<and> S' = {c. schar a' \<le> schar c \<and> schar c \<le> schar b} \<and>
       z' = ''-'' @ v @ x' \<and> (v = ''['' \<longrightarrow> \<not> starts_in x' ''.''))"
    by (rule char_term_start [OF assms(2)])
  have "starts_in t ''.'' \<Longrightarrow> starts_in t ''.:=''" for t by (cases t) (auto simp: starts_in_def)
  then have e: "y = y'" "z = z'" "a = a'"
    using symbol_unique [OF 1(1) 2(1), of z z'] 1(2,3) 2(2,3) assms(3) by auto
  show ?thesis
  proof (cases "no_range z")
    case True
    then show ?thesis using 1(4) 2(4) e by simp
  next
    case False
    then obtain v b v' b' where "symbol v b" "symbol v' b'" "v @ x = v' @ x'" "w = y @ ''-'' @ v" "w' = y @ ''-'' @ v'"
      "S = {c. schar a \<le> schar c \<and> schar c \<le> schar b}" "S' = {c. schar a \<le> schar c \<and> schar c \<le> schar b'}"
      "v = ''['' \<longrightarrow> \<not> starts_in x ''.''" "v' = ''['' \<longrightarrow> \<not> starts_in x' ''.''"
      using 1(5) 2(5) e by fastforce
    then show ?thesis using symbol_unique [of v b v' b' x x'] by simp
  qed
qed

text \<open>The three kinds of terms differ in how they begin.\<close>

lemma term_kinds:
  assumes "bracket_term w S" "cut_ok w x" "no_range x"
  obtains (cls) name cs where "map_of cclasses name = Some cs" "w = ''[:'' @ name @ '':]''" "S = set cs"
    | (eqv) name c where "names_char name c" "w = ''[='' @ name @ ''=]''" "S = {c}"
    | (chr) "char_term w x S"
  using assms(1)
proof cases
  case (term_symbol c)
  then show ?thesis using char_single [of w c x] assms(2,3) chr by (simp add: cut_ok_def)
next
  case (term_range y a v b)
  have "v = ''['' \<longrightarrow> \<not> starts_in x ''.''"
    using assms(2) term_range(1) by (auto simp: cut_ok_def suffix_def)
  then show ?thesis using char_range [of y a v b x] term_range chr by simp
qed (use cls eqv in auto)

lemma char_term_head:
  assumes "char_term w x S"
  shows "\<not> (w @ x = CHR ''['' # c # z \<and> c \<in> set '':='')" "w \<noteq> []" "hd w \<notin> set ''-]''"
proof -
  obtain y a t where y: "symbol y a" "w @ x = y @ t" "y = ''['' \<longrightarrow> \<not> starts_in t ''.:=''" "y \<noteq> ''-''"
    "no_range t \<longrightarrow> w = y" "\<not> no_range t \<longrightarrow> (\<exists>v. w = y @ ''-'' @ v)"
    by (rule char_term_start [OF assms]) auto
  show "\<not> (w @ x = CHR ''['' # c # z \<and> c \<in> set '':='')"
    unfolding y(2) using y(1,3) by cases (auto simp: starts_in_def)
  have "y \<noteq> []" "hd y \<notin> set ''-]''" using y(1,4) by (auto elim!: symbol.cases)
  then show "w \<noteq> []" "hd w \<notin> set ''-]''" using y(5,6) by (cases "no_range t"; auto)+
qed

lemma term_unique:
  assumes "bracket_term w S" "cut_ok w x" "no_range x" "bracket_term w' S'" "cut_ok w' x'" "no_range x'" "w @ x = w' @ x'"
  shows "w = w' \<and> S = S'"
  using assms(1-3)
proof (cases rule: term_kinds)
  case (cls name cs)
  show ?thesis
    using assms(4-6)
  proof (cases rule: term_kinds)
    case c: (cls name' cs')
    then show ?thesis
      using cls assms(7) cut_once [of name "CHR '':''" "CHR '']'' # x" name' "CHR '']'' # x'"] class_names by auto
  next
    case chr
    then show ?thesis using char_term_head(1) [OF chr, of "CHR '':''" "name @ '':]'' @ x"] cls assms(7) by simp
  qed (use cls assms(7) in auto)
next
  case (eqv name c)
  show ?thesis
    using assms(4-6)
  proof (cases rule: term_kinds)
    case e: (eqv name' c')
    then show ?thesis using eqv assms(7) name_cut [of name c name' c' "CHR ''=''" x x'] by simp
  next
    case chr
    then show ?thesis using char_term_head(1) [OF chr, of "CHR ''=''" "name @ ''=]'' @ x"] eqv assms(7) by simp
  qed (use eqv assms(7) in auto)
next
  case chr
  show ?thesis
    using assms(4-6)
  proof (cases rule: term_kinds)
    case (cls name cs)
    then show ?thesis using char_term_head(1) [OF chr, of "CHR '':''" "name @ '':]'' @ x'"] assms(7) by simp
  next
    case (eqv name c)
    then show ?thesis using char_term_head(1) [OF chr, of "CHR ''=''" "name @ ''=]'' @ x'"] assms(7) by simp
  next
    case c: chr
    then show ?thesis using char_term_unique [OF chr c assms(7)] by blast
  qed
qed

lemma term_head: "bracket_term w S \<Longrightarrow> w \<noteq> [] \<and> hd w \<notin> set ''-]''"
  by (auto elim!: bracket_term.cases symbol.cases)

text \<open>The end of a bracket expression, where no term can begin.\<close>

definition bracket_end :: "string \<Rightarrow> bool" where
  "bracket_end y \<longleftrightarrow> (\<exists>z. y = CHR '']'' # z \<or> y = CHR ''-'' # CHR '']'' # z)"

lemma items_follow:
  assumes "bracket_items v T" "bracket_end y"
  shows "no_range (v @ y)" "cut_ok w v \<Longrightarrow> cut_ok w (v @ y)"
proof -
  have "v = [] \<or> hd v \<noteq> CHR ''-''" using assms(1) by cases (auto dest: term_head)
  then show "no_range (v @ y)" using assms(2) by (cases v) (auto simp: no_range_def bracket_end_def)
  show "cut_ok w v \<Longrightarrow> cut_ok w (v @ y)"
    using assms(2) by (cases v) (auto simp: cut_ok_def starts_in_def bracket_end_def)
qed

lemma items_unique:
  assumes "bracket_items w S" "bracket_items w' S'" "w @ y = w' @ y'" "bracket_end y" "bracket_end y'"
  shows "w = w' \<and> S = S'"
  using assms
proof (induction arbitrary: w' S' rule: bracket_items.induct)
  case items_Nil
  from \<open>bracket_items w' S'\<close> show ?case
  proof cases
    case (items_Cons u U v V)
    then show ?thesis using items_Nil.prems(2,3) term_head [of u U] by (cases u) (auto simp: bracket_end_def)
  qed simp
next
  case (items_Cons u U v V)
  from \<open>bracket_items w' S'\<close> show ?case
  proof cases
    case items_Nil
    then show ?thesis using items_Cons.prems(2,4) term_head [OF items_Cons.hyps(1)] by (cases u) (auto simp: bracket_end_def)
  next
    case (items_Cons u' U' v' V')
    have "u = u' \<and> U = U'"
      using term_unique [of u U "v @ y" u' U' "v' @ y'"] items_follow items_Cons items_Cons.hyps items_Cons.prems
        \<open>bracket_term u U\<close> \<open>bracket_items v V\<close> \<open>cut_ok u v\<close> by simp
    moreover from this have "v = v' \<and> V = V'"
      using items_Cons.IH [of v' V'] items_Cons items_Cons.prems by simp
    ultimately show ?thesis using items_Cons by simp
  qed
qed

lemma starts_in_append: "w \<noteq> [] \<Longrightarrow> starts_in (w @ x) cs = starts_in w cs"
  by (cases w) (simp_all add: starts_in_def)

text \<open>The parts before the items are determined one after the other by the next character.\<close>

lemma opening_unique:
  assumes "v = [] \<or> v = '']'' \<or> v = ''-''" "v' = [] \<or> v' = '']'' \<or> v' = ''-''" "v @ t = v' @ t'"
    and "v = [] \<longrightarrow> \<not> starts_in t '']-''" "v' = [] \<longrightarrow> \<not> starts_in t' '']-''"
  shows "v = v' \<and> t = t'"
  using assms by (auto simp: starts_in_def)

lemma negation_unique:
  assumes "(if n then ''^'' else []) @ t = (if n' then ''^'' else []) @ t'"
    and "\<not> n \<longrightarrow> \<not> starts_in t ''^''" "\<not> n' \<longrightarrow> \<not> starts_in t' ''^''"
  shows "n = n' \<and> t = t'"
  using assms by (cases n; cases n') (auto simp: starts_in_def)

lemma ending_unique:
  assumes "u = [] \<or> u = ''-''" "u' = [] \<or> u' = ''-''" "u @ CHR '']'' # x = u' @ CHR '']'' # x'"
  shows "u = u' \<and> x = x'"
  using assms by auto

lemma bracket_unique:
  assumes "bracket fl b B" "bracket fl b' B'" "b @ x = b' @ x'"
  shows "b = b' \<and> B = B'"
  using assms(1)
proof cases
  case (bracketI v w S u neg)
  note 1 = this
  show ?thesis
    using assms(2)
  proof cases
    case (bracketI v' w' S' u' neg')
    note 2 = this
    define t t' where t: "t = w @ u @ '']''" "t' = w' @ u' @ '']''"
    have ne: "t \<noteq> []" "t' \<noteq> []" by (simp_all add: t)
    have e: "(if neg then ''^'' else []) @ ((v @ t) @ x) = (if neg' then ''^'' else []) @ ((v' @ t') @ x')"
      using assms(3) unfolding 1(1) 2(1) t by (simp only: append_assoc)
    have "\<not> neg \<longrightarrow> \<not> starts_in ((v @ t) @ x) ''^''" "\<not> neg' \<longrightarrow> \<not> starts_in ((v' @ t') @ x') ''^''"
      using 1(7) 2(7) ne starts_in_append [of "v @ t" x] starts_in_append [of "v' @ t'" x'] unfolding t by blast+
    from negation_unique [OF e this] have n: "neg = neg'" "v @ t @ x = v' @ t' @ x'" by (simp_all only: append_assoc)
    have "v = [] \<longrightarrow> \<not> starts_in (t @ x) '']-''" "v' = [] \<longrightarrow> \<not> starts_in (t' @ x') '']-''"
      using 1(6) 2(6) starts_in_append [OF ne(1)] starts_in_append [OF ne(2)] unfolding t by blast+
    from opening_unique [OF 1(3) 2(3) n(2) this] have v: "v = v'" "w @ (u @ '']'' @ x) = w' @ (u' @ '']'' @ x')"
      unfolding t by simp_all
    have "bracket_end (u @ '']'' @ x)" "bracket_end (u' @ '']'' @ x')" using 1(5) 2(5) by (auto simp: bracket_end_def)
    from items_unique [OF 1(4) 2(4) v(2) this] have w: "w = w'" "S = S'" by blast+
    have "u @ CHR '']'' # x = u' @ CHR '']'' # x'" using v(2) w(1) by simp
    from ending_unique [OF 1(5) 2(5) this] have "u = u'" ..
    then show ?thesis unfolding 1(1,2) 2(1,2) by (simp only: n(1) v(1) w)
  qed
qed

section \<open>Quantifiers\<close>

lemma no_digits [simp]: "\<not> isdigit (CHR '','')" "\<not> isdigit (CHR ''}'')"
  by (simp_all add: isdigit_def uch_def)

lemma count_chars: "count_text w n \<Longrightarrow> CHR '','' \<notin> set w \<and> CHR ''}'' \<notin> set w \<and> w \<noteq> [] \<and> n = digits_value 0 w"
  using no_digits by (auto simp: count_text_def)

text \<open>The bounds as a function of their text.\<close>

definition bounds_value :: "string \<Rightarrow> nat \<times> nat option" where
  "bounds_value w =
     (let lo = digits_value 0 (takeWhile (\<lambda>c. c \<noteq> CHR '','') w)
      in (lo, case dropWhile (\<lambda>c. c \<noteq> CHR '','') w of
                [] \<Rightarrow> Some lo
              | _ # v \<Rightarrow> if v = [] then None else Some (digits_value 0 v)))"

lemma bounds_values: "bounds_text w lo hi \<Longrightarrow> (lo, hi) = bounds_value w \<and> CHR ''}'' \<notin> set w"
proof (induction rule: bounds_text.induct)
  case (bounds_exact w n)
  then have "\<forall>c\<in>set w. c \<noteq> CHR '',''" using count_chars by blast
  then have "takeWhile (\<lambda>c. c \<noteq> CHR '','') w = w" "dropWhile (\<lambda>c. c \<noteq> CHR '','') w = []" by simp_all
  then show ?case using count_chars [OF bounds_exact] by (simp only: bounds_value_def Let_def list.case simp_thms)
next
  case (bounds_from w n)
  then have "\<forall>c\<in>set w. c \<noteq> CHR '',''" using count_chars by blast
  then show ?case using count_chars [OF bounds_from] by (simp add: bounds_value_def takeWhile_append dropWhile_append)
next
  case (bounds_between w n v k)
  then have "\<forall>c\<in>set w. c \<noteq> CHR '',''" using count_chars by blast
  then show ?case using count_chars [OF bounds_between(1)] count_chars [OF bounds_between(2)]
    by (simp add: bounds_value_def takeWhile_append dropWhile_append)
qed

lemma quantifier_kinds:
  assumes "quantifier v lo hi"
  obtains (simple) c where "v = [c]" "c \<in> set ''*+?''" "(lo, hi) = (if c = CHR ''*'' then (0, None) else if c = CHR ''+'' then (1, None) else (0, Some 1))"
    | (bounds) w where "v = CHR ''{'' # w @ ''}''" "(lo, hi) = bounds_value w" "CHR ''}'' \<notin> set w"
  using assms
proof cases
  case (quant_bounds w)
  then show ?thesis using bounds bounds_values by simp
qed (use simple in auto)

lemma quantifier_unique:
  assumes "quantifier v lo hi" "quantifier v' lo' hi'" "v @ s = v' @ s'"
  shows "v = v' \<and> s = s' \<and> lo = lo' \<and> hi = hi'"
  using assms(1)
proof (cases rule: quantifier_kinds)
  case (simple c)
  from assms(2) show ?thesis
  proof (cases rule: quantifier_kinds)
    case s: (simple c')
    then have "c = c'" using simple(1) assms(3) by simp
    moreover from this have "(lo, hi) = (lo', hi')" using simple(3) s(3) by (simp only:)
    ultimately show ?thesis using simple(1) s(1) assms(3) by simp
  next
    case (bounds w)
    then show ?thesis using simple(1,2) assms(3) by simp
  qed
next
  case (bounds w)
  from assms(2) show ?thesis
  proof (cases rule: quantifier_kinds)
    case (simple c)
    then show ?thesis using bounds(1) assms(3) by auto
  next
    case b: (bounds w')
    then have "w = w' \<and> s = s'" using bounds(1,3) assms(3) cut_once [of w "CHR ''}''" s w' s'] by simp
    moreover from this have "(lo, hi) = (lo', hi')" using bounds(2) b(2) by (simp only:)
    ultimately show ?thesis using bounds(1) b(1) by simp
  qed
qed

text \<open>What cannot be taken for a quantifier.\<close>

definition quantless :: "string \<Rightarrow> bool" where
  "quantless s \<longleftrightarrow> \<not> starts_in s ''*+?'' \<and> (\<forall>c v. s = CHR ''{'' # c # v \<longrightarrow> \<not> isdigit c)"

lemma quantifier_quantless: "quantifier v lo hi \<Longrightarrow> \<not> quantless (v @ s)"
proof (induction rule: quantifier.induct)
  case (quant_bounds w lo hi)
  then obtain c u where "w = c # u" "isdigit c"
    by cases (force simp: count_text_def neq_Nil_conv)+
  then show ?case by (simp add: quantless_def)
qed (simp_all add: quantless_def starts_in_def)

section \<open>Expressions\<close>

text \<open>How words of the grammar begin.\<close>

lemma text_head:
  "atom_text fl w e \<Longrightarrow> w \<noteq> [] \<and> hd w \<notin> set '')|*+?''"
  "piece_text fl w e \<Longrightarrow> w \<noteq> [] \<and> hd w \<notin> set '')|*+?''"
  "branch_text fl w e \<Longrightarrow> w \<noteq> [] \<and> hd w \<notin> set '')|*+?''"
  "ere_text fl w e \<Longrightarrow> w \<noteq> [] \<and> hd w \<notin> set '')|*+?''"
  by (induction rule: atom_text_piece_text_branch_text_ere_text.inducts) (auto simp: special_def)

lemma atom_brace: "atom_text fl w e \<Longrightarrow> hd w = CHR ''{'' \<Longrightarrow> w = ''{''"
  by (auto elim: atom_text.cases)

lemma quantifier_head: "quantifier v lo hi \<Longrightarrow> v \<noteq> [] \<and> \<not> isdigit (hd v)"
  by (auto simp: isdigit_def uch_def elim!: quantifier.cases)

lemma quantless_head: "w \<noteq> [] \<Longrightarrow> hd w \<notin> set ''*+?{'' \<Longrightarrow> quantless (w @ x)"
  by (cases w) (auto simp: quantless_def starts_in_def)

lemma piece_quantless:
  assumes "piece_text fl w e" "w = ''{'' \<longrightarrow> x = [] \<or> \<not> isdigit (hd x)"
  shows "quantless (w @ x)"
proof (cases "hd w = CHR ''{''")
  case False
  then show ?thesis using quantless_head text_head(2) [OF assms(1)] by auto
next
  case True
  from assms(1) show ?thesis
  proof cases
    case piece_atom
    then have "w = ''{''" using atom_brace True by blast
    then show ?thesis using assms(2) by (auto simp: quantless_def starts_in_def)
  next
    case (piece_quantified a f q lo hi)
    then have "a = ''{''" using atom_brace [of fl a f] True text_head(1) [of fl a f] by simp
    then show ?thesis using piece_quantified(1) quantifier_head [OF piece_quantified(5)]
      by (auto simp: quantless_def starts_in_def neq_Nil_conv)
  qed
qed

text \<open>What may follow a sequence, and a choice.\<close>

definition stops :: "string \<Rightarrow> string \<Rightarrow> bool" where
  "stops cs s \<longleftrightarrow> s = [] \<or> starts_in s cs"

lemma stops_quantless: "stops '')|'' s \<Longrightarrow> quantless s"
  by (auto simp: stops_def starts_in_def quantless_def split: list.splits)

lemma branch_quantless:
  assumes "branch_text fl w e" "stops '')|'' s"
  shows "quantless (w @ s)"
  using assms(1)
proof cases
  case branch_one
  have "s = [] \<or> \<not> isdigit (hd s)"
    using assms(2) by (auto simp: stops_def starts_in_def isdigit_def uch_def split: list.splits)
  then show ?thesis using piece_quantless [OF branch_one] by simp
next
  case (branch_more v f u g)
  then have "v = ''{'' \<longrightarrow> u @ s = [] \<or> \<not> isdigit (hd (u @ s))" using text_head(3) [of fl u g] by auto
  then show ?thesis using piece_quantless [OF branch_more(3)] branch_more(1) by simp
qed

definition unique_atom :: "u32 \<Rightarrow> string \<Rightarrow> ere \<Rightarrow> bool" where
  "unique_atom fl w e \<longleftrightarrow> (\<forall>w' e' s s'. atom_text fl w' e' \<longrightarrow> w @ s = w' @ s' \<longrightarrow> w = w' \<and> e = e')"

definition unique_piece :: "u32 \<Rightarrow> string \<Rightarrow> ere \<Rightarrow> bool" where
  "unique_piece fl w e \<longleftrightarrow>
     (\<forall>w' e' s s'. piece_text fl w' e' \<longrightarrow> w @ s = w' @ s' \<longrightarrow> quantless s \<longrightarrow> quantless s' \<longrightarrow> w = w' \<and> e = e')"

definition unique_branch :: "u32 \<Rightarrow> string \<Rightarrow> ere \<Rightarrow> bool" where
  "unique_branch fl w e \<longleftrightarrow>
     (\<forall>w' e' s s'. branch_text fl w' e' \<longrightarrow> w @ s = w' @ s' \<longrightarrow> stops '')|'' s \<longrightarrow> stops '')|'' s' \<longrightarrow> w = w' \<and> e = e')"

definition unique_ere :: "u32 \<Rightarrow> string \<Rightarrow> ere \<Rightarrow> bool" where
  "unique_ere fl w e \<longleftrightarrow>
     (\<forall>w' e' s s'. ere_text fl w' e' \<longrightarrow> w @ s = w' @ s' \<longrightarrow> stops '')'' s \<longrightarrow> stops '')'' s' \<longrightarrow> w = w' \<and> e = e')"

lemma unique_bracket: "bracket fl w S \<Longrightarrow> unique_atom fl (''['' @ w) (ECls S)"
proof -
  assume b: "bracket fl w S"
  have "''['' @ w = w' \<and> ECls S = e'" if "atom_text fl w' e'" "(''['' @ w) @ s = w' @ s'" for w' e' s s'
    using that(1)
  proof cases
    case (atom_bracket v T)
    then show ?thesis using bracket_unique [OF b, of v T s s'] that(2) by simp
  qed (use that(2) in \<open>auto simp: special_def\<close>)
  then show ?thesis unfolding unique_atom_def by blast
qed

lemma unique_group:
  assumes "ere_text fl w e" "unique_ere fl w e"
  shows "unique_atom fl (''('' @ w @ '')'') (EGroup e)"
proof -
  have "''('' @ w @ '')'' = w' \<and> EGroup e = e'" if a: "atom_text fl w' e'" "(''('' @ w @ '')'') @ s = w' @ s'" for w' e' s s'
    using a(1)
  proof cases
    case atom_empty
    then show ?thesis using a(2) text_head(4) [OF assms(1)] by (cases w) auto
  next
    case (atom_group v f)
    then have "w @ CHR '')'' # s = v @ CHR '')'' # s'" using a(2) by simp
    moreover have "stops '')'' (CHR '')'' # z)" for z by (simp add: stops_def starts_in_def)
    ultimately have "w = v \<and> e = f" using assms(2) atom_group(3) unfolding unique_ere_def by blast
    then show ?thesis using atom_group by simp
  qed (use a(2) in \<open>auto simp: special_def\<close>)
  then show ?thesis unfolding unique_atom_def by blast
qed

lemma unique_simple:
  "unique_atom fl ''^'' EBol" "unique_atom fl ''$'' EEol" "unique_atom fl ''.'' (ECls (dot_chars fl))"
  "\<not> special c \<Longrightarrow> unique_atom fl [c] (ECls (folded fl {c}))" "unique_atom fl [CHR 0x5C, c] (ECls (folded fl {c}))"
  unfolding unique_atom_def by (auto simp: special_def elim!: atom_text.cases)

lemma unique_empty: "unique_atom fl ''()'' (EGroup EEmpty)"
proof -
  have "''()'' = w' \<and> EGroup EEmpty = e'" if a: "atom_text fl w' e'" "''()'' @ s = w' @ s'" for w' e' s s'
    using a(1)
  proof cases
    case (atom_group v f)
    then show ?thesis using a(2) text_head(4) [OF atom_group(3)] by (cases v) auto
  qed (use a(2) in \<open>auto simp: special_def\<close>)
  then show ?thesis unfolding unique_atom_def by blast
qed

lemma unique_piece_atom:
  assumes "unique_atom fl w e"
  shows "unique_piece fl w e"
proof -
  have "w = w' \<and> e = e'" if p: "piece_text fl w' e'" "w @ s = w' @ s'" "quantless s" for w' e' s s'
    using p(1)
  proof cases
    case piece_atom
    then show ?thesis using assms p(2) unfolding unique_atom_def by blast
  next
    case (piece_quantified a f q lo hi)
    then have "w @ s = a @ (q @ s')" using p(2) by simp
    then have "w = a" using assms piece_quantified(3) unfolding unique_atom_def by blast
    then have "s = q @ s'" using \<open>w @ s = a @ (q @ s')\<close> by simp
    then show ?thesis using quantifier_quantless [OF piece_quantified(5)] p(3) by simp
  qed
  then show ?thesis unfolding unique_piece_def by blast
qed

lemma unique_quantified:
  assumes "unique_atom fl w e" "quantifier v lo hi"
  shows "unique_piece fl (w @ v) (ERep e lo hi)"
proof -
  have "w @ v = w' \<and> ERep e lo hi = e'" if p: "piece_text fl w' e'" "(w @ v) @ s = w' @ s'" "quantless s'" for w' e' s s'
    using p(1)
  proof cases
    case piece_atom
    have "w @ (v @ s) = w' @ s'" using p(2) by simp
    then have "w = w'" using assms(1) piece_atom unfolding unique_atom_def by blast
    then have "s' = v @ s" using p(2) by simp
    then show ?thesis using quantifier_quantless [OF assms(2)] p(3) by simp
  next
    case (piece_quantified a f q lo' hi')
    then have c: "w @ (v @ s) = a @ (q @ s')" using p(2) by simp
    then have a: "w = a \<and> e = f" using assms(1) piece_quantified(3) unfolding unique_atom_def by blast
    then have "v @ s = q @ s'" using c by simp
    then show ?thesis using quantifier_unique [OF assms(2) piece_quantified(5)] piece_quantified(1,2) a by simp
  qed
  then show ?thesis unfolding unique_piece_def by blast
qed

lemma unique_branch_one:
  assumes "unique_piece fl w e"
  shows "unique_branch fl w e"
proof -
  have "w = w' \<and> e = e'" if b: "branch_text fl w' e'" "w @ s = w' @ s'" "stops '')|'' s" "stops '')|'' s'" for w' e' s s'
    using b(1)
  proof cases
    case branch_one
    then show ?thesis using assms b(2) stops_quantless [OF b(3)] stops_quantless [OF b(4)] unfolding unique_piece_def by blast
  next
    case (branch_more v f u g)
    have c: "w @ s = v @ (u @ s')" using b(2) branch_more(1) by simp
    then have "w = v"
      using assms branch_more(3) stops_quantless [OF b(3)] branch_quantless [OF branch_more(4) b(4)] unfolding unique_piece_def by blast
    then have "s = u @ s'" using c by simp
    then show ?thesis using text_head(3) [OF branch_more(4)] b(3) by (cases u) (auto simp: stops_def starts_in_def)
  qed
  then show ?thesis unfolding unique_branch_def by blast
qed

lemma unique_branch_more:
  assumes p: "unique_piece fl w e" and b: "branch_text fl v f" "unique_branch fl v f"
  shows "unique_branch fl (w @ v) (ESeq e f)"
proof -
  have "w @ v = w' \<and> ESeq e f = e'"
    if c: "branch_text fl w' e'" "(w @ v) @ s = w' @ s'" "stops '')|'' s" "stops '')|'' s'" for w' e' s s'
    using c(1)
  proof cases
    case branch_one
    have "w @ (v @ s) = w' @ s'" using c(2) by simp
    moreover from this have "w = w'"
      using p branch_one stops_quantless [OF c(4)] branch_quantless [OF b(1) c(3)] unfolding unique_piece_def by blast
    ultimately have "s' = v @ s" by simp
    then show ?thesis using text_head(3) [OF b(1)] c(4) by (cases v) (auto simp: stops_def starts_in_def)
  next
    case (branch_more y g u h)
    have d: "w @ (v @ s) = y @ (u @ s')" using c(2) branch_more(1) by simp
    then have y: "w = y \<and> e = g"
      using p branch_more(3) branch_quantless [OF b(1) c(3)] branch_quantless [OF branch_more(4) c(4)]
      unfolding unique_piece_def by blast
    then have "v @ s = u @ s'" using d by simp
    then have "v = u \<and> f = h" using b(2) branch_more(4) c(3,4) unfolding unique_branch_def by blast
    then show ?thesis using y branch_more(1,2) by simp
  qed
  then show ?thesis unfolding unique_branch_def by blast
qed

lemma stops_more: "stops '')'' s \<Longrightarrow> stops '')|'' s" "stops '')|'' (CHR ''|'' # s)"
  by (auto simp: stops_def starts_in_def split: list.splits)

lemma unique_ere_branch:
  assumes "unique_branch fl w e"
  shows "unique_ere fl w e"
proof -
  have "w = w' \<and> e = e'" if c: "ere_text fl w' e'" "w @ s = w' @ s'" "stops '')'' s" "stops '')'' s'" for w' e' s s'
    using c(1)
  proof cases
    case ere_branch
    then show ?thesis using assms c(2) stops_more(1) [OF c(3)] stops_more(1) [OF c(4)] unfolding unique_branch_def by blast
  next
    case (ere_choice v f u g)
    have d: "w @ s = v @ (CHR ''|'' # u @ s')" using c(2) ere_choice(1) by simp
    then have "w = v" using assms ere_choice(3) stops_more(1) [OF c(3)] stops_more(2) unfolding unique_branch_def by blast
    then have "s = CHR ''|'' # u @ s'" using d by simp
    then show ?thesis using c(3) by (simp add: stops_def starts_in_def)
  qed
  then show ?thesis unfolding unique_ere_def by blast
qed

lemma unique_choice:
  assumes p: "unique_branch fl w e" and q: "unique_ere fl v f"
  shows "unique_ere fl (w @ ''|'' @ v) (EAlt e f)"
proof -
  have "w @ ''|'' @ v = w' \<and> EAlt e f = e'"
    if c: "ere_text fl w' e'" "(w @ ''|'' @ v) @ s = w' @ s'" "stops '')'' s" "stops '')'' s'" for w' e' s s'
    using c(1)
  proof cases
    case ere_branch
    have d: "w @ (CHR ''|'' # v @ s) = w' @ s'" using c(2) by simp
    then have "w = w'" using p ere_branch stops_more(1) [OF c(4)] stops_more(2) unfolding unique_branch_def by blast
    then have "s' = CHR ''|'' # v @ s" using d by simp
    then show ?thesis using c(4) by (simp add: stops_def starts_in_def)
  next
    case (ere_choice y g u h)
    have d: "w @ (CHR ''|'' # v @ s) = y @ (CHR ''|'' # u @ s')" using c(2) ere_choice(1) by simp
    then have y: "w = y \<and> e = g" using p ere_choice(3) stops_more(2) unfolding unique_branch_def by blast
    then have "v @ s = u @ s'" using d by simp
    then have "v = u \<and> f = h" using q ere_choice(4) c(3,4) unfolding unique_ere_def by blast
    then show ?thesis using y ere_choice(1,2) by simp
  qed
  then show ?thesis unfolding unique_ere_def by blast
qed

lemma text_unique:
  "atom_text fl w e \<Longrightarrow> unique_atom fl w e" "piece_text fl w e \<Longrightarrow> unique_piece fl w e"
  "branch_text fl w e \<Longrightarrow> unique_branch fl w e" "ere_text fl w e \<Longrightarrow> unique_ere fl w e"
  by (induction rule: atom_text_piece_text_branch_text_ere_text.inducts)
    (blast intro: unique_simple unique_empty unique_bracket unique_group unique_piece_atom unique_quantified
      unique_branch_one unique_branch_more unique_ere_branch unique_choice)+

theorem ere_text_unique: "ere_text fl w e \<Longrightarrow> ere_text fl w e' \<Longrightarrow> e = e'"
  using text_unique(4) [of fl w e] unfolding unique_ere_def stops_def by blast

end
