(* ===== verification/RegResult.thy ===== *)
theory RegResult
  imports RegTotal RegUnique
begin

text \<open>
  \<open>regcomp\<close> and \<open>regexec\<close> together: an extended expression that is accepted is a word of the
  grammar, and the search finds what it means.
\<close>

section \<open>The whole text is read\<close>

lemma ere_seq_end:
  "ere_seq n stop p = Some q \<Longrightarrow> \<not> MORE q \<or> PEEK q = CHR ''|'' \<or> stop = Some (PEEK q)"
proof (induction n arbitrary: p)
  case (Suc n)
  then show ?case by (auto simp: bind_eq_Some_conv split: if_splits)
qed simp

lemma ere_branches_end: "ere_branches n None prev p = Some q \<Longrightarrow> rest q = []"
proof (induction n arbitrary: prev p)
  case (Suc n)
  from Suc.prems show ?case
  proof (rule ere_branchesE)
    fix p1 bar p3
    assume a: "ere_seq n None p = Some p1" "EAT (CHR ''|'') (REQUIRE (slen p1 \<noteq> slen p) REG_EMPTY p1) = (bar, p3)"
      "bar \<Longrightarrow> \<exists>prev' p4. next_branch (slen p) prev p3 = (prev', p4) \<and> ere_branches n None (Some prev') p4 = Some q"
      "\<not> bar \<Longrightarrow> q = end_choice prev p3"
    show "rest q = []"
    proof (cases bar)
      case True
      then show ?thesis using a(3) Suc.IH by blast
    next
      case False
      then have "p3 = REQUIRE (slen p1 \<noteq> slen p) REG_EMPTY p1" "\<not> SEE (CHR ''|'') p3"
        using a(2) by (auto simp: EAT_def split: if_splits)
      moreover have "\<not> MORE p1 \<or> PEEK p1 = CHR ''|''" using ere_seq_end [OF a(1)] by simp
      ultimately have "rest p3 = []"
        by (cases "rest p1") (auto simp: REQUIRE_def MORE_def PEEK_def SEE_def split: if_splits)
      then show ?thesis using a(4) False by simp
    qed
  qed
qed simp

section \<open>The compiled structure\<close>

text \<open>The categories of characters are all that the first pass sets.\<close>

lemma categorize_frame:
  assumes [simp]: "\<And>g x. F (g\<lparr>categories := x\<rparr>) = F g" "\<And>g y. F (g\<lparr>ncategories := y\<rparr>) = F g"
  shows "F (categorize p g) = F g"
proof -
  have fold: "F (fold (\<lambda>d h. if P d h then h\<lparr>categories := f d h\<rparr> else h) cs g) = F g" for P f cs g
    by (induction cs arbitrary: g) simp_all
  have "F (categorize_from cs g) = F g" for cs g
    by (induction cs g rule: categorize_from.induct) (simp add: Let_def fold)+
  then show ?thesis by (simp add: categorize_def)
qed

lemma categorize_simps [simp]:
  "strip (categorize p g) = strip g" "sets (categorize p g) = sets g" "cflags (categorize p g) = cflags g"
  "firststate (categorize p g) = firststate g" "laststate (categorize p g) = laststate g" "must (categorize p g) = must g"
  "bad (categorize p g) = bad g" "backrefs (categorize p g) = backrefs g" "nbol (categorize p g) = nbol g"
  "neol (categorize p g) = neol g"
  by (rule categorize_frame; simp)+

lemma finish_guts_compiled:
  assumes p: "holds p (OEND # code_of r @ [OEND])" and r: "re_ok r"
    and g: "firststate (pg p) = 0" "laststate (pg p) = length (code_of r) + 1" "must (pg p) = None" "\<not> bad (pg p)"
  shows "compiled (finish_guts p) r" "sets (finish_guts p) = sets (pg p)" "cflags (finish_guts p) = cflags (pg p)"
    "backrefs (finish_guts p) = backrefs (pg p)" "nbol (finish_guts p) = nbol (pg p)" "neol (finish_guts p) = neol (pg p)"
proof -
  let ?g = "stripsnug p (categorize p (pg p))"
  have c: "holds_code ?g r"
    using p r by (simp add: holds_code_def stripsnug_def holds_def emitted_def)
  note f = findmust_code [OF c holds_perr [OF p]]
  have "holds_code (findmust p ?g) r" using c f by (simp add: holds_code_def)
  then obtain n where "finish_guts p = (findmust p ?g)\<lparr>nplus := n\<rparr>"
    using pluscount_code [OF _ holds_perr [OF p]] unfolding finish_guts_def by metis
  then show "compiled (finish_guts p) r" "sets (finish_guts p) = sets (pg p)" "cflags (finish_guts p) = cflags (pg p)"
    "backrefs (finish_guts p) = backrefs (pg p)" "nbol (finish_guts p) = nbol (pg p)" "neol (finish_guts p) = neol (pg p)"
    using c f g holds_slen [OF p] by (auto simp: compiled_def holds_code_def stripsnug_def)
qed

lemma compile_ere:
  assumes c: "compile flags (initial_parse s after flags) = Some q" "perr q = None"
    and f: "has_flag flags REG_EXTENDED" and w: "no_words s"
  obtains r e where "holds q (OEND # code_of r @ [OEND])" "ere_text flags s e" "implements (sets (pg q)) r e"
    "kept (initial_guts flags) (pg q)" "laststate (pg q) = length (code_of r) + 1"
    "anchors_once e \<longrightarrow> (\<forall>s. is_anchor s \<longrightarrow> count_list (code_of r) s \<le> anchor_count (pg q) s)"
proof -
  define p1 where "p1 = doemit OEND (initial_parse s after flags)"
  define p2 where "p2 = with_guts (\<lambda>g. g\<lparr>firststate := THERE p1\<rparr>) p1"
  obtain p3 where b: "ere_branches (parse_depth (rest p2)) None None p2 = Some p3"
    and q: "q = with_guts (\<lambda>g. g\<lparr>laststate := THERE (doemit OEND p3)\<rparr>) (doemit OEND p3)"
    using c(1) f by (auto simp: compile_def parse_pattern_def p_ere_def bind_eq_Some_conv Let_def p1_def p2_def)
  have "holds (initial_parse s after flags) []" by (simp add: initial_parse_def holds_def strip_ok_def emitted_def)
  from holds_doemit [OF this, of OEND] have p1: "holds p1 [OEND]" by (simp add: p1_def)
  then have p2: "holds p2 [OEND]" by (simp add: p2_def)
  have "pg p1 = initial_guts flags" "rest p1 = s" by (simp_all add: p1_def initial_parse_def)
  then have g2: "pg p2 = initial_guts flags" "rest p2 = s"
    using holds_slen [OF p1] by (simp_all add: p2_def initial_guts_def)
  have p3: "perr p3 = None" using c(2) q by simp
  obtain v r e where e: "ere_text (cflags (pg p2)) v e" and gr: "grown p2 [OEND] p3 v r e"
    using ere_parser b p3 p2 w g2(2) unfolding branches_ok_def by metis
  have "rest p3 = []" using ere_branches_end [OF b] .
  then have "v = s" using gr g2(2) by (simp add: grown_def)
  have h3: "holds p3 (OEND # code_of r)" using gr by (simp add: grown_def)
  have h: "holds (doemit OEND p3) (OEND # code_of r @ [OEND])" using holds_doemit [OF h3, of OEND] by simp
  show thesis
  proof (rule that)
    show "holds q (OEND # code_of r @ [OEND])" using h q by simp
    show "ere_text flags s e" using e g2(1) \<open>v = s\<close> by (simp add: initial_guts_def)
    show "laststate (pg q) = length (code_of r) + 1" using holds_slen [OF h] q by simp
    have "anchor_count (initial_guts flags) t = 0" for t by (simp add: anchor_count_def initial_guts_def)
    moreover have "anchor_count (pg q) = anchor_count (pg p3)" by (simp add: anchor_count_def q fun_eq_iff)
    ultimately show "anchors_once e \<longrightarrow> (\<forall>s. is_anchor s \<longrightarrow> count_list (code_of r) s \<le> anchor_count (pg q) s)"
      using gr unfolding grown_def g2(1) by simp
    show "implements (sets (pg q)) r e" "kept (initial_guts flags) (pg q)"
      using gr unfolding q grown_def g2(1) by (simp_all add: kept_def initial_guts_def)
  qed
qed

section \<open>Typing of compiled expressions\<close>

text \<open>
  A compiled expression is well formed for its text when the text is a word of the grammar and the
  strip is the code of an expression with the same matches.
\<close>

definition well_formed :: "regex \<Rightarrow> re \<Rightarrow> ere \<Rightarrow> bool" where
  "well_formed preg r e \<longleftrightarrow>
     re_magic preg = MAGIC1 \<and> g_magic preg = MAGIC2 \<and> compiled (re_g preg) r \<and> \<not> backrefs (re_g preg) \<and>
     implements (sets (re_g preg)) r e \<and> (anchors_once e \<longrightarrow> anchors_ok (re_g preg))"

lemma regcomp_okE:
  assumes "regcomp preg pattern flags = Some (None, preg')"
  obtains q where
    "compile (and flags (not REG_DUMP))
       (initial_parse (fst (pattern_text preg pattern (and flags (not REG_DUMP))))
          (snd (pattern_text preg pattern (and flags (not REG_DUMP)))) (and flags (not REG_DUMP))) = Some q"
    "perr q = None"
    "preg' = preg\<lparr>re_magic := MAGIC1, re_nsub := nsub (finish_guts q), re_g := finish_guts q, g_magic := MAGIC2\<rparr>"
  using assms
  by (auto simp: regcomp_def Let_def bind_eq_Some_conv split: if_splits prod.splits)

lemma regcomp_well_formed:
  fixes flags0 :: u32
  defines "flags \<equiv> and flags0 (not REG_DUMP)"
  assumes c: "regcomp preg pattern flags0 = Some (None, preg')"
    and f: "has_flag flags REG_EXTENDED" and w: "no_words (fst (pattern_text preg pattern flags))"
  obtains r e where "ere_text flags (fst (pattern_text preg pattern flags)) e" "well_formed preg' r e"
    "cflags (re_g preg') = flags"
proof -
  from c obtain q where q: "compile flags (initial_parse (fst (pattern_text preg pattern flags))
      (snd (pattern_text preg pattern flags)) flags) = Some q" "perr q = None"
    and g: "preg' = preg\<lparr>re_magic := MAGIC1, re_nsub := nsub (finish_guts q), re_g := finish_guts q, g_magic := MAGIC2\<rparr>"
    unfolding flags_def by (rule regcomp_okE)
  from q f w obtain r e where h: "holds q (OEND # code_of r @ [OEND])"
    and e: "ere_text flags (fst (pattern_text preg pattern flags)) e"
    and i: "implements (sets (pg q)) r e" and k: "kept (initial_guts flags) (pg q)"
    and l: "laststate (pg q) = length (code_of r) + 1"
    and a: "anchors_once e \<longrightarrow> (\<forall>s. is_anchor s \<longrightarrow> count_list (code_of r) s \<le> anchor_count (pg q) s)"
    by (rule compile_ere)
  have r: "re_ok r" using i by (simp add: implements_def)
  from k have k': "firststate (pg q) = 0" "must (pg q) = None" "\<not> bad (pg q)" "\<not> backrefs (pg q)" "cflags (pg q) = flags"
    by (simp_all add: kept_def initial_guts_def)
  note fin = finish_guts_compiled [OF h r k'(1) l k'(2,3)]
  have st: "strip (finish_guts q) = OEND # code_of r @ [OEND]"
    using fin(1) by (simp add: compiled_def holds_code_def)
  have "anchors_ok (finish_guts q)" if "anchors_once e"
    using a that i by (auto simp: anchors_ok_def st fin anchor_count_def is_anchor_def implements_def)
  then have "well_formed preg' r e"
    using fin i k' by (simp add: well_formed_def g)
  moreover have "cflags (re_g preg') = flags" using fin k' by (simp add: g)
  ultimately show thesis using that e by blast
qed

section \<open>Compiling and searching\<close>

lemma well_formed_search:
  fixes preg s pm flags
  defines "m \<equiv> matching preg s pm flags"
  assumes w: "well_formed preg r e" and a: "anchors_once e"
    and "beginp m \<le> endp m" "endp m \<le> length s" "nmatch \<le> 1" "nmatch \<le> length pm"
  shows "\<exists>res. regexec TYPE('w::len) preg s nmatch pm flags = Some res \<and>
    search_result m (ematch m e) (starts_with_class e)
      (if has_flag (cflags (re_g preg)) REG_NOSUB then 0 else nmatch) pm res"
proof -
  have wf: "compiled (re_g preg) r" "anchors_ok (re_g preg)" "\<not> backrefs (re_g preg)"
    "re_magic preg = MAGIC1" "g_magic preg = MAGIC2" "implements (sets (re_g preg)) r e"
    using w a by (simp_all add: well_formed_def)
  have "sets (guts m) = sets (re_g preg) @ []" by (simp add: m_def matching_def Let_def split: prod.split)
  with wf(6) have "rmatch m r = ematch m e" "starts_with_class e \<longrightarrow> begins_with_char r"
    unfolding implements_def by blast+
  then show ?thesis
    using regexec_correct [where 'w = 'w, OF wf(1-5) assms(4-7)[unfolded m_def]] search_result_weaken
    unfolding m_def by metis
qed

text \<open>The flag that is masked has no effect on what is compiled.\<close>

lemma masked_flags [simp]:
  fixes flags :: u32
  shows "has_flag (and flags (not REG_DUMP)) REG_EXTENDED = has_flag flags REG_EXTENDED"
    "has_flag (and flags (not REG_DUMP)) REG_PEND = has_flag flags REG_PEND"
    "has_flag (and flags (not REG_DUMP)) REG_NOSPEC = has_flag flags REG_NOSPEC"
  by (simp_all add: has_flag_def and.assoc)

lemma masked_text [simp]: "pattern_text preg pattern (and flags (not REG_DUMP)) = pattern_text preg pattern flags"
  unfolding pattern_text_def masked_flags ..

lemma regcomp_ere:
  assumes "regcomp preg pattern flags = Some (None, preg')" "has_flag flags REG_EXTENDED"
    and "no_words (fst (pattern_text preg pattern flags))"
  obtains r e where "ere_text (and flags (not REG_DUMP)) (fst (pattern_text preg pattern flags)) e" "well_formed preg' r e"
    "cflags (re_g preg') = and flags (not REG_DUMP)"
proof -
  have "has_flag (and flags (not REG_DUMP)) REG_EXTENDED" "no_words (fst (pattern_text preg pattern (and flags (not REG_DUMP))))"
    using assms by (simp_all only: masked_flags masked_text)
  with assms(1) show ?thesis by (rule regcomp_well_formed) (use that masked_text in metis)
qed

text \<open>
  That a search for a compiled expression gives what the expression means: with room for at most
  one match and a part of the string that lies in the string, \<open>regexec\<close> returns and reports no
  match if there is none, and else a match that is chosen as described with \<open>search_result\<close>.
\<close>

definition searches :: "'w::len itself \<Rightarrow> regex \<Rightarrow> ere \<Rightarrow> bool" where
  "searches w preg e \<longleftrightarrow>
     (\<forall>s nmatch pm flags.
        let m = matching preg s pm flags
        in beginp m \<le> endp m \<longrightarrow> endp m \<le> length s \<longrightarrow> nmatch \<le> 1 \<longrightarrow> nmatch \<le> length pm \<longrightarrow>
           (\<exists>res. regexec w preg s nmatch pm flags = Some res \<and>
              search_result m (ematch m e) (starts_with_class e)
                (if has_flag (cflags (re_g preg)) REG_NOSUB then 0 else nmatch) pm res))"

text \<open>
  C12.  An extended expression without word boundaries that \<open>regcomp\<close> accepts is well formed: its
  text is a word of the grammar, which has exactly one reading, and the strip between the two end
  marks is the code of a regular expression with the matches that this reading has.
\<close>

theorem regcomp_typed:
  assumes "regcomp preg pattern flags = Some (None, preg')" "has_flag flags REG_EXTENDED"
    and "no_words (fst (pattern_text preg pattern flags))"
  shows "\<exists>r e. (\<forall>x. ere_text (and flags (not REG_DUMP)) (fst (pattern_text preg pattern flags)) x \<longleftrightarrow> x = e) \<and>
    well_formed preg' r e"
  using assms by (rule regcomp_ere) (use ere_text_unique in blast)

text \<open>
  C6.  Compiling an extended expression without word boundaries and searching for it: if
  \<open>regcomp\<close> accepts the text, the text is a word of the grammar with exactly one reading.  If in this
  reading no bounded repetition copies an anchor, \<open>regexec\<close> with room for at most one match returns
  for every string.  It reports a match exactly if some part of the string is matched by the
  reading, and the match is the longest one from its start; it is the leftmost one if the
  expression begins with a character.  This holds for every size of the word that the engine keeps
  its states in.
\<close>

theorem regcomp_regexec:
  assumes "regcomp preg pattern flags = Some (None, preg')" "has_flag flags REG_EXTENDED"
    and "no_words (fst (pattern_text preg pattern flags))"
  shows "\<exists>e. (\<forall>x. ere_text (and flags (not REG_DUMP)) (fst (pattern_text preg pattern flags)) x \<longleftrightarrow> x = e) \<and>
    (anchors_once e \<longrightarrow> searches TYPE('w::len) preg' e)"
proof -
  from assms obtain r e where e: "ere_text (and flags (not REG_DUMP)) (fst (pattern_text preg pattern flags)) e" "well_formed preg' r e"
    by (rule regcomp_ere)
  then have "anchors_once e \<longrightarrow> searches TYPE('w) preg' e"
    using well_formed_search [where 'w = 'w] unfolding searches_def Let_def by blast
  then show ?thesis using e(1) ere_text_unique by blast
qed

end
