(* ===== verification/StackRegex.thy ===== *)
theory StackRegex
  imports NdkStack RegResult
begin

text \<open>
  \<open>ndk-stack\<close> with its own library of regular expressions: the three patterns that
  \<open>CreateNdkCrashParser\<close> compiles are accepted, and \<open>MatchRegex\<close> finds the lines that they
  describe.
\<close>

section \<open>Accepting a text\<close>

text \<open>
  What the parser of extended expressions does on a text without errors.  That it returns is
  shown elsewhere, so that only the results are described here.
\<close>

definition fine :: "u32 \<Rightarrow> parse \<Rightarrow> bool" where
  "fine fl p \<longleftrightarrow> perr p = None \<and> cflags (pg p) = fl"

definition went :: "u32 \<Rightarrow> parse \<Rightarrow> parse \<Rightarrow> string \<Rightarrow> bool" where
  "went fl p q v \<longleftrightarrow> fine fl q \<and> rest q = v \<and> slen p < slen q"

definition unquantified :: "string \<Rightarrow> bool" where
  "unquantified v \<longleftrightarrow> (\<forall>p :: parse. rest p = v \<longrightarrow> \<not> sees_repetition p)"

lemma unquantified_simps [simp]:
  "unquantified []"
  "unquantified (c # v) \<longleftrightarrow> c \<notin> set ''*+?'' \<and> (c = CHR ''{'' \<longrightarrow> v = [] \<or> \<not> isdigit (hd v))"
proof -
  have "\<exists>p :: parse. rest p = v" for v by (rule exI [of _ "initial_parse v nul 0"]) (simp add: initial_parse_def)
  then show "unquantified []"
    "unquantified (c # v) \<longleftrightarrow> c \<notin> set ''*+?'' \<and> (c = CHR ''{'' \<longrightarrow> v = [] \<or> \<not> isdigit (hd v))"
    by (auto simp: unquantified_def sees_repetition_def split: list.splits)
qed

lemma slen_emits:
  assumes "perr p = None"
  shows "slen (doemit s p) = slen p + 1" "slen (INSERT t n p) = slen p + 1" "slen (ASTERN t n p) = slen p + 1"
    "slen (AHEAD n p) = slen p" "slen (close_option n p) = slen p + 3"
proof -
  have e: "slen (doemit s q) = slen q + 1" if "perr q = None" for s q
    using that by (simp add: doemit_def Let_def enlarge_def)
  have i: "slen (AHEAD n q) = slen q" for n q by (simp add: AHEAD_def dofwd_def)
  have a: "slen (ASTERN t n q) = slen q + 1" if "perr q = None" for t n q
    using e that by (simp add: ASTERN_def)
  show "slen (doemit s p) = slen p + 1" "slen (ASTERN t n p) = slen p + 1" "slen (AHEAD n p) = slen p"
    using e i a assms by simp_all
  show "slen (INSERT t n p) = slen p + 1" using e assms by (simp add: INSERT_def doinsert_def Let_def)
  show "slen (close_option n p) = slen p + 3" using e a i assms by (simp add: close_option_def Let_def)
qed

lemma repeat_exact:
  assumes "perr p = None" "k < DUPMAX"
  shows "perr (repeat start (Suc k) (Suc k) p) = None \<and> same_input p (repeat start (Suc k) (Suc k) p) \<and>
    slen p \<le> slen (repeat start (Suc k) (Suc k) p)"
  using assms
proof (induction k arbitrary: start p)
  case 0
  then show ?case by (simp add: repeat.simps same_input_def)
next
  case (Suc k)
  obtain i q where d: "dupl start (HERE p) p = (i, q)" by fastforce
  have q: "perr q = None" "same_input p q" "slen p \<le> slen q"
    using d Suc.prems(1) by (auto simp: dupl_def Let_def same_input_def enlarge_def split: if_splits)
  have "repeat start (Suc (Suc k)) (Suc (Suc k)) p = repeat i (Suc k) (Suc k) q"
    using Suc.prems d by (subst repeat.simps) (simp add: INFINITY_def)
  then show ?case using Suc.IH [of q i] Suc.prems(2) q by (simp add: same_input_def)
qed

section \<open>Atoms\<close>

text \<open>What is read between brackets.\<close>

definition bracket_reads :: "string \<Rightarrow> bool" where
  "bracket_reads t \<longleftrightarrow> t \<noteq> [] \<and> hd t \<noteq> CHR ''['' \<and>
     (\<forall>p v. rest p = t @ v \<longrightarrow> perr p = None \<longrightarrow> (\<exists>neg cs. bracket_set p = (neg, p\<lparr>rest := v\<rparr>, cs)))"

lemmas bracket_eval =
  bracket_reads_def bracket_set_def bracket_terms.simps p_b_term_def p_b_range_def p_b_symbol_def EAT_def EATTWO_def
  SEE_def SEETWO_def MORE_def PEEK_def REQUIRE_def MUSTEAT_def NEXTn_def GETNEXT_def Let_def schar_def uch_def

lemma header_brackets:
  "bracket_reads ''0-9]''" "bracket_reads ([CHR '' '', tab] @ '']'')" "bracket_reads ('' |'' @ [tab] @ '']'')"
  "bracket_reads ''pc|eip]''" "bracket_reads ''0-9a-f]''" "bracket_reads (CHR ''^'' # newline # '']'')"
  by (simp_all add: bracket_eval tab_def newline_def) blast+

lemma one_char_went: "fine fl p \<Longrightarrow> went fl p (one_char c p) (rest p)"
  by (simp add: went_def fine_def one_char_def Let_def slen_emits new_category_def)

lemma ordinary_went: "fine fl p \<Longrightarrow> \<not> has_flag fl REG_ICASE \<Longrightarrow> went fl p (ordinary c p) (rest p)"
  using one_char_went [of fl p c] by (simp add: ordinary_def fine_def)

lemma bracket_went:
  assumes t: "bracket_reads t" and p: "fine fl p" "rest p = t @ v" and i: "\<not> has_flag fl REG_ICASE"
  shows "went fl p (p_bracket p) v"
proof -
  obtain no p1 where 1: "allocset p = (no, p1)" by fastforce
  then have p1: "fine fl p1" "rest p1 = t @ v" "slen p1 = slen p"
    using p by (auto simp: allocset_def Let_def fine_def with_sets_def)
  then obtain neg cs where 2: "bracket_set p1 = (neg, p1\<lparr>rest := v\<rparr>, cs)"
    using t unfolding bracket_reads_def fine_def by blast
  define p3 where "p3 = with_sets (\<lambda>ss. ss[no := finish_set fl neg cs]) (p1\<lparr>rest := v\<rparr>)"
  have p3: "fine fl p3" "rest p3 = v" "slen p3 = slen p" using p1 by (simp_all add: p3_def fine_def with_sets_def)
  obtain j p4 where 4: "freezeset no p3 = (j, p4)" by fastforce
  then have p4: "fine fl p4" "rest p4 = v" "slen p4 = slen p"
    using p3 by (auto simp: freezeset_def freeset_def with_sets_def fine_def Let_def split: list.splits)
  have w: "\<not> starts_with (rest p) ''[:<:]]''" "\<not> starts_with (rest p) ''[:>:]]''"
    using t p(2) by (cases t; auto simp: bracket_reads_def starts_with_iff)+
  have "p_bracket p = (if nch (finish_set fl neg cs) = 1 then freeset no (ordinary (firstch (finish_set fl neg cs)) p3)
      else doemit (OANYOF j) p4)"
    using w p1(1) by (simp add: p_bracket_def p_bracket_with_def 1 2 4 p3_def [symmetric] fine_def)
  moreover have "went fl p (freeset no (ordinary c p3)) v" for c
    using ordinary_went [OF p3(1) i, of c] p3 by (simp add: went_def fine_def freeset_def with_sets_def)
  moreover have "went fl p (doemit (OANYOF j) p4) v"
    using p4 slen_emits(1) by (simp add: went_def fine_def)
  ultimately show ?thesis by simp
qed

lemma dot_went:
  assumes "fine fl p" "\<not> has_flag fl REG_ICASE"
  shows "went fl p (emit_any p) (rest p)"
proof -
  let ?p = "p\<lparr>rest := CHR ''^'' # newline # '']'', beyond := nul\<rparr>"
  have "went fl ?p (p_bracket ?p) []"
    using bracket_went [OF header_brackets(6), of fl ?p "[]"] assms by (simp add: fine_def)
  then show ?thesis
    using assms slen_emits(1) by (simp add: emit_any_def nonnewline_def on_text_def went_def fine_def)
qed

text \<open>An atom without parentheses, read from a text.\<close>

definition atom_reads :: "u32 \<Rightarrow> string \<Rightarrow> bool" where
  "atom_reads fl a \<longleftrightarrow> a \<noteq> [] \<and> hd a \<notin> set ''|()'' \<and>
     (\<forall>p v. fine fl p \<longrightarrow> rest p = tl a @ v \<longrightarrow> went fl p (ere_simple (hd a) p) v)"

lemma atom_reads_intros:
  assumes i: "\<not> has_flag fl REG_ICASE"
  shows "\<not> special c \<Longrightarrow> c \<noteq> CHR ''{'' \<Longrightarrow> atom_reads fl [c]" "atom_reads fl ''.''"
    "bracket_reads t \<Longrightarrow> atom_reads fl (CHR ''['' # t)" "atom_reads fl [CHR 0x5C, c]"
proof -
  show "\<not> special c \<Longrightarrow> c \<noteq> CHR ''{'' \<Longrightarrow> atom_reads fl [c]" "atom_reads fl ''.''"
    "bracket_reads t \<Longrightarrow> atom_reads fl (CHR ''['' # t)"
    using i ordinary_went bracket_went dot_went by (auto simp: atom_reads_def ere_simple_def special_def)
  have "went fl p (ere_simple (CHR 0x5C) p) v" if "fine fl p" "rest p = c # v" for p v
    using ordinary_went [of fl "NEXTn 1 p" c] that i
    by (simp add: ere_simple_def GETNEXT_def PEEK_def REQUIRE_def MORE_def went_def fine_def NEXTn_def)
  then show "atom_reads fl [CHR 0x5C, c]" by (simp add: atom_reads_def)
qed

section \<open>Quantifiers\<close>

text \<open>What may follow an atom, with the text after it.\<close>

definition suffix_reads :: "string \<Rightarrow> string \<Rightarrow> bool" where
  "suffix_reads s v \<longleftrightarrow> unquantified v \<and> s \<in> {[], ''*'', ''+'', ''{8}''}"

lemma went_le: "went fl p q v \<Longrightarrow> slen p' \<le> slen p \<Longrightarrow> went fl p' q v"
  by (simp add: went_def)

lemma bounds_read:
  assumes p: "fine fl p" "rest p = ''8}'' @ v"
  shows "fine fl (ere_bounds n p) \<and> rest (ere_bounds n p) = v \<and> slen p \<le> slen (ere_bounds n p)"
proof -
  let ?p = "p\<lparr>rest := CHR ''}'' # v\<rparr>"
  have "p_counts False p = (8, 8, ?p)"
    using p by (simp add: p_counts_def p_count_def isdigit_def uch_def REQUIRE_def DUPMAX_def EAT_def SEE_def)
  moreover have "perr ?p = None" "7 < DUPMAX" using p by (simp_all add: fine_def DUPMAX_def)
  from repeat_exact [OF this, of n] have "perr (repeat n 8 8 ?p) = None" "same_input ?p (repeat n 8 8 ?p)"
    "slen p \<le> slen (repeat n 8 8 ?p)" by simp_all
  ultimately show ?thesis
    using p(1) by (simp add: ere_bounds_def ere_close_brace_def EAT_def SEE_def same_input_def fine_def NEXTn_def)
qed

lemma suffix_read:
  assumes p: "fine fl p" "rest p = s @ v" and s: "suffix_reads s v"
  shows "fine fl (ere_suffix n False p) \<and> rest (ere_suffix n False p) = v \<and> slen p \<le> slen (ere_suffix n False p)"
proof (cases s)
  case Nil
  then have "\<not> sees_repetition p" using p s by (simp add: suffix_reads_def unquantified_def)
  then show ?thesis using p Nil by (simp add: ere_suffix_def)
next
  case (Cons c s')
  let ?q = "ere_repeat c n (p\<lparr>rest := s' @ v\<rparr>)"
  have "fine fl ?q \<and> rest ?q = v \<and> slen p \<le> slen ?q"
    using s p Cons bounds_read [of fl "p\<lparr>rest := s' @ v\<rparr>" v n] slen_emits
    by (auto simp: suffix_reads_def ere_repeat_def emit_star_def emit_plus_def fine_def)
  moreover from this have "\<not> sees_repetition ?q" using s by (simp add: suffix_reads_def unquantified_def)
  moreover have "sees_repetition p" using s p Cons by (auto simp: suffix_reads_def sees_repetition_def isdigit_def uch_def)
  ultimately show ?thesis
    using p(2) Cons by (simp add: ere_suffix_def GETNEXT_def PEEK_def NEXTn_def REQUIRE_def Let_def)
qed

section \<open>Sequences and groups\<close>

text \<open>A piece of a text, and a sequence of pieces up to the rest of the text.\<close>

definition takes :: "u32 \<Rightarrow> string \<Rightarrow> string \<Rightarrow> bool" where
  "takes fl w v \<longleftrightarrow> w \<noteq> [] \<and> hd w \<notin> set ''|)'' \<and>
     (\<forall>n p q. p_ere_exp n p = Some q \<longrightarrow> fine fl p \<longrightarrow> rest p = w @ v \<longrightarrow> went fl p q v)"

definition reads :: "u32 \<Rightarrow> char option \<Rightarrow> string \<Rightarrow> string \<Rightarrow> bool" where
  "reads fl stop u v \<longleftrightarrow>
     (\<forall>n p q. ere_seq n stop p = Some q \<longrightarrow> fine fl p \<longrightarrow> rest p = u \<longrightarrow>
        fine fl q \<and> rest q = v \<and> (if u = v then slen p \<le> slen q else slen p < slen q))"

lemma takes_atom:
  assumes a: "atom_reads fl a" and s: "suffix_reads s v" and c: "hd a \<noteq> CHR ''^''"
  shows "takes fl (a @ s) v"
proof -
  have "went fl p q v" if h: "p_ere_exp n p = Some q" "fine fl p" "rest p = a @ s @ v" for n p q
  proof -
    obtain m where n: "n = Suc m" using h(1) by (cases n) auto
    obtain d p0 where g: "GETNEXT p = (d, p0)" by fastforce
    have "a \<noteq> []" "hd a \<noteq> CHR ''(''" using a by (auto simp: atom_reads_def)
    then have d: "d = hd a" "fine fl p0" "rest p0 = tl a @ s @ v" "slen p0 = slen p"
      using g h(2,3) by (cases a; auto simp: GETNEXT_def PEEK_def NEXTn_def fine_def)+
    then have "went fl p0 (ere_simple (hd a) p0) (s @ v)" using a unfolding atom_reads_def by blast
    moreover have "q = ere_suffix (slen p0) False (ere_simple d p0)"
      using p_ere_expE [OF h(1) [unfolded n] g] d(1) \<open>hd a \<noteq> CHR ''(''\<close> c by auto
    ultimately show ?thesis
      using suffix_read [of fl "ere_simple (hd a) p0" s v "slen p0"] s d by (simp add: went_def)
  qed
  then show ?thesis using a by (auto simp: takes_def atom_reads_def)
qed

lemma reads_end: "v = [] \<or> stop = Some (hd v) \<Longrightarrow> reads fl stop v v"
proof -
  assume v: "v = [] \<or> stop = Some (hd v)"
  have "q = p" if "ere_seq n stop p = Some q" "rest p = v" for n p q
  proof -
    have "\<not> (MORE p \<and> PEEK p \<noteq> CHR ''|'' \<and> stop \<noteq> Some (PEEK p))"
      using v \<open>rest p = v\<close> by (cases v) (auto simp: MORE_def PEEK_def)
    then show ?thesis using \<open>ere_seq n stop p = Some q\<close> by (cases n) auto
  qed
  then show ?thesis unfolding reads_def by fastforce
qed

lemma reads_step:
  assumes t: "takes fl w u" and r: "reads fl stop u v" and s: "stop \<in> {None, Some (CHR '')'')}" and l: "w @ u \<noteq> v"
  shows "reads fl stop (w @ u) v"
proof -
  have "fine fl q \<and> rest q = v \<and> slen p < slen q" if h: "ere_seq n stop p = Some q" "fine fl p" "rest p = w @ u" for n p q
  proof -
    have w: "w \<noteq> []" "hd w \<noteq> CHR ''|''" "hd w \<noteq> CHR '')''" using t by (auto simp: takes_def)
    then have "MORE p \<and> PEEK p \<noteq> CHR ''|'' \<and> stop \<noteq> Some (PEEK p)"
      using s h(3) by (cases w) (auto simp: MORE_def PEEK_def)
    then obtain m p1 where 1: "p_ere_exp m p = Some p1" "ere_seq m stop p1 = Some q"
      using h(1) by (cases n) (auto simp: bind_eq_Some_conv)
    then have "went fl p p1 u" using t h unfolding takes_def by blast
    then have "fine fl p1" "rest p1 = u" "slen p < slen p1" by (simp_all add: went_def)
    moreover from r 1(2) this(1,2) have "fine fl q \<and> rest q = v \<and> (if u = v then slen p1 \<le> slen q else slen p1 < slen q)"
      unfolding reads_def by blast
    ultimately show ?thesis by (auto split: if_splits)
  qed
  then show ?thesis using l unfolding reads_def by simp
qed

lemma reads_branches:
  assumes r: "reads fl stop u v" and l: "u \<noteq> v" and v: "v = [] \<or> hd v \<noteq> CHR ''|''"
    and b: "ere_branches n stop None p = Some q" "fine fl p" "rest p = u"
  shows "went fl p q v"
proof -
  obtain m where n: "n = Suc m" using b(1) by (cases n) auto
  from b(1) [unfolded n] show ?thesis
  proof (rule ere_branchesE)
    fix p1 bar p3
    assume a: "ere_seq m stop p = Some p1" "EAT (CHR ''|'') (REQUIRE (slen p1 \<noteq> slen p) REG_EMPTY p1) = (bar, p3)"
      "\<not> bar \<Longrightarrow> q = end_choice None p3"
    have p1: "fine fl p1" "rest p1 = v" "slen p < slen p1" using r a(1) b(2,3) l unfolding reads_def by metis+
    then have "REQUIRE (slen p1 \<noteq> slen p) REG_EMPTY p1 = p1" by (simp add: REQUIRE_def)
    then have "\<not> bar \<and> p3 = p1" using a(2) p1(2) v by (cases v) (auto simp: EAT_def SEE_def split: if_splits)
    then show "went fl p q v" using a(3) p1 by (simp add: end_choice_def went_def)
  qed
qed

lemma takes_group:
  assumes r: "reads fl (Some (CHR '')'')) (u @ CHR '')'' # s @ v) (CHR '')'' # s @ v)" and u: "u \<noteq> []" "hd u \<noteq> CHR '')''"
    and s: "suffix_reads s v"
  shows "takes fl (CHR ''('' # u @ CHR '')'' # s) v"
proof -
  have "went fl p q v" if h: "p_ere_exp n p = Some q" "fine fl p" "rest p = CHR ''('' # u @ CHR '')'' # s @ v" for n p q
  proof -
    obtain k where n: "n = Suc k" using h(1) by (cases n) auto
    define p0 where "p0 = NEXTn 1 p"
    have p0: "GETNEXT p = (CHR ''('', p0)" "fine fl p0" "rest p0 = u @ CHR '')'' # s @ v" "slen p0 = slen p"
      using h(2,3) by (simp_all add: GETNEXT_def PEEK_def NEXTn_def fine_def p0_def)
    then have more: "REQUIRE (MORE p0) REG_EPAREN p0 = p0" using u by (simp add: REQUIRE_def MORE_def)
    from h(1) [unfolded n] p0(1) show ?thesis
    proof (cases rule: p_ere_expE)
      case (group m p1 p2)
      have p1: "fine fl p1" "rest p1 = u @ CHR '')'' # s @ v" "slen p \<le> slen p1"
        using group(2) more p0 slen_emits(1) by (auto simp: open_paren_def Let_def fine_def with_guts_def)
      then have "ere_branches k (Some (CHR '')'')) None p1 = Some p2"
        using group(3) u by (cases u) (auto simp: SEE_def)
      from reads_branches [OF r _ _ this p1(1,2)] u have p2: "went fl p1 p2 (CHR '')'' # s @ v)" by simp
      define p4 where "p4 = MUSTEAT (CHR '')'') REG_EPAREN (close_paren m p2)"
      have "fine fl p4" "rest p4 = s @ v" "slen p < slen p4"
        using p2 p1(3) slen_emits(1)
        by (auto simp: p4_def MUSTEAT_def MORE_def PEEK_def REQUIRE_def NEXTn_def went_def fine_def close_paren_def Let_def)
      then show ?thesis
        using suffix_read [of fl p4 s v "slen p0"] s group(4) by (simp add: went_def p4_def [symmetric])
    qed simp
  qed
  then show ?thesis by (auto simp: takes_def)
qed

definition plain :: "char \<Rightarrow> bool" where
  "plain c \<longleftrightarrow> \<not> special c \<and> c \<noteq> CHR ''{''"

lemma reads_chars:
  assumes "\<not> has_flag fl REG_ICASE" "\<forall>c\<in>set cs. plain c" "reads fl stop u v" "unquantified u" "length v \<le> length u"
    and "stop \<in> {None, Some (CHR '')'')}"
  shows "reads fl stop (cs @ u) v"
  using assms(2)
proof (induction cs)
  case (Cons c cs)
  then have "unquantified (cs @ u)" using assms(4) by (cases cs) (auto simp: plain_def special_def)
  then have "suffix_reads [] (cs @ u)" by (simp add: suffix_reads_def)
  moreover have "atom_reads fl [c]" using atom_reads_intros(1) assms(1) Cons.prems by (simp add: plain_def)
  ultimately have "takes fl [c] (cs @ u)" using takes_atom [of fl "[c]" "[]" "cs @ u"] Cons.prems by (auto simp: plain_def special_def)
  moreover have "[c] @ cs @ u \<noteq> v" using assms(5) by auto
  ultimately show ?case using reads_step [of fl "[c]" "cs @ u" stop v] assms(6) Cons by simp
qed (use assms in simp)

lemma reads_atom:
  assumes "atom_reads fl a" "hd a \<noteq> CHR ''^''" "reads fl stop u v" "unquantified u" "s \<in> {[], ''*'', ''+'', ''{8}''}"
    and "length v \<le> length u" "stop \<in> {None, Some (CHR '')'')}"
  shows "reads fl stop (a @ s @ u) v"
proof -
  have "takes fl (a @ s) u" using takes_atom assms by (simp add: suffix_reads_def)
  moreover have "a \<noteq> []" using assms(1) by (simp add: atom_reads_def)
  then have "length v < length ((a @ s) @ u)" using assms(6) by (cases a) simp_all
  then have "(a @ s) @ u \<noteq> v" by auto
  ultimately show ?thesis using reads_step [of fl "a @ s" u stop v] assms by simp
qed

section \<open>The patterns\<close>

definition header_flags :: u32 where
  "header_flags = or REG_EXTENDED REG_NEWLINE"

lemma header_flags [simp]:
  "has_flag header_flags REG_EXTENDED" "\<not> has_flag header_flags REG_ICASE" "\<not> has_flag header_flags REG_NOSPEC"
  "\<not> has_flag header_flags REG_PEND" "\<not> has_flag header_flags REG_NOSUB" "and header_flags (not REG_DUMP) = header_flags"
  by (simp_all add: header_flags_def has_flag_def)

lemma pid_header_reads: "reads header_flags None pid_header []"
proof -
  let ?d = "CHR ''['' # ''0-9]''" and ?f = header_flags
  have d: "atom_reads ?f ?d" and dot: "atom_reads ?f ''.''" using atom_reads_intros(2,3) header_brackets(1) by simp_all
  have "reads ?f None (''.'' @ ''*'' @ []) []" using dot by - (rule reads_atom; simp add: reads_end)
  then have "reads ?f None (?d @ ''+'' @ ''.*'') []" using d by - (rule reads_atom; simp)
  then have "reads ?f None ('', tid: '' @ ''[0-9]+.*'') []" by - (rule reads_chars; simp add: plain_def special_def)
  then have "reads ?f None (?d @ ''+'' @ '', tid: [0-9]+.*'') []" using d by - (rule reads_atom; simp)
  then have "reads ?f None (''pid: '' @ ''[0-9]+, tid: [0-9]+.*'') []" by - (rule reads_chars; simp add: plain_def special_def)
  then show ?thesis by (simp add: pid_header_def)
qed

lemma sig_header_reads: "reads header_flags None sig_header []"
proof -
  let ?d = "CHR ''['' # ''0-9]''" and ?b = "CHR ''['' # [CHR '' '', tab] @ '']''" and ?f = header_flags
  have a: "atom_reads ?f ?d" "atom_reads ?f ?b" "atom_reads ?f ''l''"
    using atom_reads_intros(1,3) header_brackets(1,2) by (simp_all add: special_def)
  have "reads ?f None (?d @ ''+'' @ []) []" using a by - (rule reads_atom; simp add: reads_end)
  then have "reads ?f None (?b @ [] @ ''[0-9]+'') []" using a by - (rule reads_atom; simp)
  then have "reads ?f None (''l'' @ ''*'' @ ?b @ ''[0-9]+'') []" using a by - (rule reads_atom; simp)
  then have "reads ?f None (''signa'' @ ''l*'' @ ?b @ ''[0-9]+'') []"
    by - (rule reads_chars; simp add: plain_def special_def)
  then show ?thesis by (simp add: sig_header_def)
qed

lemma frame_header_reads: "reads header_flags None frame_header []"
proof -
  let ?d = "CHR ''['' # ''0-9]''" and ?x = "CHR ''['' # ''0-9a-f]''" and ?b = "CHR ''['' # '' |'' @ [tab] @ '']''"
    and ?e = "CHR ''['' # ''pc|eip]''" and ?f = header_flags
  have a: "atom_reads ?f ?d" "atom_reads ?f ?x" "atom_reads ?f ?b" "atom_reads ?f ?e" "atom_reads ?f '':''"
    "atom_reads ?f [CHR 0x5C, CHR ''#'']"
    using atom_reads_intros header_brackets by (simp_all add: special_def)
  have "reads ?f (Some (CHR '')'')) '')*'' '')*''" by (rule reads_end) simp
  then have "reads ?f (Some (CHR '')'')) (?x @ ''{8}'' @ '')*'') '')*''" using a by - (rule reads_atom; simp)
  then have "takes ?f (CHR ''('' # (?x @ ''{8}'') @ CHR '')'' # ''*'') []"
    by - (rule takes_group; simp add: suffix_reads_def)
  from reads_step [OF this reads_end] have "reads ?f None ''([0-9a-f]{8})*'' []" by simp
  then have "reads ?f None (?b @ ''+'' @ ''([0-9a-f]{8})*'') []" using a by - (rule reads_atom; simp)
  then have "reads ?f None ('':'' @ ''*'' @ ?b @ ''+([0-9a-f]{8})*'') []" using a by - (rule reads_atom; simp)
  then have "reads ?f None (?e @ ''+'' @ '':*'' @ ?b @ ''+([0-9a-f]{8})*'') []" using a by - (rule reads_atom; simp)
  then have "reads ?f None (?b @ ''+'' @ ?e @ ''+:*'' @ ?b @ ''+([0-9a-f]{8})*'') []" using a by - (rule reads_atom; simp)
  then have "reads ?f None (?d @ ''+'' @ ?b @ ''+'' @ ?e @ ''+:*'' @ ?b @ ''+([0-9a-f]{8})*'') []"
    using a by - (rule reads_atom; simp)
  then have "reads ?f None ([CHR 0x5C, CHR ''#''] @ [] @ ?d @ ''+'' @ ?b @ ''+'' @ ?e @ ''+:*'' @ ?b @ ''+([0-9a-f]{8})*'') []"
    using a by - (rule reads_atom; simp)
  then show ?thesis by (simp add: frame_header_def)
qed

definition headers :: "string list" where
  "headers = [pid_header, sig_header, frame_header]"

lemma header_chars:
  assumes "w \<in> set headers"
  shows "reads header_flags None w []" "w \<noteq> []" "nul \<notin> set w" "CHR ''^'' \<notin> set w" "CHR ''$'' \<notin> set w"
    "CHR ''<'' \<notin> set w" "CHR ''>'' \<notin> set w"
  using assms pid_header_reads sig_header_reads frame_header_reads
  by (auto simp: headers_def pid_header_def sig_header_def frame_header_def tab_def nul_def)

text \<open>A text without the anchors means something without anchors.\<close>

lemma text_no_anchor:
  "atom_text fl w e \<Longrightarrow> CHR ''^'' \<notin> set w \<and> CHR ''$'' \<notin> set w \<longrightarrow> no_anchor e"
  "piece_text fl w e \<Longrightarrow> CHR ''^'' \<notin> set w \<and> CHR ''$'' \<notin> set w \<longrightarrow> no_anchor e"
  "branch_text fl w e \<Longrightarrow> CHR ''^'' \<notin> set w \<and> CHR ''$'' \<notin> set w \<longrightarrow> no_anchor e"
  "ere_text fl w e \<Longrightarrow> CHR ''^'' \<notin> set w \<and> CHR ''$'' \<notin> set w \<longrightarrow> no_anchor e"
  by (induction rule: atom_text_piece_text_branch_text_ere_text.inducts) simp_all

lemma no_anchor_once: "no_anchor e \<Longrightarrow> anchors_once e"
  by (induction e) simp_all

lemma header_no_words: "w \<in> set headers \<Longrightarrow> no_words w"
  using header_chars(6,7) set_mono_sublist by (fastforce simp: no_words_def)

lemma compile_accepts:
  assumes r: "reads fl None w []" "w \<noteq> []" and f: "has_flag fl REG_EXTENDED"
    and c: "compile fl (initial_parse w after fl) = Some q"
  shows "perr q = None"
proof -
  define p1 where "p1 = doemit OEND (initial_parse w after fl)"
  define p2 where "p2 = with_guts (\<lambda>g. g\<lparr>firststate := THERE p1\<rparr>) p1"
  obtain p3 where b: "ere_branches (parse_depth (rest p2)) None None p2 = Some p3"
    and q: "q = with_guts (\<lambda>g. g\<lparr>laststate := THERE (doemit OEND p3)\<rparr>) (doemit OEND p3)"
    using c f by (auto simp: compile_def parse_pattern_def p_ere_def bind_eq_Some_conv Let_def p1_def p2_def)
  have "fine fl p2" "rest p2 = w"
    by (simp_all add: p2_def p1_def fine_def initial_parse_def initial_guts_def)
  from reads_branches [OF r(1) _ _ b this] r(2) have "went fl p2 p3 []" by simp
  then show ?thesis by (simp add: q went_def fine_def)
qed

lemma regcomp_accepts:
  assumes r: "reads fl None w []" "w \<noteq> []" "nul \<notin> set w" "no_words w"
    and f: "has_flag fl REG_EXTENDED" "\<not> has_flag fl REG_NOSPEC" "\<not> has_flag fl REG_PEND" "and fl (not REG_DUMP) = fl"
  obtains preg' where "RegComp.regcomp preg w fl = Some (None, preg')"
proof -
  have t: "pattern_text preg w fl = (w, nul)"
    using r(3) f(3) by (simp add: pattern_text_def c_string_def nul_def takeWhile_eq_all_conv) (metis)
  obtain q where q: "compile fl (initial_parse w nul fl) = Some q" using compile_returns by blast
  have e: "perr q = None" using compile_accepts [OF r(1,2) f(1) q] .
  from q e f(1) r(4) obtain s x where h: "holds q (OEND # code_of s @ [OEND])" and x: "implements (sets (pg q)) s x"
    and k: "kept (initial_guts fl) (pg q)" and l: "laststate (pg q) = length (code_of s) + 1"
    by (rule compile_ere)
  have "firststate (pg q) = 0" "must (pg q) = None" "\<not> bad (pg q)" "re_ok s"
    using k x by (simp_all add: kept_def initial_guts_def implements_def)
  with finish_guts_compiled(1) [OF h _ _ l] have "\<not> bad (finish_guts q)" by (simp add: compiled_def)
  then have "\<exists>preg'. RegComp.regcomp preg w fl = Some (None, preg')"
    unfolding regcomp_def f(4) Let_def using t q e f by simp
  then show thesis using that by blast
qed

section \<open>ndk-stack with the library\<close>

text \<open>
  The structure that \<open>CreateNdkCrashParser\<close> fills in for a pattern, the offset that \<open>MatchRegex\<close>
  reports, and the host that has these.
\<close>

definition header_regex :: "regex \<Rightarrow> string \<Rightarrow> regex option" where
  "header_regex preg w =
     (case RegComp.regcomp preg w header_flags of Some (None, preg') \<Rightarrow> Some preg' | _ \<Rightarrow> None)"

definition library_match :: "'w::len itself \<Rightarrow> regex \<Rightarrow> string \<Rightarrow> string \<Rightarrow> nat option" where
  "library_match W preg w line =
     (case header_regex preg w of
        None \<Rightarrow> None
      | Some preg' \<Rightarrow>
          (case RegEngine.regexec W preg' line 1 [(0, 0)] 0x400 of
             Some (None, (so, eo) # _) \<Rightarrow> Some (nat so)
           | _ \<Rightarrow> None))"

definition library_host :: "'w::len itself \<Rightarrow> regex \<Rightarrow> stack_host \<Rightarrow> stack_host" where
  "library_host W preg h =
     h\<lparr>stack_host.regcomp := \<lambda>w. header_regex preg w \<noteq> None, stack_host.regexec := library_match W preg\<rparr>"

lemma header_regcomp:
  assumes "w \<in> set headers"
  obtains preg' where "RegComp.regcomp preg w header_flags = Some (None, preg')"
  using regcomp_accepts [OF header_chars(1-3) [OF assms] header_no_words [OF assms]] header_flags by blast

lemma header_text: "w \<in> set headers \<Longrightarrow> fst (pattern_text preg w header_flags) = w"
  using header_chars(3) [of w] by (auto simp: pattern_text_def c_string_def nul_def takeWhile_eq_all_conv)

lemma line_matching:
  "beginp (matching preg line pm 0x400) = 0" "endp (matching preg line pm 0x400) = length line"
  by (simp_all add: matching_def GOODFLAGS_def has_flag_def)

text \<open>What an offset that is reported for a line means.\<close>

definition reported :: "regex \<Rightarrow> ere \<Rightarrow> string \<Rightarrow> nat option \<Rightarrow> bool" where
  "reported preg e line res \<longleftrightarrow>
     (let m = matching preg line [(0, 0)] 0x400
      in case res of
           None \<Rightarrow> \<not> has_match m (ematch m e)
         | Some so \<Rightarrow> \<exists>eo. chosen m (ematch m e) (starts_with_class e) so eo)"

lemma library_match_reported:
  assumes c: "RegComp.regcomp preg w header_flags = Some (None, preg')" "cflags (re_g preg') = header_flags"
    and e: "well_formed preg' r e" "anchors_once e"
  shows "reported preg' e line (library_match TYPE('w::len) preg w line)"
proof -
  define m where "m = matching preg' line [(0, 0)] 0x400"
  have "\<exists>res. RegEngine.regexec TYPE('w) preg' line 1 [(0, 0)] 0x400 = Some res \<and>
      search_result m (ematch m e) (starts_with_class e) 1 [(0, 0)] res"
    using well_formed_search [where 'w = 'w, OF e, of line "[(0, 0)]" "0x400" 1] c(2) line_matching unfolding m_def by simp
  then obtain res where x: "RegEngine.regexec TYPE('w) preg' line 1 [(0, 0)] 0x400 = Some res"
    "search_result m (ematch m e) (starts_with_class e) 1 [(0, 0)] res" by blast
  show ?thesis
  proof (cases "has_match m (ematch m e)")
    case True
    then obtain i j where "chosen m (ematch m e) (starts_with_class e) i j" "res = (None, [(int i, int j)])"
      using x(2) by (auto simp: search_result_def)
    then show ?thesis using x(1) c(1) by (auto simp: reported_def library_match_def header_regex_def m_def Let_def)
  next
    case False
    then have "res = (Some REG_NOMATCH, [(0, 0)])" using x(2) by (simp add: search_result_def)
    then show ?thesis using x(1) c(1) False by (simp add: reported_def library_match_def header_regex_def m_def)
  qed
qed

lemma header_reported:
  assumes w: "w \<in> set headers"
  obtains preg' e where "header_regex preg w = Some preg'" "ere_text header_flags w e"
    "\<forall>line. reported preg' e line (library_match TYPE('w::len) preg w line)"
proof -
  obtain preg' where c: "RegComp.regcomp preg w header_flags = Some (None, preg')" by (rule header_regcomp [OF w])
  have t: "fst (pattern_text preg w header_flags) = w" by (rule header_text [OF w])
  have n: "no_words (fst (pattern_text preg w header_flags))" unfolding t by (rule header_no_words [OF w])
  from c header_flags(1) n obtain r e where e: "ere_text header_flags w e" "well_formed preg' r e" "cflags (re_g preg') = header_flags"
    by (rule regcomp_ere) (simp only: t header_flags(6))
  have a: "anchors_once e" using text_no_anchor(4) [OF e(1)] header_chars(4,5) [OF w] no_anchor_once by blast
  have "header_regex preg w = Some preg'" using c by (simp add: header_regex_def)
  then show thesis using that e(1) library_match_reported [where 'w = 'w, OF c e(3,2) a] by blast
qed

text \<open>
  C7.  With its own library \<open>ndk-stack\<close> can create its parser, because the library accepts the
  three patterns for the lines of a dump.  For each of them, \<open>MatchRegex\<close> reports no match exactly
  for the lines of which no part matches the pattern, read as a word of the grammar; otherwise it
  reports where such a part begins.
\<close>

theorem library_headers:
  "CreateNdkCrashParser (library_host TYPE('w::len) preg h) True root =
     Some \<lparr>out_handle = [], sym_root = root, state = EXPECTS_CRASH_DUMP, open_files = 0\<rparr> \<and>
   list_all (\<lambda>w. \<exists>preg' e. header_regex preg w = Some preg' \<and> ere_text header_flags w e \<and>
     (\<forall>line. reported preg' e line (MatchRegex (library_host TYPE('w) preg h) line w))) headers"
proof
  have "header_regex preg w \<noteq> None" if "w \<in> set headers" for w
    by (rule header_reported [OF that, where 'w = 'w, of preg]) simp
  then show "CreateNdkCrashParser (library_host TYPE('w) preg h) True root =
      Some \<lparr>out_handle = [], sym_root = root, state = EXPECTS_CRASH_DUMP, open_files = 0\<rparr>"
    by (simp add: CreateNdkCrashParser_def library_host_def headers_def)
  have m: "MatchRegex (library_host TYPE('w) preg h) line w = library_match TYPE('w) preg w line" for line w
    by (simp add: MatchRegex_def library_host_def)
  show "list_all (\<lambda>w. \<exists>preg' e. header_regex preg w = Some preg' \<and> ere_text header_flags w e \<and>
     (\<forall>line. reported preg' e line (MatchRegex (library_host TYPE('w) preg h) line w))) headers"
    unfolding list_all_iff m
  proof
    fix w assume "w \<in> set headers"
    then show "\<exists>preg' e. header_regex preg w = Some preg' \<and> ere_text header_flags w e \<and>
      (\<forall>line. reported preg' e line (library_match TYPE('w) preg w line))"
      by (rule header_reported [where 'w = 'w]) blast
  qed
qed

section \<open>The pattern for process lines\<close>

definition blank_regex :: regex where
  "blank_regex = \<lparr>re_magic = 0, re_nsub = 0, re_endp = 0, re_g = initial_guts 0, g_magic = 0\<rparr>"

lemma pid_header_text: "fst (pattern_text blank_regex pid_header header_flags) = pid_header" "no_words pid_header"
  using header_text header_no_words by (simp_all add: headers_def)

theorem regcomp_typed_witness:
  "\<exists>preg r e. RegComp.regcomp blank_regex pid_header header_flags = Some (None, preg) \<and>
     (\<forall>x. ere_text header_flags pid_header x \<longleftrightarrow> x = e) \<and> well_formed preg r e"
proof -
  obtain preg where c: "RegComp.regcomp blank_regex pid_header header_flags = Some (None, preg)"
    by (rule header_regcomp [of pid_header]) (simp_all add: headers_def)
  from regcomp_typed [OF c header_flags(1)] c show ?thesis
    unfolding pid_header_text(1) header_flags(6) using pid_header_text(2) by blast
qed

theorem regcomp_regexec_witness:
  "\<exists>preg e. RegComp.regcomp blank_regex pid_header header_flags = Some (None, preg) \<and>
     (\<forall>x. ere_text header_flags pid_header x \<longleftrightarrow> x = e) \<and> searches TYPE(32) preg e"
proof -
  obtain preg where c: "RegComp.regcomp blank_regex pid_header header_flags = Some (None, preg)"
    by (rule header_regcomp [of pid_header]) (simp_all add: headers_def)
  from regcomp_regexec [where 'w = 32, OF c header_flags(1)] obtain e
    where e: "\<forall>x. ere_text header_flags pid_header x \<longleftrightarrow> x = e" "anchors_once e \<longrightarrow> searches TYPE(32) preg e"
    unfolding pid_header_text(1) header_flags(6) using pid_header_text(2) by blast
  then have "ere_text header_flags pid_header e" by blast
  from text_no_anchor(4) [OF this] have "anchors_once e" using no_anchor_once by (simp add: pid_header_def)
  then show ?thesis using c e by blast
qed

end
