(* ===== verification/Toolbox.thy ===== *)
theory Toolbox
  imports NdkPrelude
begin

text \<open>
  The small programs for Windows hosts: \<open>cmp\<close> and \<open>echo\<close>
  (\<open>sources/host-tools/toolbox\<close>) and the wrapper around the debugger
  (\<open>sources/host-tools/gdb-stub\<close>).  The arguments that \<open>CommandLineToArgvW\<close> gives, the
  files and the answers of the Windows API are arguments of the model.
\<close>

section \<open>cmp\<close>

definition BUFSIZE :: nat where
  "BUFSIZE = 4096"

text \<open>The loop: both files are read in blocks until they differ or the first one ends.\<close>

function cmp_loop :: "char list \<Rightarrow> char list \<Rightarrow> int" where
  "cmp_loop f1 f2 =
     (let buf1 = take BUFSIZE f1; buf2 = take BUFSIZE f2;
          n1 = length buf1; n2 = length buf2;
          ret = (n1 \<noteq> n2 \<or> take n1 buf1 \<noteq> take n1 buf2)
      in if \<not> ret \<and> n1 = BUFSIZE then cmp_loop (drop BUFSIZE f1) (drop BUFSIZE f2)
         else if ret then 1 else 0)"
  by pat_completeness auto
termination
  by (relation "measure (\<lambda>(f1, f2). length f1)") (auto simp: BUFSIZE_def)

declare cmp_loop.simps [simp del]

text \<open>The status and what is printed.\<close>

definition cmp_main :: "(string \<Rightarrow> char list option) \<Rightarrow> string list \<Rightarrow> int \<times> string" where
  "cmp_main tfopen argv0 =
     (let argv = (if length argv0 > 1 \<and> argv0 ! 1 = ''-s'' then tl argv0 else argv0)
      in if length argv \<noteq> 3 then (1, ''Usage: cmp [-s] file1 file2'' @ [newline])
         else case tfopen (argv ! 1) of
           None \<Rightarrow> (1, ''ERROR: can'' @ [CHR 0x27] @ ''t open file '' @ argv ! 1 @ [newline])
         | Some f1 \<Rightarrow>
             (case tfopen (argv ! 2) of
                None \<Rightarrow> (1, ''ERROR: can'' @ [CHR 0x27] @ ''t open file '' @ argv ! 2 @ [newline])
              | Some f2 \<Rightarrow> (cmp_loop f1 f2, [])))"

lemma cmp_loop_step:
  "cmp_loop f1 f2 =
     (if take BUFSIZE f1 \<noteq> take BUFSIZE f2 then 1
      else if length (take BUFSIZE f1) = BUFSIZE then cmp_loop (drop BUFSIZE f1) (drop BUFSIZE f2) else 0)"
proof -
  have "(length b1 \<noteq> length b2 \<or> take (length b1) b1 \<noteq> take (length b1) b2) \<longleftrightarrow> b1 \<noteq> b2" for b1 b2 :: "char list"
    by auto
  then show ?thesis
    by (subst cmp_loop.simps) (auto simp: Let_def simp del: length_take take_take)
qed

lemma cmp_loop_equal: "cmp_loop f1 f2 = (if f1 = f2 then 0 else 1)"
proof (induction f1 f2 rule: cmp_loop.induct)
  case (1 f1 f2)
  consider "take BUFSIZE f1 \<noteq> take BUFSIZE f2"
    | "take BUFSIZE f1 = take BUFSIZE f2" "length (take BUFSIZE f1) = BUFSIZE"
    | "take BUFSIZE f1 = take BUFSIZE f2" "length (take BUFSIZE f1) < BUFSIZE"
    by fastforce
  then show ?case
  proof cases
    case 1
    then show ?thesis
      by (auto simp: cmp_loop_step [of f1])
  next
    case 2
    then have "cmp_loop f1 f2 = cmp_loop (drop BUFSIZE f1) (drop BUFSIZE f2)"
      by (simp add: cmp_loop_step [of f1] del: length_take)
    also have "\<dots> = (if drop BUFSIZE f1 = drop BUFSIZE f2 then 0 else 1)"
      using 2 by (intro "1.IH" [OF refl refl refl refl refl]) (simp del: length_take)
    also have "drop BUFSIZE f1 = drop BUFSIZE f2 \<longleftrightarrow> f1 = f2"
      using 2(1) by (metis append_take_drop_id)
    finally show ?thesis .
  next
    case 3
    then have "length (take BUFSIZE f2) < BUFSIZE"
      by simp
    with 3(2) have "take BUFSIZE f1 = f1" "take BUFSIZE f2 = f2"
      by simp_all
    with 3 show ?thesis
      by (subst cmp_loop_step) simp
  qed
qed

section \<open>echo\<close>

fun echo_words :: "string \<Rightarrow> string list \<Rightarrow> string" where
  "echo_words comma [] = []"
| "echo_words comma (arg # args) = comma @ arg @ echo_words '' '' args"

definition echo_main :: "string list \<Rightarrow> int \<times> string" where
  "echo_main argv0 =
     (let flagNoNewline = (length argv0 > 1 \<and> argv0 ! 1 = ''-n'');
          argv = (if flagNoNewline then tl argv0 else argv0)
      in (0, echo_words [] (tl argv) @ (if flagNoNewline then [] else [newline])))"

text \<open>The words of a line that is split at the spaces, every space being a border.\<close>

fun split_spaces :: "string \<Rightarrow> string \<Rightarrow> string list" where
  "split_spaces acc [] = [acc]"
| "split_spaces acc (c # cs) = (if c = CHR '' '' then acc # split_spaces [] cs else split_spaces (acc @ [c]) cs)"

lemma split_spaces_word: "CHR '' '' \<notin> set w \<Longrightarrow> split_spaces acc (w @ cs) = split_spaces (acc @ w) cs"
  by (induction w arbitrary: acc) auto

lemma split_spaces_last: "CHR '' '' \<notin> set w \<Longrightarrow> split_spaces acc w = [acc @ w]"
  using split_spaces_word [of w acc "[]"] by simp

lemma split_echo_words:
  "args \<noteq> [] \<Longrightarrow> list_all (\<lambda>a. CHR '' '' \<notin> set a) args \<Longrightarrow> split_spaces acc (echo_words [] args) = (acc @ hd args) # tl args"
proof (induction args arbitrary: acc)
  case (Cons a args)
  have tail: "echo_words '' '' args = (if args = [] then [] else CHR '' '' # echo_words [] args)"
    by (cases args) simp_all
  show ?case
    using Cons.prems Cons.IH [of "[]"] by (cases "args = []") (simp_all add: tail split_spaces_word split_spaces_last)
qed simp

text \<open>
  C30.  \<open>cmp\<close> returns 0 exactly when it was given two files that can be opened and have the
  same content, and 1 otherwise; it prints something exactly when it was not given two
  files that can be opened.
\<close>

theorem cmp_compares:
  "cmp_main tfopen argv =
     (case (if length argv > 1 \<and> argv ! 1 = ''-s'' then tl argv else argv) of
        [_, a, b] \<Rightarrow>
          (case (tfopen a, tfopen b) of
             (Some f1, Some f2) \<Rightarrow> (if f1 = f2 then 0 else 1, [])
           | (Some _, None) \<Rightarrow> (1, ''ERROR: can'' @ [CHR 0x27] @ ''t open file '' @ b @ [newline])
           | (None, _) \<Rightarrow> (1, ''ERROR: can'' @ [CHR 0x27] @ ''t open file '' @ a @ [newline]))
      | _ \<Rightarrow> (1, ''Usage: cmp [-s] file1 file2'' @ [newline]))"
  unfolding cmp_main_def Let_def by (simp add: cmp_loop_equal split: list.split option.split)

text \<open>
  What \<open>echo\<close> prints, without the newline, splits at the spaces into the arguments it was
  given, when they contain no spaces and the first one is not the option.
\<close>

theorem echo_roundtrip:
  assumes "args \<noteq> []" and "hd args \<noteq> ''-n''" and "list_all (\<lambda>a. CHR '' '' \<notin> set a) args"
  shows "\<exists>text. echo_main (prog # args) = (0, text @ [newline]) \<and> split_spaces [] text = args"
  using assms split_echo_words [OF assms(1,3), of "[]"]
  by (cases args) (auto simp: echo_main_def Let_def)

theorem echo_roundtrip_witness:
  "\<exists>text. echo_main [''echo'', ''a'', ''bc''] = (0, text @ [newline]) \<and> split_spaces [] text = [''a'', ''bc'']"
  using echo_roundtrip [of "[''a'', ''bc'']" "''echo''"] by simp

section \<open>The debugger wrapper\<close>

definition GDB_TO_PYTHON_REL_DIR :: string where
  "GDB_TO_PYTHON_REL_DIR = ''..'' @ [CHR 0x5C] @ ''opt'' @ [CHR 0x5C] @ ''bin''"

definition GDB_EXECUTABLE_ORIG_FILENAME :: string where
  "GDB_EXECUTABLE_ORIG_FILENAME = ''gdborig.exe''"

definition PYTHONHOME_REL_DIR :: string where
  "PYTHONHOME_REL_DIR = ''..'' @ [CHR 0x5C] @ ''opt''"

definition envbufsize :: nat where
  "envbufsize = 1024 * 32"

definition exebufsize :: nat where
  "exebufsize = 1024"

definition cmdbufsize :: nat where
  "cmdbufsize = envbufsize"

text \<open>
  What Windows answers: the two allocations and the third one, the value of \<open>PATH\<close> and the
  path of the program (\<open>None\<close> for a failure), whether the variables can be set, the job
  object, and the exit status of the process that is started with a command line and
  an environment.
\<close>

record windows =
  malloc_ok :: "bool \<times> bool \<times> bool"
  path_variable :: "string option"
  module_file_name :: "string option"
  set_variable_ok :: "string \<Rightarrow> bool"
  create_job_ok :: bool
  set_job_ok :: bool
  assign_job_ok :: bool
  create_process :: "string \<Rightarrow> (string \<times> string) list \<Rightarrow> int option"
  exit_code_ok :: bool

text \<open>The end of the program: a failed check, by its line, or the status with the messages.\<close>

datatype stub_end = Died nat | Returned int "string list"

text \<open>
  The command line: each argument is printed behind the text so far and followed by a space,
  as much as the buffer holds.
\<close>

definition append_arg :: "string \<Rightarrow> string \<Rightarrow> string" where
  "append_arg cmdbuf arg = cmdbuf @ take (cmdbufsize - length cmdbuf - 1) (arg @ '' '')"

definition stub_command :: "string \<Rightarrow> string list \<Rightarrow> string" where
  "stub_command dir args = foldl append_arg (dir @ GDB_EXECUTABLE_ORIG_FILENAME @ '' '') args"

definition stub_environment :: "string \<Rightarrow> string \<Rightarrow> (string \<times> string) list" where
  "stub_environment dir path =
     [(''PATH'', dir @ GDB_TO_PYTHON_REL_DIR @ '';'' @ path), (''PYTHONHOME'', dir @ PYTHONHOME_REL_DIR)]"

text \<open>The part after the environment is set: the job object, the process and its status.\<close>

definition stub_run :: "windows \<Rightarrow> string \<Rightarrow> (string \<times> string) list \<Rightarrow> stub_end" where
  "stub_run w cmdbuf env =
     (let errs1 = (if \<not> create_job_ok w then [''Could not create job object'' @ [newline]]
                   else if \<not> set_job_ok w then [''Could not SetInformationJobObject'' @ [newline]] else [])
      in case create_process w cmdbuf env of
           None \<Rightarrow> Died 169
         | Some exitCode \<Rightarrow>
             (let errs2 = (if create_job_ok w \<and> \<not> assign_job_ok w
                           then errs1 @ [''Could not AssignProcessToObject'' @ [newline]] else errs1)
              in if \<not> exit_code_ok w then Died 194 else Returned exitCode errs2))"

definition gdb_stub :: "windows \<Rightarrow> string list \<Rightarrow> stub_end" where
  "gdb_stub w argv =
     (if \<not> fst (malloc_ok w) then Died 87
      else if \<not> fst (snd (malloc_ok w)) then Died 90
      else case path_variable w of
        None \<Rightarrow> Died 95
      | Some envbuf \<Rightarrow>
          (case module_file_name w of
             None \<Rightarrow> Died 100
           | Some module \<Rightarrow>
               (case strrchr (CHR 0x5C) module of
                  None \<Rightarrow> Died 105
                | Some i \<Rightarrow>
                    (let dir = take (i + 1) module
                     in if \<not> snd (snd (malloc_ok w)) then Died 116
                        else if \<not> set_variable_ok w ''PATH'' then Died 125
                        else if \<not> set_variable_ok w ''PYTHONHOME'' then Died 132
                        else stub_run w (stub_command dir (tl argv)) (stub_environment dir envbuf)))))"

lemma append_arg_length: "length cmd < cmdbufsize \<Longrightarrow> length (append_arg cmd arg) < cmdbufsize"
  by (auto simp: append_arg_def)

lemma append_arg_take:
  "length cmd < cmdbufsize \<Longrightarrow> append_arg cmd arg = take (cmdbufsize - 1) (cmd @ arg @ '' '')"
  by (simp add: append_arg_def)

lemma take_take_append: "take n (take n xs @ ys) = take n (xs @ ys)"
  by (cases "length xs \<le> n") simp_all

lemma foldl_append_arg:
  "length cmd < cmdbufsize \<Longrightarrow> foldl append_arg cmd args = take (cmdbufsize - 1) (cmd @ concat (map (\<lambda>a. a @ '' '') args))"
proof (induction args arbitrary: cmd)
  case (Cons a args)
  have "foldl append_arg cmd (a # args) = foldl append_arg (append_arg cmd a) args"
    by simp
  also have "\<dots> = take (cmdbufsize - 1) (append_arg cmd a @ concat (map (\<lambda>a. a @ '' '') args))"
    using Cons.prems by (intro Cons.IH append_arg_length)
  also have "\<dots> = take (cmdbufsize - 1) (cmd @ concat (map (\<lambda>a. a @ '' '') (a # args)))"
    using Cons.prems by (simp add: append_arg_take take_take_append del: take_append)
  finally show ?case .
qed simp

text \<open>
  The wrapper starts the real debugger from its own directory with its arguments, each
  followed by a space, cut to the size of its buffer; the buffer is never overrun.
\<close>

theorem stub_command_line:
  assumes "length dir \<le> exebufsize"
  shows "stub_command dir args =
      take (cmdbufsize - 1) (dir @ ''gdborig.exe '' @ concat (map (\<lambda>a. a @ '' '') args))
    \<and> length (stub_command dir args) < cmdbufsize"
proof -
  have "length (dir @ GDB_EXECUTABLE_ORIG_FILENAME @ '' '') < cmdbufsize"
    using assms by (simp add: exebufsize_def cmdbufsize_def envbufsize_def GDB_EXECUTABLE_ORIG_FILENAME_def)
  then show ?thesis
    using foldl_append_arg [of "dir @ GDB_EXECUTABLE_ORIG_FILENAME @ '' ''" args]
    by (simp add: stub_command_def GDB_EXECUTABLE_ORIG_FILENAME_def del: take_append)
qed

theorem stub_command_line_witness:
  "stub_command ''C:'' [''a'', ''b''] = ''C:gdborig.exe a b ''"
  using stub_command_line [of "''C:''" "[''a'', ''b'']"] by (simp add: exebufsize_def cmdbufsize_def envbufsize_def)

text \<open>
  A defect: the arguments are not quoted, so that an argument with a space cannot be
  told from two arguments.
\<close>

theorem stub_arguments_merge:
  "stub_command dir [''a b''] = stub_command dir [''a'', ''b''] \<or> exebufsize < length dir"
proof (cases "length dir \<le> exebufsize")
  case True
  then have "length (dir @ GDB_EXECUTABLE_ORIG_FILENAME @ '' '') < cmdbufsize"
    by (simp add: exebufsize_def cmdbufsize_def envbufsize_def GDB_EXECUTABLE_ORIG_FILENAME_def)
  then show ?thesis
    using foldl_append_arg [of "dir @ GDB_EXECUTABLE_ORIG_FILENAME @ '' ''" "[''a b'']"]
      foldl_append_arg [of "dir @ GDB_EXECUTABLE_ORIG_FILENAME @ '' ''" "[''a'', ''b'']"]
    by (simp add: stub_command_def del: take_append)
qed simp

end
