(* ===== verification/WideStrings.thy ===== *)
theory WideStrings
  imports NdkPrelude
begin

text \<open>
  The support library for old platforms (\<open>sources/android/support/src\<close>): the numeric
  conversions of wide strings (\<open>wcstox.cpp\<close>), the formatted output to wide strings
  (\<open>swprintf.cpp\<close>), \<open>posix_memalign\<close> and the conversions with a locale
  (\<open>locale_support.cpp\<close>).

  Wide characters are code points (the code assumes UTF-32 and UTF-8); a wide string is the
  list of its characters before the terminator.  \<open>wcsrtombs\<close>, \<open>mbsrtowcs\<close> and the integer
  conversions of the C library are modelled; the formatting of \<open>vsnprintf\<close> and the
  conversions to floating point are arguments.
\<close>

type_synonym wchar = nat

section \<open>UTF-8\<close>

definition valid_wchar :: "wchar \<Rightarrow> bool" where
  "valid_wchar c \<longleftrightarrow> 0 < c \<and> c < 0x110000 \<and> \<not> (0xD800 \<le> c \<and> c \<le> 0xDFFF)"

definition wcrtomb :: "wchar \<Rightarrow> char list" where
  "wcrtomb c =
     (if c < 0x80 then [char_of c]
      else if c < 0x800 then [char_of (0xC0 + c div 64), char_of (0x80 + c mod 64)]
      else if c < 0x10000 then [char_of (0xE0 + c div 4096), char_of (0x80 + c div 64 mod 64), char_of (0x80 + c mod 64)]
      else [char_of (0xF0 + c div 262144), char_of (0x80 + c div 4096 mod 64), char_of (0x80 + c div 64 mod 64),
            char_of (0x80 + c mod 64)])"

text \<open>The whole string; \<open>None\<close> when a character cannot be encoded.\<close>

definition wcsrtombs :: "wchar list \<Rightarrow> char list option" where
  "wcsrtombs wcs = (if list_all valid_wchar wcs then Some (concat (map wcrtomb wcs)) else None)"

definition byte :: "char \<Rightarrow> nat" where
  "byte c = of_char c"

definition continuation :: "char \<Rightarrow> bool" where
  "continuation c \<longleftrightarrow> byte c div 64 = 2"

text \<open>The first character of a multibyte string, and its length in bytes.\<close>

fun mbrtowc :: "char list \<Rightarrow> (wchar \<times> nat) option" where
  "mbrtowc [] = None"
| "mbrtowc (a # bs) =
     (if byte a < 0x80 then Some (byte a, 1)
      else if byte a div 32 = 6 then
        (case bs of b # _ \<Rightarrow>
           let c = byte a mod 32 * 64 + byte b mod 64
           in if continuation b \<and> 0x80 \<le> c then Some (c, 2) else None
         | _ \<Rightarrow> None)
      else if byte a div 16 = 14 then
        (case bs of b # d # _ \<Rightarrow>
           let c = byte a mod 16 * 4096 + byte b mod 64 * 64 + byte d mod 64
           in if continuation b \<and> continuation d \<and> 0x800 \<le> c \<and> valid_wchar c then Some (c, 3) else None
         | _ \<Rightarrow> None)
      else if byte a div 8 = 30 then
        (case bs of b # d # e # _ \<Rightarrow>
           let c = byte a mod 8 * 262144 + byte b mod 64 * 4096 + byte d mod 64 * 64 + byte e mod 64
           in if continuation b \<and> continuation d \<and> continuation e \<and> 0x10000 \<le> c \<and> valid_wchar c
              then Some (c, 4) else None
         | _ \<Rightarrow> None)
      else None)"

text \<open>
  \<open>mbsrtowcs\<close> with room for a number of wide characters: the characters, and whether the end of
  the string was reached; \<open>None\<close> for an illegal sequence.
\<close>

fun mbsrtowcs :: "nat \<Rightarrow> char list \<Rightarrow> (wchar list \<times> bool) option" where
  "mbsrtowcs 0 bs = Some ([], False)"
| "mbsrtowcs (Suc len) [] = Some ([], True)"
| "mbsrtowcs (Suc len) bs =
     (case mbrtowc bs of
        None \<Rightarrow> None
      | Some (c, n) \<Rightarrow>
          (case mbsrtowcs len (drop n bs) of None \<Rightarrow> None | Some (ws, ended) \<Rightarrow> Some (c # ws, ended)))"

text \<open>With a null destination all characters are counted; there are at most as many as bytes.\<close>

definition mbsrtowcs_count :: "char list \<Rightarrow> nat option" where
  "mbsrtowcs_count bs = map_option (length \<circ> fst) (mbsrtowcs (Suc (length bs)) bs)"

lemma byte_char_of [simp]: "n < 256 \<Longrightarrow> byte (char_of n) = n"
  by (simp add: byte_def)

lemma wcrtomb_length: "0 < length (wcrtomb c) \<and> length (wcrtomb c) \<le> 4"
  by (simp add: wcrtomb_def)

lemma wcrtomb_ascii: "c < 0x80 \<Longrightarrow> wcrtomb c = [char_of c]"
  by (simp add: wcrtomb_def)

lemma div_mod_offset: "x < b \<Longrightarrow> (k * b + x) div b = k" "x < b \<Longrightarrow> (k * b + x) mod b = x" for x b k :: nat
  by simp_all

lemma continuation_byte:
  assumes "x < 64"
  shows "byte (char_of (128 + x)) = 128 + x" "(128 + x) div 64 = 2" "(128 + x) mod 64 = x"
  using assms div_mod_offset [OF assms, of 2] by simp_all

lemma lead_byte_2:
  assumes "x < 32"
  shows "byte (char_of (192 + x)) = 192 + x" "(192 + x) div 32 = 6" "(192 + x) mod 32 = x"
  using assms div_mod_offset [OF assms, of 6] by simp_all

lemma lead_byte_3:
  assumes "x < 16"
  shows "byte (char_of (224 + x)) = 224 + x" "(224 + x) div 16 = 14" "(224 + x) mod 16 = x" "(224 + x) div 32 = 7"
proof -
  show "(224 + x) div 32 = 7"
    using assms div_mod_offset(1) [of x 32 7] by simp
qed (use assms div_mod_offset [OF assms, of 14] in simp_all)

lemma lead_byte_4:
  assumes "x < 8"
  shows "byte (char_of (240 + x)) = 240 + x" "(240 + x) div 8 = 30" "(240 + x) mod 8 = x" "(240 + x) div 16 = 15"
    "(240 + x) div 32 = 7"
proof -
  show "(240 + x) div 16 = 15"
    using assms div_mod_offset(1) [of x 16 15] by simp
  show "(240 + x) div 32 = 7"
    using assms div_mod_offset(1) [of "16 + x" 32 7] by simp
qed (use assms div_mod_offset [OF assms, of 30] in simp_all)

lemmas lead_byte = lead_byte_2 lead_byte_3 lead_byte_4

lemma wchar_parts:
  "c div 64 * 64 + c mod 64 = c" "c div 4096 * 4096 + c div 64 mod 64 * 64 + c mod 64 = c"
  "c div 262144 * 262144 + c div 4096 mod 64 * 4096 + c div 64 mod 64 * 64 + c mod 64 = c" for c :: nat
proof -
  show 1: "c div 64 * 64 + c mod 64 = c" for c :: nat
    by simp
  have 64: "c div 4096 = c div 64 div 64" for c :: nat
    by (simp flip: div_mult2_eq)
  show 2: "c div 4096 * 4096 + c div 64 mod 64 * 64 + c mod 64 = c" for c :: nat
    unfolding 64 using 1 [of c] 1 [of "c div 64"] by linarith
  have "c div 262144 = c div 4096 div 64"
    by (simp flip: div_mult2_eq)
  then show "c div 262144 * 262144 + c div 4096 mod 64 * 4096 + c div 64 mod 64 * 64 + c mod 64 = c"
    using 2 [of c] 1 [of "c div 4096"] by linarith
qed

lemma mbrtowc_wcrtomb:
  assumes "valid_wchar c"
  shows "mbrtowc (wcrtomb c @ bs) = Some (c, length (wcrtomb c))"
proof -
  consider "c < 0x80" | "0x80 \<le> c" "c < 0x800" | "0x800 \<le> c" "c < 0x10000" | "0x10000 \<le> c" "c < 0x110000"
    using assms unfolding valid_wchar_def by linarith
  then show ?thesis
  proof cases
    case 2
    then have "c div 64 < 32"
      by simp
    with 2 show ?thesis
      by (simp add: wcrtomb_def continuation_def Let_def lead_byte continuation_byte wchar_parts)
  next
    case 3
    then have "c div 4096 < 16"
      by simp
    with 3 assms show ?thesis
      by (simp add: wcrtomb_def continuation_def Let_def lead_byte continuation_byte wchar_parts)
  next
    case 4
    then have "c div 262144 < 8"
      by simp
    with 4 assms show ?thesis
      by (simp add: wcrtomb_def continuation_def Let_def lead_byte continuation_byte wchar_parts)
  qed (simp add: wcrtomb_def)
qed

text \<open>Decoding gives the encoded characters back, as many as there is room for.\<close>

lemma mbsrtowcs_wcrtomb:
  "list_all valid_wchar wcs \<Longrightarrow>
    mbsrtowcs len (concat (map wcrtomb wcs)) = Some (take len wcs, length wcs < len)"
proof (induction wcs arbitrary: len)
  case Nil
  then show ?case
    by (cases len) simp_all
next
  case (Cons c wcs)
  show ?case
  proof (cases len)
    case (Suc n)
    obtain b bs where bs: "wcrtomb c = b # bs"
      using wcrtomb_length [of c] by (cases "wcrtomb c") auto
    have "mbrtowc (wcrtomb c @ concat (map wcrtomb wcs)) = Some (c, length (wcrtomb c))"
      using Cons.prems by (simp add: mbrtowc_wcrtomb)
    then show ?thesis
      using Cons Suc by (simp add: bs)
  qed simp
qed

lemma mbsrtowcs_count_wcrtomb:
  assumes "list_all valid_wchar wcs"
  shows "mbsrtowcs_count (concat (map wcrtomb wcs)) = Some (length wcs)"
proof -
  have "length wcs \<le> length (concat (map wcrtomb wcs))"
  proof (induction wcs)
    case (Cons c wcs)
    then show ?case
      using wcrtomb_length [of c] by (simp del: length_greater_0_conv)
  qed simp
  with assms show ?thesis
    by (simp add: mbsrtowcs_count_def mbsrtowcs_wcrtomb)
qed

section \<open>The integer conversions of the C library\<close>

definition EINVAL :: int where "EINVAL = 22"
definition ERANGE :: int where "ERANGE = 34"
definition EILSEQ :: int where "EILSEQ = 84"

text \<open>A conversion gives a value, the number of bytes it consumed and perhaps an error number.\<close>

type_synonym 'v conversion = "char list \<Rightarrow> int \<Rightarrow> 'v \<times> nat \<times> int option"

definition isspace :: "char \<Rightarrow> bool" where
  "isspace c \<longleftrightarrow> byte c = 32 \<or> 9 \<le> byte c \<and> byte c \<le> 13"

definition digit_value :: "char \<Rightarrow> nat" where
  "digit_value c =
     (if 48 \<le> byte c \<and> byte c \<le> 57 then byte c - 48
      else if 97 \<le> byte c \<and> byte c \<le> 122 then byte c - 87
      else if 65 \<le> byte c \<and> byte c \<le> 90 then byte c - 55
      else 36)"

definition digits_value :: "nat \<Rightarrow> char list \<Rightarrow> nat" where
  "digits_value base ds = foldl (\<lambda>v d. v * base + digit_value d) 0 ds"

text \<open>The base and the length of the prefix that announces it.\<close>

definition base_prefix :: "int \<Rightarrow> char list \<Rightarrow> nat \<times> nat" where
  "base_prefix base t =
     (if (base = 0 \<or> base = 16) \<and> length t > 2 \<and> byte (t ! 0) = 48 \<and> byte (t ! 1) \<in> {88, 120} \<and> digit_value (t ! 2) < 16
      then (16, 2)
      else if base = 0 then (if t \<noteq> [] \<and> byte (hd t) = 48 then 8 else 10, 0)
      else (nat base, 0))"

text \<open>The sign, the absolute value and the number of bytes; \<open>None\<close> when there are no digits.\<close>

definition strto_parse :: "char list \<Rightarrow> int \<Rightarrow> (bool \<times> nat \<times> nat) option" where
  "strto_parse s base =
     (let i = length (takeWhile isspace s);
          t = drop i s;
          j = (if t \<noteq> [] \<and> byte (hd t) \<in> {43, 45} then 1 else 0);
          neg = (t \<noteq> [] \<and> byte (hd t) = 45);
          (b, k) = base_prefix base (drop j t);
          ds = takeWhile (\<lambda>c. digit_value c < b) (drop (j + k) t)
      in if ds = [] then None else Some (neg, digits_value b ds, i + j + k + length ds))"

definition valid_base :: "int \<Rightarrow> bool" where
  "valid_base base \<longleftrightarrow> base = 0 \<or> 2 \<le> base \<and> base \<le> 36"

text \<open>Signed conversion to a number of bits: it saturates.  Unsigned: a sign negates.\<close>

definition strto_signed :: "nat \<Rightarrow> int conversion" where
  "strto_signed w s base =
     (if \<not> valid_base base then (0, 0, Some EINVAL)
      else case strto_parse s base of
        None \<Rightarrow> (0, 0, None)
      | Some (neg, v, n) \<Rightarrow>
          let x = (if neg then - int v else int v)
          in if x < - (2 ^ (w - 1)) then (- (2 ^ (w - 1)), n, Some ERANGE)
             else if 2 ^ (w - 1) \<le> x then (2 ^ (w - 1) - 1, n, Some ERANGE)
             else (x, n, None))"

definition strto_unsigned :: "nat \<Rightarrow> int conversion" where
  "strto_unsigned w s base =
     (if \<not> valid_base base then (0, 0, Some EINVAL)
      else case strto_parse s base of
        None \<Rightarrow> (0, 0, None)
      | Some (neg, v, n) \<Rightarrow>
          if 2 ^ w \<le> v then (2 ^ w - 1, n, Some ERANGE)
          else ((if neg then - int v else int v) mod 2 ^ w, n, None))"

section \<open>The conversions of wide strings\<close>

text \<open>
  The value, the index of the end pointer when one is asked for, and the error number.  The
  call of \<open>abort\<close> is a fault.
\<close>

definition wcstox :: "'v::zero conversion \<Rightarrow> wchar list \<Rightarrow> bool \<Rightarrow> int \<Rightarrow> ('v \<times> nat option \<times> int option) c_result" where
  "wcstox func wcs want_end base =
     (case wcsrtombs wcs of
        None \<Rightarrow> Inr (0, if want_end then Some 0 else None, Some EILSEQ)
      | Some mbs \<Rightarrow>
          (let (value, converted_len, err) = func mbs base
           in if \<not> want_end then Inr (value, None, err)
              else case mbsrtowcs_count (take converted_len mbs) of
                None \<Rightarrow> Inl Aborted
              | Some converted_wlen \<Rightarrow> Inr (value, Some converted_wlen, err)))"

text \<open>\<open>long\<close> has the width of the platform.\<close>

definition wcstol :: "nat \<Rightarrow> wchar list \<Rightarrow> bool \<Rightarrow> int \<Rightarrow> (int \<times> nat option \<times> int option) c_result" where
  "wcstol long_bits = wcstox (strto_signed long_bits)"

definition wcstoul :: "nat \<Rightarrow> wchar list \<Rightarrow> bool \<Rightarrow> int \<Rightarrow> (int \<times> nat option \<times> int option) c_result" where
  "wcstoul long_bits = wcstox (strto_unsigned long_bits)"

definition wcstoll :: "wchar list \<Rightarrow> bool \<Rightarrow> int \<Rightarrow> (int \<times> nat option \<times> int option) c_result" where
  "wcstoll = wcstox (strto_signed 64)"

definition wcstoull :: "wchar list \<Rightarrow> bool \<Rightarrow> int \<Rightarrow> (int \<times> nat option \<times> int option) c_result" where
  "wcstoull = wcstox (strto_unsigned 64)"

definition wcstoimax :: "wchar list \<Rightarrow> bool \<Rightarrow> int \<Rightarrow> (int \<times> nat option \<times> int option) c_result" where
  "wcstoimax = wcstox (strto_signed 64)"

definition wcstoumax :: "wchar list \<Rightarrow> bool \<Rightarrow> int \<Rightarrow> (int \<times> nat option \<times> int option) c_result" where
  "wcstoumax = wcstox (strto_unsigned 64)"

text \<open>The conversions to floating point ignore the base.\<close>

definition strtof_wrapper :: "(char list \<Rightarrow> 'v \<times> nat \<times> int option) \<Rightarrow> 'v conversion" where
  "strtof_wrapper strtof s base = strtof s"

definition wcstof ::
    "(char list \<Rightarrow> 'v::zero \<times> nat \<times> int option) \<Rightarrow> wchar list \<Rightarrow> bool \<Rightarrow> ('v \<times> nat option \<times> int option) c_result" where
  "wcstof strtof s want_end = wcstox (strtof_wrapper strtof) s want_end 0"

definition strtod_wrapper :: "(char list \<Rightarrow> 'v \<times> nat \<times> int option) \<Rightarrow> 'v conversion" where
  "strtod_wrapper strtod s base = strtod s"

definition wcstod ::
    "(char list \<Rightarrow> 'v::zero \<times> nat \<times> int option) \<Rightarrow> wchar list \<Rightarrow> bool \<Rightarrow> ('v \<times> nat option \<times> int option) c_result" where
  "wcstod strtod s want_end = wcstox (strtod_wrapper strtod) s want_end 0"

text \<open>The conversions with a locale forget the locale.\<close>

definition strtoll_l :: "char list \<Rightarrow> int \<Rightarrow> 'locale \<Rightarrow> int \<times> nat \<times> int option" where
  "strtoll_l nptr base loc = strto_signed 64 nptr base"

definition strtoull_l :: "char list \<Rightarrow> int \<Rightarrow> 'locale \<Rightarrow> int \<times> nat \<times> int option" where
  "strtoull_l nptr base loc = strto_unsigned 64 nptr base"

definition strtold_l :: "(char list \<Rightarrow> 'v \<times> nat \<times> int option) \<Rightarrow> char list \<Rightarrow> 'locale \<Rightarrow> 'v \<times> nat \<times> int option" where
  "strtold_l strtold nptr loc = strtold nptr"

section \<open>Formatted output to wide strings\<close>

text \<open>
  \<open>format\<close> is what the format string and the arguments give without a limit, \<open>None\<close> for an
  error.  The result is the returned number and the wide string in the buffer; reading on past
  a buffer without a terminator is a fault.
\<close>

definition vswprintf ::
    "nat \<Rightarrow> wchar list \<Rightarrow> (char list \<Rightarrow> char list option) \<Rightarrow> (int \<times> wchar list) c_result" where
  "vswprintf maxlen fmt format =
     (let max_mb_len = maxlen * 4
      in case wcsrtombs fmt of
           None \<Rightarrow> Inr (-1, [])
         | Some mbfmt \<Rightarrow>
             (case format mbfmt of
                None \<Rightarrow> Inr (-1, [])
              | Some printed \<Rightarrow>
                  (let nprinted = length printed;
                       mbs = c_string (take (max_mb_len - 1) printed)
                   in case mbsrtowcs maxlen mbs of
                        None \<Rightarrow> Inr (-1, [])
                      | Some (wcs, ended) \<Rightarrow>
                          if \<not> ended then Inl OutOfBounds
                          else if max_mb_len \<le> nprinted then Inr (-1, wcs)
                          else Inr (int (length wcs), wcs))))"

definition swprintf ::
    "nat \<Rightarrow> wchar list \<Rightarrow> (char list \<Rightarrow> char list option) \<Rightarrow> (int \<times> wchar list) c_result" where
  "swprintf maxlen format_string format = vswprintf maxlen format_string format"

section \<open>Aligned memory\<close>

text \<open>
  The error number and the pointer, \<open>None\<close> when it is not set; \<open>memalign\<close> gives a pointer or an
  error number.  Numbers of type \<open>size_t\<close> are words.
\<close>

definition posix_memalign ::
    "nat \<Rightarrow> ('a::len word \<Rightarrow> 'a word \<Rightarrow> int + nat) \<Rightarrow> 'a word \<Rightarrow> 'a word \<Rightarrow> int \<times> nat option" where
  "posix_memalign pointer_size memalign alignment bytes =
     (if and alignment (alignment - 1) \<noteq> 0 \<or> alignment = 0 then (EINVAL, None)
      else if alignment mod of_nat pointer_size \<noteq> 0 then (EINVAL, None)
      else case memalign alignment bytes of Inl errno \<Rightarrow> (errno, Some 0) | Inr p \<Rightarrow> (0, Some p))"

lemma odd_part: "0 < a \<Longrightarrow> \<exists>k m. a = 2 ^ k * (2 * m + 1)" for a :: nat
proof (induction a rule: less_induct)
  case (less a)
  show ?case
  proof (cases "even a")
    case True
    then obtain b where b: "a = 2 * b"
      by (elim evenE)
    with less.prems less.IH [of b] obtain k m where "b = 2 ^ k * (2 * m + 1)"
      by auto
    with b have "a = 2 ^ Suc k * (2 * m + 1)"
      by simp
    then show ?thesis
      by blast
  next
    case False
    then obtain m where "a = 2 * m + 1"
      by (elim oddE)
    then have "a = 2 ^ 0 * (2 * m + 1)"
      by simp
    then show ?thesis
      by blast
  qed
qed

lemma and_pred_power: "and a (a - 1) = 0 \<longleftrightarrow> (\<exists>k. a = 2 ^ k)" if "0 < a" for a :: nat
proof
  assume zero: "and a (a - 1) = 0"
  from odd_part [OF that] obtain k m where a: "a = 2 ^ k * (2 * m + 1)"
    by blast
  have "a = m * 2 ^ Suc k + 2 ^ k" "a - 1 = m * 2 ^ Suc k + (2 ^ k - 1)"
    using a by (simp_all add: algebra_simps)
  moreover have "(2::nat) ^ k < 2 ^ Suc k" "(2::nat) ^ k - 1 < 2 ^ Suc k"
    by (simp_all add: less_imp_diff_less)
  ultimately have "a div 2 ^ Suc k = m" "(a - 1) div 2 ^ Suc k = m"
    by (metis div_mod_offset(1))+
  then have "drop_bit (Suc k) a = m" "drop_bit (Suc k) (a - 1) = m"
    by (simp_all add: drop_bit_eq_div)
  then have "drop_bit (Suc k) (and a (a - 1)) = m"
    by (simp add: drop_bit_and)
  with zero have "m = 0"
    by simp
  with a show "\<exists>k. a = 2 ^ k"
    by auto
next
  assume "\<exists>k. a = 2 ^ k"
  then obtain k where a: "a = 2 ^ k"
    by blast
  have "a - 1 = mask k"
    by (simp add: a mask_eq_exp_minus_1)
  then have "and a (a - 1) = take_bit k (2 ^ k)"
    by (simp add: a take_bit_eq_mask)
  then show "and a (a - 1) = 0"
    by (simp add: take_bit_eq_mod)
qed

lemma and_pred_word:
  assumes "a \<noteq> (0 :: 'a::len word)"
  shows "and a (a - 1) = 0 \<longleftrightarrow> (\<exists>k. unat a = 2 ^ k)"
proof -
  have "and a (a - 1) = 0 \<longleftrightarrow> and (unat a) (unat (a - 1)) = 0"
    by (simp add: unsigned_and_eq [symmetric] unsigned_eq_0_iff)
  also have "unat (a - 1) = unat a - 1"
    using assms by (simp add: unat_minus_one)
  finally show ?thesis
    using assms and_pred_power [of "unat a"] by (simp add: unat_gt_0)
qed

text \<open>
  C29.  \<open>posix_memalign\<close> asks for memory exactly when the alignment is a power of two and a
  multiple of the size of a pointer; otherwise it reports \<open>EINVAL\<close> and leaves the pointer
  alone.
\<close>

theorem posix_memalign_checks:
  "posix_memalign pointer_size memalign alignment bytes =
     (if (\<exists>k. unat alignment = 2 ^ k) \<and> alignment mod of_nat pointer_size = 0
      then (case memalign alignment bytes of Inl errno \<Rightarrow> (errno, Some 0) | Inr p \<Rightarrow> (0, Some p))
      else (EINVAL, None))"
proof (cases "alignment = 0")
  case False
  then show ?thesis
    by (simp add: posix_memalign_def and_pred_word)
qed (simp add: posix_memalign_def)

section \<open>Where the conversions end\<close>

abbreviation ascii :: "char \<Rightarrow> bool" where
  "ascii b \<equiv> byte b < 128"

lemma mbsrtowcs_ascii:
  "list_all ascii bs \<Longrightarrow> mbsrtowcs len bs = Some (map byte (take len bs), length bs < len)"
proof (induction bs arbitrary: len)
  case Nil
  then show ?case
    by (cases len) simp_all
next
  case (Cons b bs)
  then show ?case
    by (cases len) simp_all
qed

lemma mbsrtowcs_count_ascii: "list_all ascii bs \<Longrightarrow> mbsrtowcs_count bs = Some (length bs)"
  by (simp add: mbsrtowcs_count_def mbsrtowcs_ascii)

text \<open>An encoded character starts with an ASCII byte only when it is that character.\<close>

lemma wcrtomb_first_ascii:
  assumes "valid_wchar c" and "ascii (hd (wcrtomb c))"
  shows "c < 0x80"
proof (rule ccontr)
  assume "\<not> c < 0x80"
  then have "0x80 \<le> byte (hd (wcrtomb c))"
    using assms(1) by (auto simp: wcrtomb_def valid_wchar_def)
  with assms(2) show False
    by simp
qed

lemma ascii_prefix_wide:
  assumes "list_all valid_wchar wcs" and "n \<le> length (concat (map wcrtomb wcs))"
    and "list_all ascii (take n (concat (map wcrtomb wcs)))"
  shows "n \<le> length wcs \<and> map byte (take n (concat (map wcrtomb wcs))) = take n wcs"
  using assms
proof (induction n arbitrary: wcs)
  case (Suc n)
  from Suc.prems(2) obtain c ws where wcs: "wcs = c # ws"
    by (cases wcs) auto
  have "wcrtomb c \<noteq> []"
    using wcrtomb_length [of c] by auto
  then have "ascii (hd (wcrtomb c))"
    using Suc.prems(3) by (cases "wcrtomb c") (auto simp: wcs)
  then have c: "c < 0x80"
    using Suc.prems(1) by (auto simp: wcs intro: wcrtomb_first_ascii)
  with Suc show ?case
    by (auto simp: wcs wcrtomb_ascii)
qed simp

text \<open>A conversion that consumes ASCII bytes only.\<close>

locale ascii_conversion =
  fixes func :: "'v::zero conversion"
  assumes consumes: "func s base = (v, n, e) \<Longrightarrow> n \<le> length s \<and> list_all ascii (take n s)"
begin

lemma wcstox_end:
  assumes "list_all valid_wchar wcs" and "func (concat (map wcrtomb wcs)) base = (v, n, e)"
  shows "wcstox func wcs True base = Inr (v, Some n, e)
    \<and> n \<le> length wcs \<and> map byte (take n (concat (map wcrtomb wcs))) = take n wcs"
proof -
  note n = consumes [OF assms(2)]
  have "mbsrtowcs_count (take n (concat (map wcrtomb wcs))) = Some n"
    using n by (simp add: mbsrtowcs_count_ascii)
  then have "wcstox func wcs True base = Inr (v, Some n, e)"
    using assms by (simp add: wcstox_def wcsrtombs_def)
  with ascii_prefix_wide [OF assms(1)] n show ?thesis
    by blast
qed

end

lemma isspace_ascii: "isspace c \<Longrightarrow> ascii c"
  by (auto simp: isspace_def)

lemma digit_ascii: "digit_value c < 36 \<Longrightarrow> ascii c"
  by (auto simp: digit_value_def split: if_splits)

lemma takeWhile_take: "take (length (takeWhile P xs)) xs = takeWhile P xs"
  by (metis takeWhile_eq_take)

lemma list_all_takeWhile: "(\<And>x. P x \<Longrightarrow> Q x) \<Longrightarrow> list_all Q (takeWhile P xs)"
  by (auto simp: list_all_iff dest: set_takeWhileD)

lemma base_prefix_ascii:
  assumes "valid_base base" and "base_prefix base t = (b, k)"
  shows "b \<le> 36 \<and> k \<le> length t \<and> list_all ascii (take k t)"
proof (cases "k = 0")
  case True
  with assms show ?thesis
    by (auto simp: base_prefix_def valid_base_def split: if_splits)
next
  case False
  with assms(2) have t: "k = 2" "b = 16" "2 < length t" "byte (t ! 0) = 48" "byte (t ! 1) \<in> {88, 120}"
    by (auto simp: base_prefix_def split: if_splits)
  then obtain x y ys where "t = x # y # ys"
    by (auto simp: numeral_2_eq_2 Suc_le_length_iff less_eq_Suc_le)
  with t show ?thesis
    by auto
qed

lemma strto_parse_ascii:
  assumes "valid_base base" and "strto_parse s base = Some (neg, v, n)"
  shows "n \<le> length s \<and> list_all ascii (take n s)"
proof -
  define i t where "i = length (takeWhile isspace s)" and "t = drop i s"
  define j :: nat where "j = (if t \<noteq> [] \<and> byte (hd t) \<in> {43, 45} then 1 else 0)"
  obtain b k where bk: "base_prefix base (drop j t) = (b, k)"
    by (cases "base_prefix base (drop j t)")
  define ds where "ds = takeWhile (\<lambda>c. digit_value c < b) (drop (j + k) t)"
  have n: "n = i + j + k + length ds"
    using assms(2) bk by (auto simp: strto_parse_def Let_def i_def t_def j_def ds_def split: if_splits)
  note prefix = base_prefix_ascii [OF assms(1) bk]
  have spaces: "list_all ascii (take i s)" "i \<le> length s"
    by (simp_all add: i_def takeWhile_take list_all_takeWhile isspace_ascii length_takeWhile_le)
  have sign: "list_all ascii (take j t)" "j \<le> length t"
    by (auto simp: j_def take_Suc Suc_le_eq)
  have digits: "list_all ascii ds" "take (length ds) (drop (j + k) t) = ds"
    using prefix by (auto simp: ds_def takeWhile_take intro!: list_all_takeWhile digit_ascii)
  have ds: "length ds \<le> length t - (j + k)" "k \<le> length t - j"
    using length_takeWhile_le [of "\<lambda>c. digit_value c < b" "drop (j + k) t"] prefix by (simp_all add: ds_def)
  have "take n s = take i s @ take j t @ take k (drop j t) @ ds"
    using digits(2) by (simp add: n t_def take_add add.commute add.left_commute)
  moreover have "n \<le> length s"
    using spaces(2) sign(2) ds by (simp add: n t_def)
  ultimately show ?thesis
    using spaces(1) sign(1) prefix digits(1) by simp
qed

lemma strto_signed_ascii: "ascii_conversion (strto_signed w)"
proof
  fix s base v n e
  assume "strto_signed w s base = (v, n, e)"
  then show "n \<le> length s \<and> list_all ascii (take n s)"
    using strto_parse_ascii [of base s]
    by (cases "valid_base base"; cases "strto_parse s base") (auto simp: strto_signed_def Let_def split: if_splits prod.splits)
qed

lemma strto_unsigned_ascii: "ascii_conversion (strto_unsigned w)"
proof
  fix s base v n e
  assume "strto_unsigned w s base = (v, n, e)"
  then show "n \<le> length s \<and> list_all ascii (take n s)"
    using strto_parse_ascii [of base s]
    by (cases "valid_base base"; cases "strto_parse s base") (auto simp: strto_unsigned_def split: if_splits prod.splits)
qed

interpretation signed: ascii_conversion "strto_signed w" for w
  by (rule strto_signed_ascii)

interpretation unsigned: ascii_conversion "strto_unsigned w" for w
  by (rule strto_unsigned_ascii)

lemma wcrtomb_no_NUL:
  assumes "valid_wchar c"
  shows "CHR 0x00 \<notin> set (wcrtomb c)"
proof
  assume "CHR 0x00 \<in> set (wcrtomb c)"
  moreover have "byte (CHR 0x00) = 0"
    by (simp add: byte_def)
  ultimately have "0 \<in> set (map byte (wcrtomb c))"
    by force
  moreover
  consider "c < 0x80" | "0x80 \<le> c" "c < 0x800" | "0x800 \<le> c" "c < 0x10000" | "0x10000 \<le> c" "c < 0x110000"
    using assms unfolding valid_wchar_def by linarith
  then have "0 \<notin> set (map byte (wcrtomb c))"
  proof cases
    case 2
    then have "c div 64 < 32"
      by simp
    with 2 show ?thesis
      by (simp add: wcrtomb_def lead_byte continuation_byte)
  next
    case 3
    then have "c div 4096 < 16"
      by simp
    with 3 show ?thesis
      by (simp add: wcrtomb_def lead_byte continuation_byte)
  next
    case 4
    then have "c div 262144 < 8"
      by simp
    with 4 show ?thesis
      by (simp add: wcrtomb_def lead_byte continuation_byte)
  qed (use assms in \<open>simp add: wcrtomb_def valid_wchar_def\<close>)
  ultimately show False
    by contradiction
qed

lemma c_string_wcrtomb:
  assumes "list_all valid_wchar wcs"
  shows "c_string (take n (concat (map wcrtomb wcs))) = take n (concat (map wcrtomb wcs))"
proof -
  have "CHR 0x00 \<notin> set (concat (map wcrtomb wcs))"
    using assms wcrtomb_no_NUL by (auto simp: list_all_iff)
  then have "CHR 0x00 \<notin> set (take n (concat (map wcrtomb wcs)))"
    by (auto dest: in_set_takeD)
  then show ?thesis
    by (auto simp: c_string_def takeWhile_eq_all_conv)
qed

lemma wcrtomb_bound: "length (concat (map wcrtomb wcs)) \<le> 4 * length wcs"
proof (induction wcs)
  case (Cons c wcs)
  then show ?case
    using wcrtomb_length [of c] by simp
qed simp

text \<open>
  C31.  \<open>wcstol\<close> and \<open>wcstoul\<close> give the value of the narrow conversion, never abort, and set the
  end pointer behind exactly the wide characters that the conversion consumed.
\<close>

theorem wcstol_end:
  assumes "list_all valid_wchar wcs" and "mbs = concat (map wcrtomb wcs)"
    and "strto_signed w mbs base = (v, n, e)" and "strto_unsigned w mbs base = (v', n', e')"
  shows "wcstol w wcs True base = Inr (v, Some n, e) \<and> n \<le> length wcs \<and> map byte (take n mbs) = take n wcs
    \<and> wcstoul w wcs True base = Inr (v', Some n', e') \<and> n' \<le> length wcs \<and> map byte (take n' mbs) = take n' wcs"
  using signed.wcstox_end [OF assms(1), of w base v n e] unsigned.wcstox_end [OF assms(1), of w base v' n' e']
    assms(2-4) by (simp add: wcstol_def wcstoul_def)

lemma wcstol_example: "strto_signed 16 ''-42x'' 10 = (-42, 3, None) \<and> strto_unsigned 16 ''-42x'' 10 = (65494, 3, None)"
  by (simp add: strto_signed_def strto_unsigned_def strto_parse_def base_prefix_def valid_base_def isspace_def
      digit_value_def digits_value_def byte_def)

theorem wcstol_end_witness:
  "wcstol 16 [45, 52, 50, 120] True 10 = Inr (-42, Some 3, None)"
proof -
  have mbs: "''-42x'' = concat (map wcrtomb [45, 52, 50, 120])"
    by (simp add: wcrtomb_ascii char_of_def bit_0)
  have "list_all valid_wchar [45, 52, 50, 120]"
    by (simp add: valid_wchar_def)
  from wcstol_end [OF this mbs conjunct1 [OF wcstol_example] conjunct2 [OF wcstol_example]] show ?thesis
    by blast
qed

text \<open>
  C28.  \<open>swprintf\<close>, when the formatted text fits with its terminator, stores the text and
  returns its length in wide characters.
\<close>

theorem vswprintf_fits:
  assumes "list_all valid_wchar fmt" and "list_all valid_wchar out" and "length out < maxlen"
    and "format (concat (map wcrtomb fmt)) = Some (concat (map wcrtomb out))"
  shows "swprintf maxlen fmt format = Inr (int (length out), out)"
proof -
  have "length (concat (map wcrtomb out)) < maxlen * 4"
    using wcrtomb_bound [of out] assms(3) by linarith
  then have "take (maxlen * 4 - 1) (concat (map wcrtomb out)) = concat (map wcrtomb out)"
    by simp
  with assms c_string_wcrtomb [OF assms(2), of "maxlen * 4 - 1"] \<open>length (concat (map wcrtomb out)) < maxlen * 4\<close>
  show ?thesis
    by (simp add: swprintf_def vswprintf_def wcsrtombs_def mbsrtowcs_wcrtomb Let_def)
qed

theorem vswprintf_fits_witness:
  "swprintf 3 [120] (\<lambda>bytes. Some bytes) = Inr (1, [120])"
  using vswprintf_fits [of "[120]" "[120]" 3 "\<lambda>bytes. Some bytes"] by (simp add: valid_wchar_def)

lemma mbsrtowcs_full:
  "list_all valid_wchar wcs \<Longrightarrow> mbsrtowcs (length wcs) (concat (map wcrtomb wcs) @ rest) = Some (wcs, False)"
proof (induction wcs)
  case (Cons c wcs)
  obtain b bs where bs: "wcrtomb c = b # bs"
    using wcrtomb_length [of c] by (cases "wcrtomb c") auto
  have "mbrtowc (wcrtomb c @ concat (map wcrtomb wcs) @ rest) = Some (c, length (wcrtomb c))"
    using Cons.prems by (simp add: mbrtowc_wcrtomb)
  with Cons bs show ?case
    by simp
qed simp

text \<open>
  C40.  A defect: when the text has at least as many characters as the buffer has room for, the
  buffer is filled without a terminator, and the length is then taken of it: the function reads
  past the end of the buffer before it comes to the test that should make it return -1.  The
  exception is a text that starts with so many characters of four bytes that the byte buffer
  cuts off the last of them.
\<close>

theorem vswprintf_overruns:
  assumes "list_all valid_wchar fmt" and "list_all valid_wchar out" and "maxlen \<le> length out"
    and "length (concat (map wcrtomb (take maxlen out))) \<le> maxlen * 4 - 1"
    and "format (concat (map wcrtomb fmt)) = Some (concat (map wcrtomb out))"
  shows "swprintf maxlen fmt format = Inl OutOfBounds"
proof -
  let ?n = "maxlen * 4 - 1"
  have "concat (map wcrtomb out) = concat (map wcrtomb (take maxlen out)) @ concat (map wcrtomb (drop maxlen out))"
    by (simp flip: concat_append map_append)
  with assms(4) obtain rest where "take ?n (concat (map wcrtomb out)) = concat (map wcrtomb (take maxlen out)) @ rest"
    by simp
  moreover have "list_all valid_wchar (take maxlen out)" "length (take maxlen out) = maxlen"
    using assms(2,3) by (auto simp: list_all_iff dest: in_set_takeD)
  ultimately have "mbsrtowcs maxlen (take ?n (concat (map wcrtomb out))) = Some (take maxlen out, False)"
    using mbsrtowcs_full [of "take maxlen out" rest] by simp
  with assms(1,2,5) c_string_wcrtomb [OF assms(2), of ?n] show ?thesis
    by (simp add: swprintf_def vswprintf_def wcsrtombs_def Let_def)
qed

theorem vswprintf_overruns_witness:
  "swprintf 2 [120, 0x1F600] (\<lambda>bytes. Some bytes) = Inl OutOfBounds"
  using vswprintf_overruns [of "[120, 0x1F600]" "[120, 0x1F600]" 2 "\<lambda>bytes. Some bytes"]
  by (simp add: valid_wchar_def wcrtomb_def)

end
