(* ===== verification/ThreadDb.thy ===== *)
theory ThreadDb
  imports WideStrings
begin

text \<open>
  The thread library of the debugger server (\<open>sources/android/libthread_db\<close>): the threads of a
  process are the entries of its task directory.  The directory, the process handle and the
  visitor are arguments; the visitor changes a state of its own.
\<close>

datatype td_err_e = TD_OK | TD_ERR | TD_NOTHR | TD_NOSV | TD_NOLWP | TD_BADPH | TD_BADTH | TD_BADSH | TD_BADTA
  | TD_BADKEY | TD_NOMSG | TD_NOFPREGS | TD_NOLIBTHREAD | TD_NOEVENT | TD_NOCAPAB | TD_DBERR | TD_NOAPLIC | TD_NOTSD
  | TD_MALLOC | TD_PARTIALREG | TD_NOXREGS | TD_VERSION

datatype td_thr_state_e = TD_THR_ANY_STATE | TD_THR_UNKNOWN | TD_THR_SLEEP | TD_THR_ZOMBIE

record 'ph td_thragent_t =
  agent_pid :: int
  agent_ph :: 'ph

record td_thrhandle_t =
  handle_pid :: int
  handle_tid :: int

record td_thrinfo_t =
  ti_tid :: int
  ti_lid :: int
  ti_state :: td_thr_state_e

definition td_symbol_list :: "string list" where
  "td_symbol_list = []"

definition td_ta_new :: "bool \<Rightarrow> ('ph \<Rightarrow> int) \<Rightarrow> 'ph \<Rightarrow> td_err_e \<times> 'ph td_thragent_t option" where
  "td_ta_new alloc_ok ps_getpid proc_handle =
     (if \<not> alloc_ok then (TD_MALLOC, None)
      else (TD_OK, Some \<lparr>agent_pid = ps_getpid proc_handle, agent_ph = proc_handle\<rparr>))"

text \<open>The agents that are allocated; deleting one takes it away, and a second time is a fault.\<close>

definition td_ta_delete :: "nat \<Rightarrow> nat set \<Rightarrow> (td_err_e \<times> nat set) c_result" where
  "td_ta_delete ta agents = (if ta \<in> agents then Inr (TD_OK, agents - {ta}) else Inl OutOfBounds)"

definition td_ta_map_lwp2thr :: "('ph \<Rightarrow> int) \<Rightarrow> 'ph td_thragent_t \<Rightarrow> int \<Rightarrow> td_err_e \<times> td_thrhandle_t" where
  "td_ta_map_lwp2thr ps_getpid agent lwpid =
     (TD_OK, \<lparr>handle_pid = ps_getpid (agent_ph agent), handle_tid = lwpid\<rparr>)"

text \<open>\<open>atoi\<close> is \<open>strtol\<close> in base 10, cut to an \<open>int\<close>.\<close>

definition atoi :: "string \<Rightarrow> int" where
  "atoi s = c_int (fst (strto_signed 64 s 10))"

definition task_path :: "int \<Rightarrow> string" where
  "task_path pid = take 31 (''/proc/'' @ int_digits pid @ ''/task/'')"

text \<open>The loop over the directory: it stops when the visitor returns something else than 0.\<close>

fun iter_entries :: "(td_thrhandle_t \<Rightarrow> 's \<Rightarrow> int \<times> 's) \<Rightarrow> int \<Rightarrow> string list \<Rightarrow> 's \<Rightarrow> td_err_e \<times> 's" where
  "iter_entries func pid [] s = (TD_OK, s)"
| "iter_entries func pid (name # names) s =
     (if name = ''.'' \<or> name = ''..'' then iter_entries func pid names s
      else let (r, s') = func \<lparr>handle_pid = pid, handle_tid = atoi name\<rparr> s
           in if r \<noteq> 0 then (TD_DBERR, s') else iter_entries func pid names s')"

definition td_ta_thr_iter ::
    "(string \<Rightarrow> string list option) \<Rightarrow> 'ph td_thragent_t \<Rightarrow> (td_thrhandle_t \<Rightarrow> 's \<Rightarrow> int \<times> 's) \<Rightarrow> 's \<Rightarrow> td_err_e \<times> 's" where
  "td_ta_thr_iter opendir agent func cookie =
     (case opendir (task_path (agent_pid agent)) of
        None \<Rightarrow> (TD_NOEVENT, cookie)
      | Some names \<Rightarrow> iter_entries func (agent_pid agent) names cookie)"

definition td_thr_get_info :: "td_thrhandle_t \<Rightarrow> td_err_e \<times> td_thrinfo_t" where
  "td_thr_get_info handle =
     (TD_OK, \<lparr>ti_tid = handle_tid handle, ti_lid = handle_tid handle, ti_state = TD_THR_SLEEP\<rparr>)"

definition td_thr_tlsbase :: "td_thrhandle_t \<Rightarrow> td_err_e" where
  "td_thr_tlsbase handle = TD_NOAPLIC"

definition td_thr_tls_get_addr :: "td_thrhandle_t \<Rightarrow> td_err_e" where
  "td_thr_tls_get_addr handle = TD_NOAPLIC"

text \<open>The functions for thread events only abort.\<close>

definition td_ta_set_event :: "td_err_e c_result" where "td_ta_set_event = Inl Aborted"
definition td_ta_event_getmsg :: "td_err_e c_result" where "td_ta_event_getmsg = Inl Aborted"
definition td_thr_event_enable :: "td_err_e c_result" where "td_thr_event_enable = Inl Aborted"
definition td_ta_clear_event :: "td_err_e c_result" where "td_ta_clear_event = Inl Aborted"
definition td_ta_event_addr :: "td_err_e c_result" where "td_ta_event_addr = Inl Aborted"

section \<open>Decimal numbers\<close>

lemma digit_char: "d < 10 \<Longrightarrow> digit_value (char_of (48 + d)) = d"
  by (simp add: digit_value_def)

lemma nat_digits_digits: "list_all (\<lambda>c. digit_value c < 10 \<and> \<not> isspace c \<and> byte c \<notin> {43, 45}) (nat_digits n)"
proof (induction n rule: nat_digits.induct)
  case (1 n)
  have "digit_value (char_of (48 + d)) < 10 \<and> \<not> isspace (char_of (48 + d)) \<and> byte (char_of (48 + d)) \<notin> {43, 45}"
    if "d < 10" for d :: nat
    using that by (auto simp: digit_char isspace_def)
  then show ?case
    using 1 by (subst nat_digits.simps) (auto simp: less_imp_le)
qed

lemma nat_digits_value: "digits_value 10 (nat_digits n) = n"
proof (induction n rule: nat_digits.induct)
  case (1 n)
  then show ?case
    by (subst nat_digits.simps) (auto simp: digits_value_def digit_char)
qed

lemma nat_digits_nonempty [simp]: "nat_digits n \<noteq> []"
  by (subst nat_digits.simps) simp

lemma nat_digits_length: "n < 10 ^ Suc k \<Longrightarrow> length (nat_digits n) \<le> Suc k"
proof (induction k arbitrary: n)
  case 0
  then show ?case
    by (subst nat_digits.simps) simp
next
  case (Suc k)
  then have "n div 10 < 10 ^ Suc k"
    by simp
  from Suc.IH [OF this] show ?case
    by (subst nat_digits.simps) simp
qed

text \<open>Printing a number and reading it again.\<close>

lemma atoi_nat_digits:
  assumes "n < 2 ^ 31"
  shows "atoi (nat_digits n) = int n"
proof -
  define ds where "ds = nat_digits n"
  have ds: "ds \<noteq> []" "list_all (\<lambda>c. digit_value c < 10 \<and> \<not> isspace c \<and> byte c \<notin> {43, 45}) ds"
    "digits_value 10 ds = n"
    unfolding ds_def by (rule nat_digits_nonempty nat_digits_digits nat_digits_value)+
  then have hd: "\<not> isspace (hd ds)" "byte (hd ds) \<noteq> 43" "byte (hd ds) \<noteq> 45"
    by (cases ds; simp)+
  have "takeWhile isspace ds = []" "takeWhile (\<lambda>c. digit_value c < 10) ds = ds"
    using ds hd by (cases ds; simp add: takeWhile_eq_all_conv list_all_iff)+
  then have "strto_parse ds 10 = Some (False, n, length ds)"
    using ds(1,3) hd by (simp add: strto_parse_def base_prefix_def Let_def del: takeWhile_eq_all_conv)
  then have "fst (strto_signed 64 ds 10) = int n"
    using assms by (simp add: strto_signed_def valid_base_def)
  with assms show ?thesis
    by (simp add: atoi_def ds_def c_int_id INT_MAX_def)
qed

section \<open>What the library promises\<close>

lemma iter_entries_all:
  "\<forall>n\<in>set tids. n < 2 ^ 31 \<Longrightarrow>
    iter_entries (\<lambda>handle seen. (0, seen @ [handle_tid handle])) pid (map nat_digits tids) seen = (TD_OK, seen @ map int tids)"
proof (induction tids arbitrary: seen)
  case (Cons n tids)
  have "byte (hd (nat_digits n)) \<noteq> 46"
    using nat_digits_digits [of n] by (cases "nat_digits n") (auto simp: digit_value_def split: if_splits)
  then have "nat_digits n \<noteq> ''.''" "nat_digits n \<noteq> ''..''"
    by (auto simp: byte_def)
  with Cons show ?case
    by (simp add: atoi_nat_digits)
qed simp

text \<open>
  The iteration visits every thread: with the task directory of a process, the two entries
  for the directories first, a visitor that never stops it sees the identifiers of all threads
  in the order of the directory.
\<close>

theorem td_iter_visits_threads:
  assumes "opendir (task_path (agent_pid agent)) = Some ([''.'', ''..''] @ map nat_digits tids)"
    and "list_all (\<lambda>n. n < 2 ^ 31) tids"
  shows "td_ta_thr_iter opendir agent (\<lambda>handle seen. (0, seen @ [handle_tid handle])) [] = (TD_OK, map int tids)"
  using assms iter_entries_all [of tids "agent_pid agent" "[]"]
  by (simp add: td_ta_thr_iter_def list_all_iff)

theorem td_iter_visits_threads_witness:
  "td_ta_thr_iter (\<lambda>path. Some ([''.'', ''..''] @ map nat_digits [7, 42])) \<lparr>agent_pid = 7, agent_ph = ()\<rparr>
     (\<lambda>handle seen. (0, seen @ [handle_tid handle])) [] = (TD_OK, [7, 42])"
  using td_iter_visits_threads [of "\<lambda>path. Some ([''.'', ''..''] @ map nat_digits [7, 42])"
      "\<lparr>agent_pid = 7, agent_ph = ()\<rparr>" "[7, 42]"] by simp

text \<open>
  The path of the task directory always fits its buffer: for every process identifier it
  is the complete path.
\<close>

theorem task_path_fits:
  assumes "- (2 ^ 31) \<le> pid" and "pid < 2 ^ 31"
  shows "task_path pid = ''/proc/'' @ int_digits pid @ ''/task/''"
proof -
  have "length (nat_digits (nat \<bar>pid\<bar>)) \<le> 10"
    using assms nat_digits_length [of "nat \<bar>pid\<bar>" 9] by simp
  then have "length (int_digits pid) \<le> 11"
    by (auto simp: int_digits_def abs_if split: if_splits)
  then show ?thesis
    by (simp add: task_path_def)
qed

theorem task_path_fits_witness: "task_path (-1) = ''/proc/-1/task/''"
  using task_path_fits [of "-1"] by (simp add: int_digits_def nat_digits.simps char_of_def bit_0)

end
