(* ===== verification/Spec2Isabelle.thy ===== *)
theory Spec2Isabelle
  imports CpuFeatures DependsMain GlueSafety StackRegex Toolbox ThreadDb
begin

text \<open>
  A verification development for the C and C++ code that the Android NDK has of its own: the
  libraries that applications link (\<open>sources/android\<close>) and the programs that run on the host
  (\<open>sources/host-tools\<close>).

  \<^bold>\<open>How C is modelled.\<close>  Strings and buffers are lists of characters, a C string being what
  comes before the first NUL.  A pointer into a buffer is an index or a suffix.  Numbers have
  their width where it matters: feature words and masks are machine words, an \<open>int\<close> that may
  overflow is wrapped by \<open>c_int\<close>.  A read outside of a buffer or of an uninitialised one, a null
  pointer and \<open>abort\<close> are values of the type \<open>c_fault\<close>, so that a function that can go
  wrong returns \<open>c_fault + 'a\<close>; a program that exits returns its status and what it printed.  A
  loop that may run for ever is a partial function to an option, \<open>None\<close> meaning that it does not
  return; the theorems then say that it does return, or exhibit an input on which it does not.
  Fuel is used in one place only, the parsers of regular expressions that call each other, and
  shown to be enough.  Files, environment variables, the system calls and the framework are
  arguments: records of functions that the definitions take as parameters.  \<open>NdkPrelude\<close> holds the
  fault type, the string functions of the C library with the lemmas on what they find, decimal
  printing, and the flags of machine words.

  \<^bold>\<open>cpufeatures\<close> (\<open>cpu-features.c\<close>).  \<open>CpuList\<close> has the number parser, the CPU masks and the reads
  of sysfs files (\<open>parse_number\<close>, \<open>cpulist_parse\<close>, \<open>cpulist_read_from\<close>, \<open>get_cpu_count\<close>);
  \<open>CpuInfo\<close> the lookup of fields in \<open>/proc/cpuinfo\<close> and the hardware capabilities; \<open>CpuFeatures\<close>
  the detection on each architecture, the global variables and the public functions.  Shown:
  lists of CPUs printed by the kernel are parsed back; the feature word on ARM is closed under
  the documented implications whatever the kernel reports; the first call decides what all
  later ones return (a locale for a service that initialises itself once, interpreted on the
  library); the limits and the inputs on which the parsers run past their buffer or for ever; and
  that the emulator's special case ignores the detected features.

  \<^bold>\<open>ndk-depends\<close> (\<open>ndk-depends.cc\<close>).  \<open>StdMap\<close> models \<open>std::map\<close> by sorted association lists, behind
  a locale for the operations the program uses; \<open>DependsPaths\<close> the console, the path functions
  and the search paths of the host; \<open>ElfFile\<close> the readers of both byte orders (a locale with two
  interpretations) and the ELF parser for both classes; \<open>DependsGraph\<close> the construction of the
  dependency graph; \<open>DependsSort\<close> the topological sort; \<open>DependsMain\<close> the options, the output
  formats and the program.  A host may refuse to open a file because of the files that are open:
  their number, which grows with every nested include of \<open>ld.so.conf\<close>, is an argument of \<open>fopen\<close>.
  Shown: the needed libraries are those that the entries of the dynamic section name, unless the
  bytes behind it read as one more entry, which the iterator visits too; the options are parsed
  back; the reading of configuration files ends, and how often a file that includes itself is
  read; the graph is exactly what is reachable by the search; on a graph without cycles the sort ends with
  every library before the ones it needs, and the program prints it; with a cycle it never
  returns.

  \<^bold>\<open>native_app_glue\<close> (\<open>android_native_app_glue.c\<close>).  \<open>NativeAppGlue\<close> has the shared structure as a
  record, every function of both threads, and the two threads as step relations \<open>app_step\<close> and
  \<open>main_step\<close>: a critical section is one step, a wait releases the mutex, a broadcast marks the
  waiting thread as woken, and waking up without one is allowed.  The application's own code is
  what the documentation asks of it: it processes its commands, stores a newly allocated state
  when asked to, and returns when asked to; a flag of the relation lets it return early.
  Reading, writing and \<open>malloc\<close> are taken to succeed; \<open>pipe\<close> may fail.  \<open>GlueInvariants\<close> states the
  invariants and that the application thread keeps them, \<open>GlueSafety\<close> that the callbacks do, by
  rule induction on the reachable states.  Shown: no block is freed twice or leaked, requests
  are honoured, no wake-up is lost, and every callback returns after a bounded number of steps;
  and two situations in which the design fails, a window that is announced twice and an
  application that returns early.

  \<^bold>\<open>ndk-stack\<close> (\<open>ndk-stack-parser.c\<close>, \<open>ndk-stack.c\<close>).  \<open>NdkStack\<close> has the parser of crash dumps as a
  state machine over lines, and the program.  Shown: the state is what the lines since the last
  header mean; a frame is understood by its words.

  \<^bold>\<open>The regular expression library of ndk-stack\<close> (\<open>regex2.h\<close>, \<open>regcomp.c\<close>, \<open>engine.c\<close>, \<open>regexec.c\<close>,
  \<open>regfree.c\<close>, \<open>regerror.c\<close>).  The model is in four theories: \<open>RegStrip\<close> has the compiled form,
  \<open>RegParse\<close> the emission of operators, repetition, character sets and bracket expressions,
  \<open>RegComp\<close> the parsers, the passes over the strip and \<open>regcomp\<close>, \<open>RegEngine\<close> both versions of the
  engine, over operations on sets of states that are bits of a word of any size or an array of
  bytes, and \<open>regexec\<close>.  The proof goes through a language of regular expressions \<open>re\<close> with the
  code that stands for them.  \<open>RegStep\<close> shows what one pass over the states computes, in a locale
  for sets of states with an interpretation for each version; \<open>RegSearch\<close> the loops \<open>fast\<close> and
  \<open>slow\<close> and the search for a start; \<open>RegAnchor\<close> the counting of anchors; \<open>RegLang\<close> that the paths
  through the code of an expression are its matches; \<open>RegMust\<close> that the string the prescreening
  looks for occurs in every match; \<open>RegMatch\<close> that \<open>regexec\<close> is correct on well-formed code.
  \<open>RegEmit\<close>, \<open>RegSyntax\<close>, \<open>RegGrammar\<close> and \<open>RegEre\<close> show, bottom up, that what the parser of
  extended expressions accepts is a word of a grammar, an inductive definition over texts, and
  that the code it emits has the matches that the word means.  \<open>RegUnique\<close> shows that the grammar is
  unambiguous, so that a text has one meaning.  \<open>RegTotal\<close> shows that \<open>regcomp\<close>
  always returns: the fuel it gives to the parsers is three times the length of the pattern plus
  two, and each expression takes at least one character in at most three nested calls.
  \<open>RegResult\<close> puts the parts together: what \<open>regcomp\<close> accepts is well formed, and \<open>regexec\<close> finds
  what it means.  \<open>StackRegex\<close> shows that the three patterns of \<open>ndk-stack\<close> are accepted, and
  composes its parser with the library.  The theorems on searching are for extended expressions
  without word boundaries, without an anchor that a bounded repetition copies, and for at most one
  reported match; subexpressions, back references and basic expressions are modelled and no
  theorem describes their matches, apart from the termination of the compiler.

  \<^bold>\<open>Small tools and libraries.\<close>  \<open>Toolbox\<close> has \<open>cmp\<close> and \<open>echo\<close> for Windows and the debugger
  wrapper \<open>gdb-stub\<close>; \<open>WideStrings\<close> the wide string conversions, \<open>swprintf\<close> and
  \<open>posix_memalign\<close> of the support library, with UTF-8 and the integer conversions of the C library
  (a locale for conversions that consume ASCII characters only, interpreted on the signed and
  the unsigned ones); \<open>ThreadDb\<close> the thread library of the debugger server.

  \<^bold>\<open>Not modelled.\<close>  The vendored GNU make; the BFD based \<open>addr2line\<close>, which is an argument
  of the model of \<open>ndk-stack\<close>; the tracing code of the regular expression library; the floating-point, OpenGL and JNI
  code of \<open>ndk_helper\<close>; forwarding headers; samples and tests; and the Python and make scripts of
  the build.  Logging that has no effect on the state is left out.  Allocation failures are
  modelled where the code tests for them, except in the regular expression library, where they
  are taken not to happen.
\<close>

end
